(* ===== verification/Osrm_Prelude.thy ===== *)
theory Osrm_Prelude
  imports Main "HOL-Library.Monad_Syntax" "HOL-Library.Word" "HOL-Library.Multiset"
begin

text \<open>
  Shared vocabulary of the development: the identifier and weight types of
  \<^verbatim>\<open>typedefs.h\<close>, the constants that mark "no node", "no edge" and "no weight", and the
  partiality discipline. An operation of the C++ code is a function into \<open>option\<close>
  whenever the code can leave the defined part of the language: \<open>None\<close> stands for an
  out-of-range vector access, a failed \<^verbatim>\<open>BOOST_ASSERT\<close>, an escaping exception or a loop
  that never ends. A theorem that an operation returns \<open>Some\<close> therefore includes
  memory safety and termination of that operation.

  Identifiers (\<^verbatim>\<open>NodeID\<close>, \<^verbatim>\<open>EdgeID\<close>, vector positions) are natural numbers; the
  places where the code relies on their 32-bit width write the width out. Weights are
  integers.
\<close>

section \<open>Types and constants of the program\<close>

type_synonym NodeID = nat
type_synonym EdgeID = nat
type_synonym EdgeWeight = int

definition UINT_MAX :: nat where
  "UINT_MAX = 4294967295"

definition INT_MAX :: int where
  "INT_MAX = 2147483647"

definition INT_MIN :: int where
  "INT_MIN = - 2147483648"

definition SPECIAL_NODEID :: NodeID where
  "SPECIAL_NODEID = UINT_MAX"

definition SPECIAL_EDGEID :: EdgeID where
  "SPECIAL_EDGEID = UINT_MAX"

definition INVALID_EDGE_WEIGHT :: EdgeWeight where
  "INVALID_EDGE_WEIGHT = INT_MAX"

named_theorems limits_defs "the numeric limits the code uses"

declare UINT_MAX_def [limits_defs] INT_MAX_def [limits_defs] INT_MIN_def [limits_defs]
  SPECIAL_NODEID_def [limits_defs] SPECIAL_EDGEID_def [limits_defs]
  INVALID_EDGE_WEIGHT_def [limits_defs]

section \<open>Checked access to vectors\<close>

text \<open>
  \<^verbatim>\<open>v[i]\<close> as a read and as an assignment. C++ gives an out-of-range access no
  meaning; the model gives it \<open>None\<close>.
\<close>

definition nth_opt :: "'a list \<Rightarrow> nat \<Rightarrow> 'a option" where
  "nth_opt xs i = (if i < length xs then Some (xs ! i) else None)"

definition upd_opt :: "'a list \<Rightarrow> nat \<Rightarrow> 'a \<Rightarrow> 'a list option" where
  "upd_opt xs i x = (if i < length xs then Some (xs[i := x]) else None)"

text \<open>\<^verbatim>\<open>BOOST_ASSERT\<close>: carry on or give up.\<close>

definition assert_opt :: "bool \<Rightarrow> unit option" where
  "assert_opt b = (if b then Some () else None)"

lemma nth_opt_in [simp]: "i < length xs \<Longrightarrow> nth_opt xs i = Some (xs ! i)"
  by (simp add: nth_opt_def)

lemma nth_opt_out [simp]: "length xs \<le> i \<Longrightarrow> nth_opt xs i = None"
  by (simp add: nth_opt_def)

lemma nth_opt_Some_iff: "nth_opt xs i = Some x \<longleftrightarrow> i < length xs \<and> x = xs ! i"
  by (auto simp: nth_opt_def)

lemma upd_opt_in [simp]: "i < length xs \<Longrightarrow> upd_opt xs i x = Some (xs[i := x])"
  by (simp add: upd_opt_def)

lemma upd_opt_Some_iff: "upd_opt xs i x = Some ys \<longleftrightarrow> i < length xs \<and> ys = xs[i := x]"
  by (auto simp: upd_opt_def)

lemma assert_opt_True [simp]: "assert_opt True = Some ()"
  by (simp add: assert_opt_def)

lemma assert_opt_Some_iff [simp]: "assert_opt b = Some u \<longleftrightarrow> b"
  by (simp add: assert_opt_def)

lemma assert_opt_bind: "assert_opt b \<bind> f = (if b then f () else None)"
  by (simp add: assert_opt_def)

section \<open>Loops over a range in the option monad\<close>

text \<open>
  \<^verbatim>\<open>for (x : xs) s = f(x, s)\<close> where the body may leave the defined part of the language.
\<close>

primrec foldM :: "('a \<Rightarrow> 's \<Rightarrow> 's option) \<Rightarrow> 'a list \<Rightarrow> 's \<Rightarrow> 's option" where
  "foldM f [] s = Some s"
| "foldM f (x # xs) s = f x s \<bind> foldM f xs"

lemma foldM_append: "foldM f (xs @ ys) s = foldM f xs s \<bind> foldM f ys"
  by (induction xs arbitrary: s) (auto simp: Option.bind_assoc split: bind_splits)

text \<open>The loop rule: an invariant indexed by the part of the range already done.\<close>

lemma foldM_invariant:
  assumes "I [] s"
    and "\<And>x done todo s. xs = done @ x # todo \<Longrightarrow> I done s \<Longrightarrow>
      \<exists>s'. f x s = Some s' \<and> I (done @ [x]) s'"
  shows "\<exists>s'. foldM f xs s = Some s' \<and> I xs s'"
proof -
  have "\<exists>s'. foldM f todo s = Some s' \<and> I xs s'"
    if "I done s" and "xs = done @ todo" for "done" todo s
    using that
  proof (induction todo arbitrary: "done" s)
    case Nil
    then show ?case by simp
  next
    case (Cons x todo)
    from assms(2) [OF Cons.prems(2) Cons.prems(1)] obtain s1
      where "f x s = Some s1" and "I (done @ [x]) s1"
      by blast
    with Cons.IH [of "done @ [x]" s1] Cons.prems(2) show ?case
      by simp
  qed
  from this [of "[]" s xs] assms(1) show ?thesis by simp
qed

text \<open>
  \<^verbatim>\<open>osrm::irange\<close> of \<^verbatim>\<open>util/integer_range.hpp\<close>: the numbers from \<open>start\<close> up to and
  without \<open>past\<close>; counting backwards is an assertion failure.
\<close>

definition irange :: "nat \<Rightarrow> nat \<Rightarrow> nat list option" where
  "irange start past = do { assert_opt (start \<le> past); Some [start..<past] }"

lemma irange_in [simp]: "start \<le> past \<Longrightarrow> irange start past = Some [start..<past]"
  by (simp add: irange_def)

lemma foldM_upt_invariant:
  assumes "I a s" and "a \<le> b"
    and "\<And>i s. a \<le> i \<Longrightarrow> i < b \<Longrightarrow> I i s \<Longrightarrow> \<exists>s'. f i s = Some s' \<and> I (Suc i) s'"
  shows "\<exists>s'. foldM f [a..<b] s = Some s' \<and> I b s'"
proof -
  have "\<exists>s'. foldM f [a..<b] s = Some s' \<and> I (a + length [a..<b]) s'"
  proof (rule foldM_invariant [where I = "\<lambda>done s. I (a + length done) s"])
    fix x "done" todo s
    assume range: "[a..<b] = done @ x # todo" and I: "I (a + length done) s"
    have "[a..<b] ! length done = x" and "length done < length [a..<b]"
      by (simp_all add: range)
    then have "x = a + length done" "x < b" "a \<le> x"
      by auto
    with assms(3) [of x s] I show "\<exists>s'. f x s = Some s' \<and> I (a + length (done @ [x])) s'"
      by simp
  qed (use assms in simp)
  with assms(2) show ?thesis by simp
qed

section \<open>Machine integers and characters\<close>

text \<open>
  A value stored into a 32-bit \<^verbatim>\<open>int\<close> keeps its low 32 bits, read as two's complement.
  A \<^verbatim>\<open>char\<close> is signed; read as an \<^verbatim>\<open>int\<close> it is negative from 128 on.
\<close>

definition to_int32 :: "int \<Rightarrow> int" where
  "to_int32 x = signed_take_bit 31 x"

definition char_int :: "char \<Rightarrow> int" where
  "char_int c = (if of_char c \<ge> (128 :: int) then of_char c - 256 else of_char c)"

lemma to_int32_in [simp]: "- (2 ^ 31) \<le> x \<Longrightarrow> x < 2 ^ 31 \<Longrightarrow> to_int32 x = x"
  by (simp add: to_int32_def signed_take_bit_int_eq_self_iff)

lemma char_int_char_of [simp]: "0 \<le> x \<Longrightarrow> x < 128 \<Longrightarrow> char_int (char_of x) = x"
  by (simp add: char_int_def of_char_of take_bit_eq_mod)

section \<open>Lists\<close>

text \<open>\<^verbatim>\<open>std::is_sorted\<close> with the comparison \<open>lt\<close>.\<close>

fun is_sorted :: "('a \<Rightarrow> 'a \<Rightarrow> bool) \<Rightarrow> 'a list \<Rightarrow> bool" where
  "is_sorted lt (x # y # ys) \<longleftrightarrow> \<not> lt y x \<and> is_sorted lt (y # ys)"
| "is_sorted lt _ \<longleftrightarrow> True"

lemma is_sorted_imp_sorted:
  assumes "is_sorted lt xs" and "\<And>x y. \<not> lt y x \<Longrightarrow> k x \<le> (k y :: 'b::linorder)"
  shows "sorted (map k xs)"
  using assms(1)
proof (induction xs rule: induct_list012)
  case (3 x y zs)
  with assms(2) [of y x] show ?case by (auto intro: order_trans)
qed auto

lemma upt_split: "a \<le> b \<Longrightarrow> b \<le> c \<Longrightarrow> [a..<c] = [a..<b] @ [b..<c]"
  using upt_add_eq_append [of a b "c - b"] by simp


lemma sum_list_take_Suc: "i < length xs \<Longrightarrow> sum_list (take (Suc i) xs) = sum_list (take i xs) + xs ! i"
  for xs :: "'a::monoid_add list"
  by (simp add: take_Suc_conv_app_nth)

lemma nth_list_update_if:
  "i < length xs \<Longrightarrow> xs[i := x] ! j = (if j = i then x else xs ! j)"
  by simp

end
