(* ===== verification/Static_Graph.thy ===== *)
theory Static_Graph
  imports Osrm_Prelude
begin

text \<open>
  \<^verbatim>\<open>data_structures/static_graph.hpp\<close>: the immutable adjacency array that the query
  algorithms run on. The constructor turns a sorted list of input edges into an array of
  first-edge positions and an array of targets and data; the main result is that the
  edges found at a node are exactly the input edges that start there.
\<close>

section \<open>Data\<close>

record 'd input_edge =
  ie_source :: NodeID
  ie_target :: NodeID
  ie_data :: 'd

text \<open>\<^verbatim>\<open>InputEdge::operator<\<close>.\<close>

definition input_edge_less :: "'d input_edge \<Rightarrow> 'd input_edge \<Rightarrow> bool" where
  "input_edge_less left right =
     (if ie_source left \<noteq> ie_source right then ie_source left < ie_source right
      else ie_target left < ie_target right)"

record 'd edge_entry =
  ee_target :: NodeID
  ee_data :: 'd

record 'd static_graph =
  sg_number_of_nodes :: nat
  sg_number_of_edges :: nat
  sg_node_array :: "nat list"
  sg_edge_array :: "'d edge_entry list"

section \<open>Construction\<close>

text \<open>The inner \<^verbatim>\<open>while\<close> loop: skip the edges that start at \<open>node\<close>.\<close>

function skip_edges :: "'d input_edge list \<Rightarrow> NodeID \<Rightarrow> nat \<Rightarrow> nat" where
  "skip_edges graph node edge =
     (if edge < length graph \<and> ie_source (graph ! edge) = node
      then skip_edges graph node (edge + 1) else edge)"
  by pat_completeness auto
termination
  by (relation "measure (\<lambda>(graph, node, edge). length graph - edge)") auto

declare skip_edges.simps [simp del]

definition sg_offsets_step ::
  "'d input_edge list \<Rightarrow> NodeID \<Rightarrow> nat list \<times> nat \<times> nat \<Rightarrow> (nat list \<times> nat \<times> nat) option" where
  "sg_offsets_step graph node = (\<lambda>(node_array, edge, position). do {
     let last_edge = edge;
     let edge = skip_edges graph node edge;
     node_array \<leftarrow> upd_opt node_array node position;
     Some (node_array, edge, position + (edge - last_edge))
   })"

text \<open>Copying input edges into consecutive entries; shared with \<^verbatim>\<open>DynamicGraph\<close>.\<close>

definition copy_edge ::
  "'d input_edge list \<Rightarrow> nat \<Rightarrow> 'd edge_entry list \<times> nat \<Rightarrow> ('d edge_entry list \<times> nat) option" where
  "copy_edge graph i = (\<lambda>(edge_array, edge). do {
     e \<leftarrow> nth_opt graph edge;
     edge_array \<leftarrow> upd_opt edge_array i \<lparr>ee_target = ie_target e, ee_data = ie_data e\<rparr>;
     Some (edge_array, edge + 1)
   })"

definition sg_fill_step ::
  "'d input_edge list \<Rightarrow> nat list \<Rightarrow> NodeID \<Rightarrow> 'd edge_entry list \<times> nat
   \<Rightarrow> ('d edge_entry list \<times> nat) option" where
  "sg_fill_step graph node_array node s = do {
     e \<leftarrow> nth_opt node_array (node + 1);
     b \<leftarrow> nth_opt node_array node;
     r \<leftarrow> irange b e;
     foldM (copy_edge graph) r s
   }"

text \<open>
  The constructor from sorted edges. \<open>entry\<close> is the value-initialised
  \<^verbatim>\<open>EdgeArrayEntry\<close> with which \<^verbatim>\<open>resize\<close> fills the array.
\<close>

definition StaticGraph ::
  "'d edge_entry \<Rightarrow> nat \<Rightarrow> 'd input_edge list \<Rightarrow> 'd static_graph option" where
  "StaticGraph entry nodes graph = do {
     assert_opt (is_sorted input_edge_less graph);
     range \<leftarrow> irange 0 (nodes + 1);
     (node_array, edge, position) \<leftarrow>
       foldM (sg_offsets_step graph) range (replicate (nodes + 1) 0, 0, 0);
     range \<leftarrow> irange 0 nodes;
     (edge_array, edge) \<leftarrow>
       foldM (sg_fill_step graph node_array) range (replicate position entry, 0);
     Some \<lparr>sg_number_of_nodes = nodes, sg_number_of_edges = length graph,
       sg_node_array = node_array, sg_edge_array = edge_array\<rparr>
   }"

text \<open>The constructor from arrays that were built before.\<close>

definition StaticGraph_of_arrays :: "nat list \<Rightarrow> 'd edge_entry list \<Rightarrow> 'd static_graph" where
  "StaticGraph_of_arrays nodes edges =
     \<lparr>sg_number_of_nodes = length nodes - 1, sg_number_of_edges = length edges,
      sg_node_array = nodes, sg_edge_array = edges\<rparr>"

section \<open>Access\<close>

definition sg_BeginEdges :: "'d static_graph \<Rightarrow> NodeID \<Rightarrow> EdgeID option" where
  "sg_BeginEdges g n = nth_opt (sg_node_array g) n"

definition sg_EndEdges :: "'d static_graph \<Rightarrow> NodeID \<Rightarrow> EdgeID option" where
  "sg_EndEdges g n = nth_opt (sg_node_array g) (n + 1)"

definition sg_GetAdjacentEdgeRange :: "'d static_graph \<Rightarrow> NodeID \<Rightarrow> EdgeID list option" where
  "sg_GetAdjacentEdgeRange g node = do {
     b \<leftarrow> sg_BeginEdges g node;
     e \<leftarrow> sg_EndEdges g node;
     irange b e
   }"

definition sg_GetOutDegree :: "'d static_graph \<Rightarrow> NodeID \<Rightarrow> nat option" where
  "sg_GetOutDegree g n = do {
     e \<leftarrow> sg_EndEdges g n;
     b \<leftarrow> sg_BeginEdges g n;
     Some (e - b)
   }"

definition sg_GetTarget :: "'d static_graph \<Rightarrow> EdgeID \<Rightarrow> NodeID option" where
  "sg_GetTarget g e = do { x \<leftarrow> nth_opt (sg_edge_array g) e; Some (ee_target x) }"

definition sg_GetEdgeData :: "'d static_graph \<Rightarrow> EdgeID \<Rightarrow> 'd option" where
  "sg_GetEdgeData g e = do { x \<leftarrow> nth_opt (sg_edge_array g) e; Some (ee_data x) }"

text \<open>The search loops over a range of edges, the same in both graph classes.\<close>

primrec find_edge_loop :: "'d edge_entry list \<Rightarrow> NodeID \<Rightarrow> EdgeID list \<Rightarrow> EdgeID option" where
  "find_edge_loop edges to [] = Some SPECIAL_EDGEID"
| "find_edge_loop edges to (i # is) = do {
     x \<leftarrow> nth_opt edges i;
     (if to = ee_target x then Some i else find_edge_loop edges to is)
   }"

primrec smallest_edge_loop ::
  "('d \<Rightarrow> EdgeWeight) \<Rightarrow> 'd edge_entry list \<Rightarrow> NodeID \<Rightarrow> EdgeID list \<Rightarrow> EdgeID \<times> EdgeWeight
   \<Rightarrow> (EdgeID \<times> EdgeWeight) option" where
  "smallest_edge_loop distance edges to [] s = Some s"
| "smallest_edge_loop distance edges to (i # is) s = do {
     x \<leftarrow> nth_opt edges i;
     smallest_edge_loop distance edges to is
       (if ee_target x = to \<and> distance (ee_data x) < snd s then (i, distance (ee_data x)) else s)
   }"

definition sg_FindEdge :: "'d static_graph \<Rightarrow> NodeID \<Rightarrow> NodeID \<Rightarrow> EdgeID option" where
  "sg_FindEdge g from to = do {
     range \<leftarrow> sg_GetAdjacentEdgeRange g from;
     find_edge_loop (sg_edge_array g) to range
   }"

definition sg_FindSmallestEdge ::
  "('d \<Rightarrow> EdgeWeight) \<Rightarrow> 'd static_graph \<Rightarrow> NodeID \<Rightarrow> NodeID \<Rightarrow> EdgeID option" where
  "sg_FindSmallestEdge distance g from to = do {
     range \<leftarrow> sg_GetAdjacentEdgeRange g from;
     s \<leftarrow> smallest_edge_loop distance (sg_edge_array g) to range (SPECIAL_EDGEID, INVALID_EDGE_WEIGHT);
     Some (fst s)
   }"

definition sg_FindEdgeInEitherDirection :: "'d static_graph \<Rightarrow> NodeID \<Rightarrow> NodeID \<Rightarrow> EdgeID option" where
  "sg_FindEdgeInEitherDirection g from to = do {
     tmp \<leftarrow> sg_FindEdge g from to;
     (if SPECIAL_NODEID \<noteq> tmp then Some tmp else sg_FindEdge g to from)
   }"

text \<open>The reference argument \<^verbatim>\<open>result\<close> is part of the answer.\<close>

definition sg_FindEdgeIndicateIfReverse ::
  "'d static_graph \<Rightarrow> NodeID \<Rightarrow> NodeID \<Rightarrow> bool \<Rightarrow> (EdgeID \<times> bool) option" where
  "sg_FindEdgeIndicateIfReverse g from to result = do {
     current_iterator \<leftarrow> sg_FindEdge g from to;
     (if SPECIAL_NODEID = current_iterator
      then do {
        current_iterator \<leftarrow> sg_FindEdge g to from;
        Some (current_iterator, if SPECIAL_NODEID \<noteq> current_iterator then True else result)
      }
      else Some (current_iterator, result))
   }"

section \<open>What the constructor builds\<close>

text \<open>The number of edges that start before \<open>v\<close>, and how it splits a sorted list.\<close>

definition edges_before :: "'d input_edge list \<Rightarrow> NodeID \<Rightarrow> nat" where
  "edges_before graph v = length (filter (\<lambda>e. ie_source e < v) graph)"

lemma edges_before_0 [simp]: "edges_before graph 0 = 0"
  by (simp add: edges_before_def)

lemma edges_before_le [simp]: "edges_before graph v \<le> length graph"
  by (simp add: edges_before_def)

lemma edges_before_Suc: "edges_before graph v \<le> edges_before graph (Suc v)"
  unfolding edges_before_def by (induction graph) auto

lemma edges_before_iff:
  assumes "sorted (map ie_source graph)" and "i < length graph"
  shows "ie_source (graph ! i) < v \<longleftrightarrow> i < edges_before graph v"
  using assms
proof (induction graph arbitrary: i)
  case (Cons e graph)
  show ?case
  proof (cases "ie_source e < v")
    case True
    with Cons show ?thesis by (cases i) (auto simp: edges_before_def)
  next
    case False
    with Cons.prems(1) have "\<forall>x \<in> set (e # graph). \<not> ie_source x < v"
      by auto
    then have "filter (\<lambda>x. ie_source x < v) (e # graph) = []"
      by (auto simp: filter_empty_conv)
    moreover have "\<not> ie_source ((e # graph) ! i) < v"
      using \<open>\<forall>x \<in> set (e # graph). \<not> ie_source x < v\<close> Cons.prems(2) nth_mem by blast
    ultimately show ?thesis by (simp add: edges_before_def)
  qed
qed simp

lemma skip_edges_correct:
  assumes "sorted (map ie_source graph)" and "edges_before graph v \<le> edge" and "edge \<le> edges_before graph (Suc v)"
  shows "skip_edges graph v edge = edges_before graph (Suc v)"
  using assms
proof (induction graph v edge rule: skip_edges.induct)
  case (1 graph v edge)
  note at = edges_before_iff [OF 1(2), of edge]
  show ?case
  proof (cases "edge < length graph \<and> ie_source (graph ! edge) = v")
    case True
    with at [of "Suc v"] 1(1) [OF True] 1(2-4) show ?thesis
      by (subst skip_edges.simps) simp
  next
    case False
    have "edge = edges_before graph (Suc v)"
    proof (cases "edge < length graph")
      case True
      with False at [of v] at [of "Suc v"] 1(3,4) show ?thesis
        by (auto simp: less_Suc_eq)
    next
      case beyond: False
      with 1(4) show ?thesis
        using edges_before_le [of graph "Suc v"] by linarith
    qed
    moreover have "skip_edges graph v edge = edge"
      using False by (subst skip_edges.simps) auto
    ultimately show ?thesis by simp
  qed
qed

lemma edges_of_node:
  assumes "sorted (map ie_source graph)"
  shows "map ((!) graph) [edges_before graph v..<edges_before graph (Suc v)] = filter (\<lambda>e. ie_source e = v) graph"
proof -
  let ?a = "edges_before graph v" and ?b = "edges_before graph (Suc v)"
  have ab: "?a \<le> ?b" "?b \<le> length graph"
    by (simp_all add: edges_before_Suc)
  note at = edges_before_iff [OF assms]
  have split: "[0..<length graph] = [0..<?a] @ [?a..<?b] @ [?b..<length graph]"
    using ab upt_split [of 0 ?a "length graph"] upt_split [of ?a ?b "length graph"] by simp
  have "filter (\<lambda>e. ie_source e = v) graph
      = map ((!) graph) (filter (\<lambda>i. ie_source (graph ! i) = v) [0..<length graph])"
    by (subst map_nth [of graph, symmetric]) (simp add: filter_map comp_def)
  also have "filter (\<lambda>i. ie_source (graph ! i) = v) [0..<length graph] = [?a..<?b]"
  proof -
    define P where "P i \<longleftrightarrow> ie_source (graph ! i) = v" for i
    have src: "P i \<longleftrightarrow> ?a \<le> i \<and> i < ?b" if "i < length graph" for i
      using at [OF that, of v] at [OF that, of "Suc v"] by (auto simp: P_def)
    have "filter P [0..<?a] = []" "filter P [?b..<length graph] = []" "filter P [?a..<?b] = [?a..<?b]"
      using ab(1) by (auto simp: filter_empty_conv filter_id_conv src order.strict_trans2 [OF _ edges_before_le])
    then have "filter P [0..<length graph] = [?a..<?b]"
      by (simp add: split)
    then show ?thesis by (simp add: P_def [abs_def])
  qed
  finally show ?thesis by simp
qed

lemma sg_offsets:
  assumes "sorted (map ie_source graph)"
  shows "\<exists>na. foldM (sg_offsets_step graph) [0..<n + 1] (replicate (n + 1) 0, 0, 0)
      = Some (na, edges_before graph (n + 1), edges_before graph (n + 1))
    \<and> length na = n + 1 \<and> (\<forall>v \<le> n. na ! v = edges_before graph v)"
proof -
  have "\<exists>s. foldM (sg_offsets_step graph) [0..<n + 1] (replicate (n + 1) 0, 0, 0) = Some s
    \<and> (\<lambda>(na, edge, position). length na = n + 1 \<and> edge = edges_before graph (n + 1) \<and> position = edge
        \<and> (\<forall>v < n + 1. na ! v = edges_before graph v)) s"
    (is "\<exists>s. _ \<and> ?I (n + 1) s")
  proof (rule foldM_upt_invariant [where I = "\<lambda>i (na, edge, position). length na = n + 1
        \<and> edge = edges_before graph i \<and> position = edge \<and> (\<forall>v < i. na ! v = edges_before graph v)"])
    fix i s
    assume "i < n + 1" and "case s of (na, edge, position) \<Rightarrow> length na = n + 1
        \<and> edge = edges_before graph i \<and> position = edge \<and> (\<forall>v < i. na ! v = edges_before graph v)"
    then show "\<exists>s'. sg_offsets_step graph i s = Some s' \<and> (case s' of (na, edge, position) \<Rightarrow> length na = n + 1
        \<and> edge = edges_before graph (Suc i) \<and> position = edge \<and> (\<forall>v < Suc i. na ! v = edges_before graph v))"
      using skip_edges_correct [OF assms, of i "edges_before graph i"] edges_before_Suc [of graph i]
      by (auto simp: sg_offsets_step_def Let_def nth_list_update less_Suc_eq)
  qed auto
  then show ?thesis by (auto simp: less_Suc_eq_le)
qed

text \<open>Copying keeps the input counter and the array position in step.\<close>

definition to_entry :: "'d input_edge \<Rightarrow> 'd edge_entry" where
  "to_entry e = \<lparr>ee_target = ie_target e, ee_data = ie_data e\<rparr>"

lemma copy_edges:
  assumes "a \<le> b" and "b \<le> length graph" and "b \<le> length xs" and "\<forall>i < a. xs ! i = to_entry (graph ! i)"
  shows "\<exists>xs'. foldM (copy_edge graph) [a..<b] (xs, a) = Some (xs', b) \<and> length xs' = length xs
    \<and> (\<forall>i < b. xs' ! i = to_entry (graph ! i))"
proof -
  have "\<exists>s. foldM (copy_edge graph) [a..<b] (xs, a) = Some s
    \<and> (\<lambda>i (ys, j). j = i \<and> length ys = length xs \<and> (\<forall>k < i. ys ! k = to_entry (graph ! k))) b s"
    by (rule foldM_upt_invariant)
       (use assms in \<open>auto simp: copy_edge_def to_entry_def nth_list_update less_Suc_eq\<close>)
  then show ?thesis by auto
qed

lemma sg_fill:
  assumes "length na = n + 1" and "\<forall>v \<le> n. na ! v = edges_before graph v"
    and "edges_before graph n \<le> length xs"
  shows "\<exists>xs'. foldM (sg_fill_step graph na) [0..<n] (xs, 0) = Some (xs', edges_before graph n)
    \<and> length xs' = length xs \<and> (\<forall>i < edges_before graph n. xs' ! i = to_entry (graph ! i))"
proof -
  let ?I = "\<lambda>i (ys, j). j = edges_before graph i \<and> length ys = length xs
    \<and> (\<forall>k < edges_before graph i. ys ! k = to_entry (graph ! k))"
  have mono: "edges_before graph i \<le> edges_before graph n" if "i \<le> n" for i
    by (rule lift_Suc_mono_le [of "edges_before graph", OF edges_before_Suc that])
  have "\<exists>s. foldM (sg_fill_step graph na) [0..<n] (xs, 0) = Some s \<and> ?I n s"
  proof (rule foldM_upt_invariant)
    fix i s
    assume i: "i < n" and "?I i s"
    then obtain ys where s: "s = (ys, edges_before graph i)" "length ys = length xs"
      "\<forall>k < edges_before graph i. ys ! k = to_entry (graph ! k)"
      by auto
    have "edges_before graph (Suc i) \<le> length ys"
      using s(2) mono [of "Suc i"] assms(3) i by simp
    from copy_edges [OF edges_before_Suc edges_before_le this s(3)] s assms(1,2) i edges_before_Suc [of graph i]
    show "\<exists>s'. sg_fill_step graph na i s = Some s' \<and> ?I (Suc i) s'"
      by (auto simp: sg_fill_step_def)
  qed auto
  then show ?thesis by auto
qed

text \<open>A well-formed graph: the positions are in order and within the edge array.\<close>

definition sg_ok :: "'d static_graph \<Rightarrow> bool" where
  "sg_ok g \<longleftrightarrow> length (sg_node_array g) = sg_number_of_nodes g + 1
     \<and> (\<forall>v < sg_number_of_nodes g. sg_node_array g ! v \<le> sg_node_array g ! Suc v
          \<and> sg_node_array g ! Suc v \<le> length (sg_edge_array g))"

abbreviation sg_range :: "'d static_graph \<Rightarrow> NodeID \<Rightarrow> EdgeID list" where
  "sg_range g v \<equiv> [sg_node_array g ! v..<sg_node_array g ! Suc v]"

lemma sg_ok_range:
  assumes "sg_ok g" and "v < sg_number_of_nodes g"
  shows "sg_GetAdjacentEdgeRange g v = Some (sg_range g v)"
    and "\<And>i. i \<in> set (sg_range g v) \<Longrightarrow> i < length (sg_edge_array g)"
  using assms
  by (auto simp: sg_ok_def sg_GetAdjacentEdgeRange_def sg_BeginEdges_def sg_EndEdges_def
      intro: order.strict_trans2)

lemma input_sorted: "is_sorted input_edge_less graph \<Longrightarrow> sorted (map ie_source graph)"
  by (erule is_sorted_imp_sorted) (auto simp: input_edge_less_def split: if_splits)

lemma StaticGraph_built:
  assumes "is_sorted input_edge_less graph"
  shows "\<exists>g. StaticGraph entry n graph = Some g \<and> sg_ok g \<and> sg_number_of_nodes g = n
    \<and> (\<forall>v < n. map ((!) (sg_edge_array g)) (sg_range g v) = map to_entry (filter (\<lambda>e. ie_source e = v) graph))"
proof -
  note sorted = input_sorted [OF assms]
  obtain na where offsets: "foldM (sg_offsets_step graph) [0..<n + 1] (replicate (n + 1) 0, 0, 0)
      = Some (na, edges_before graph (n + 1), edges_before graph (n + 1))"
    and na: "length na = n + 1" "\<forall>v \<le> n. na ! v = edges_before graph v"
    using sg_offsets [OF sorted] by blast
  obtain xs where fill: "foldM (sg_fill_step graph na) [0..<n] (replicate (edges_before graph (n + 1)) entry, 0)
      = Some (xs, edges_before graph n)"
    and xs: "length xs = edges_before graph (n + 1)" "\<forall>i < edges_before graph n. xs ! i = to_entry (graph ! i)"
    using sg_fill [OF na, of "replicate (edges_before graph (n + 1)) entry"] edges_before_Suc [of graph n]
    by auto
  let ?g = "\<lparr>sg_number_of_nodes = n, sg_number_of_edges = length graph, sg_node_array = na, sg_edge_array = xs\<rparr>"
  have g: "StaticGraph entry n graph = Some ?g"
    using assms offsets fill by (simp add: StaticGraph_def)
  have mono: "edges_before graph i \<le> edges_before graph j" if "i \<le> j" for i j
    by (rule lift_Suc_mono_le [of "edges_before graph", OF edges_before_Suc that])
  have "map ((!) xs) (sg_range ?g v) = map to_entry (filter (\<lambda>e. ie_source e = v) graph)" if "v < n" for v
  proof -
    have "sg_range ?g v = [edges_before graph v..<edges_before graph (Suc v)]"
      using na that by simp
    moreover have "xs ! i = to_entry (graph ! i)" if "i < edges_before graph (Suc v)" for i
      using xs(2) that mono [of "Suc v" n] \<open>v < n\<close> by simp
    ultimately have "map ((!) xs) (sg_range ?g v)
        = map (to_entry \<circ> (!) graph) [edges_before graph v..<edges_before graph (Suc v)]"
      by simp
    then show ?thesis
      using edges_of_node [OF sorted, of v] by (simp flip: map_map)
  qed
  moreover have "sg_ok ?g"
    using na xs(1) mono by (auto simp: sg_ok_def)
  ultimately show ?thesis
    using g by (intro exI [of _ ?g]) simp
qed

section \<open>What the searches find\<close>

lemma find_edge_loop_correct:
  "\<forall>i \<in> set is. i < length edges \<Longrightarrow>
   find_edge_loop edges to is = Some (case find (\<lambda>i. ee_target (edges ! i) = to) is of None \<Rightarrow> SPECIAL_EDGEID | Some i \<Rightarrow> i)"
  by (induction "is") auto

lemma find_edge_loop_cases:
  assumes "\<forall>i \<in> set is. i < length edges"
  obtains i where "find_edge_loop edges to is = Some i" "i \<in> set is" "ee_target (edges ! i) = to"
  | "find_edge_loop edges to is = Some SPECIAL_EDGEID" "\<forall>i \<in> set is. ee_target (edges ! i) \<noteq> to"
proof (cases "find (\<lambda>i. ee_target (edges ! i) = to) is")
  case None
  then show thesis
    using find_edge_loop_correct [OF assms, of to] that(2) None by (simp add: find_None_iff)
next
  case (Some i)
  then show thesis
    using find_edge_loop_correct [OF assms, of to] that(1) [of i] Some by (auto simp: find_Some_iff)
qed

text \<open>The smallest edge so far: what \<open>(e, w)\<close> means after looking at the edges \<open>seen\<close>.\<close>

definition smallest_so_far ::
  "('d \<Rightarrow> EdgeWeight) \<Rightarrow> 'd edge_entry list \<Rightarrow> NodeID \<Rightarrow> EdgeID set \<Rightarrow> EdgeID \<Rightarrow> EdgeWeight \<Rightarrow> bool" where
  "smallest_so_far distance edges to seen e w \<longleftrightarrow>
     (\<forall>i \<in> seen. ee_target (edges ! i) = to \<longrightarrow> w \<le> distance (ee_data (edges ! i)))
     \<and> (e = SPECIAL_EDGEID \<and> w = INVALID_EDGE_WEIGHT
        \<or> e \<in> seen \<and> ee_target (edges ! e) = to \<and> distance (ee_data (edges ! e)) = w \<and> w < INVALID_EDGE_WEIGHT)"

lemma smallest_edge_loop_correct:
  assumes "\<forall>i \<in> set is. i < length edges" and "smallest_so_far distance edges to seen e w"
  shows "\<exists>e' w'. smallest_edge_loop distance edges to is (e, w) = Some (e', w')
    \<and> smallest_so_far distance edges to (seen \<union> set is) e' w'"
  using assms
proof (induction "is" arbitrary: seen e w)
  case (Cons i "is")
  let ?x = "edges ! i"
  let ?s = "if ee_target ?x = to \<and> distance (ee_data ?x) < w then (i, distance (ee_data ?x)) else (e, w)"
  have "smallest_so_far distance edges to (insert i seen) (fst ?s) (snd ?s)"
    using Cons.prems(2) by (auto simp: smallest_so_far_def)
  from Cons.IH [OF _ this] Cons.prems(1) show ?case by auto
qed simp

lemma smallest_edge_loop_start:
  assumes "\<forall>i \<in> set is. i < length edges"
  shows "\<exists>e w. smallest_edge_loop distance edges to is (SPECIAL_EDGEID, INVALID_EDGE_WEIGHT) = Some (e, w)
    \<and> smallest_so_far distance edges to (set is) e w"
  using smallest_edge_loop_correct [OF assms, of distance to "{}" SPECIAL_EDGEID INVALID_EDGE_WEIGHT]
  by (simp add: smallest_so_far_def)

section \<open>Properties\<close>

text \<open>
  C7: on every list of edges sorted as the constructor demands, \<^verbatim>\<open>StaticGraph\<close> is built
  without an access out of range, and for every node the adjacent edge range lists exactly
  the targets and data of the input edges that start there, in their order, duplicates
  included.
\<close>

theorem StaticGraph_adjacency:
  assumes "is_sorted input_edge_less graph"
  shows "\<exists>g. StaticGraph entry n graph = Some g \<and> sg_ok g \<and> sg_number_of_nodes g = n
    \<and> (\<forall>v < n. \<exists>r. sg_GetAdjacentEdgeRange g v = Some r
        \<and> map (\<lambda>i. (sg_GetTarget g i, sg_GetEdgeData g i)) r
          = map (\<lambda>e. (Some (ie_target e), Some (ie_data e))) (filter (\<lambda>e. ie_source e = v) graph))"
proof -
  obtain g where g: "StaticGraph entry n graph = Some g" "sg_ok g" "sg_number_of_nodes g = n"
    and adj: "\<forall>v < n. map ((!) (sg_edge_array g)) (sg_range g v) = map to_entry (filter (\<lambda>e. ie_source e = v) graph)"
    using StaticGraph_built [OF assms] by blast
  have "map (\<lambda>i. (sg_GetTarget g i, sg_GetEdgeData g i)) (sg_range g v)
      = map (\<lambda>e. (Some (ie_target e), Some (ie_data e))) (filter (\<lambda>e. ie_source e = v) graph)" if "v < n" for v
  proof -
    have "map (\<lambda>i. (sg_GetTarget g i, sg_GetEdgeData g i)) (sg_range g v)
        = map ((\<lambda>x. (Some (ee_target x), Some (ee_data x))) \<circ> (!) (sg_edge_array g)) (sg_range g v)"
      using sg_ok_range(2) [OF g(2)] g(3) that by (simp add: sg_GetTarget_def sg_GetEdgeData_def)
    also have "\<dots> = map (\<lambda>x. (Some (ee_target x), Some (ee_data x))) (map to_entry (filter (\<lambda>e. ie_source e = v) graph))"
      using adj that by (simp flip: map_map)
    finally show ?thesis by (simp add: to_entry_def comp_def)
  qed
  with g sg_ok_range(1) [OF g(2)] show ?thesis by blast
qed

theorem StaticGraph_adjacency_witness:
  "\<exists>g. StaticGraph \<lparr>ee_target = 0, ee_data = 0 :: int\<rparr> 2
        [\<lparr>ie_source = 0, ie_target = 1, ie_data = 5\<rparr>, \<lparr>ie_source = 1, ie_target = 0, ie_data = 7\<rparr>] = Some g \<and> sg_ok g"
  using StaticGraph_adjacency [of "[\<lparr>ie_source = 0, ie_target = 1, ie_data = 5\<rparr>, \<lparr>ie_source = 1, ie_target = 0, ie_data = 7\<rparr>]"
      "\<lparr>ee_target = 0, ee_data = 0\<rparr>" 2]
  by (auto simp: input_edge_less_def)

text \<open>
  C8: in a well-formed graph \<^verbatim>\<open>FindSmallestEdge\<close> returns an edge to the wanted target
  whose distance is least among the parallel edges, or \<^verbatim>\<open>SPECIAL_EDGEID\<close> when no edge of a
  valid weight leads there.
\<close>

theorem sg_FindSmallestEdge_correct:
  assumes "sg_ok g" and "v < sg_number_of_nodes g" and "length (sg_edge_array g) \<le> SPECIAL_EDGEID"
  shows "\<exists>e r. sg_FindSmallestEdge distance g v t = Some e \<and> sg_GetAdjacentEdgeRange g v = Some r
    \<and> (if e = SPECIAL_EDGEID
       then \<forall>i \<in> set r. sg_GetTarget g i = Some t \<longrightarrow> INVALID_EDGE_WEIGHT \<le> distance (the (sg_GetEdgeData g i))
       else e \<in> set r \<and> sg_GetTarget g e = Some t
          \<and> (\<forall>i \<in> set r. sg_GetTarget g i = Some t \<longrightarrow>
              distance (the (sg_GetEdgeData g e)) \<le> distance (the (sg_GetEdgeData g i))))"
proof -
  note r = sg_ok_range [OF assms(1,2)]
  have data: "sg_GetTarget g i = Some (ee_target (sg_edge_array g ! i))"
    "the (sg_GetEdgeData g i) = ee_data (sg_edge_array g ! i)" "i \<noteq> SPECIAL_EDGEID"
    if "i \<in> set (sg_range g v)" for i
    using r(2) [OF that] assms(3) by (auto simp: sg_GetTarget_def sg_GetEdgeData_def)
  obtain e w where
    "smallest_edge_loop distance (sg_edge_array g) t (sg_range g v) (SPECIAL_EDGEID, INVALID_EDGE_WEIGHT) = Some (e, w)"
    and small: "smallest_so_far distance (sg_edge_array g) t (set (sg_range g v)) e w"
    using smallest_edge_loop_start [of "sg_range g v" "sg_edge_array g" distance t] r(2) by blast
  then have "sg_FindSmallestEdge distance g v t = Some e"
    by (simp add: sg_FindSmallestEdge_def r(1))
  moreover have "if e = SPECIAL_EDGEID
       then \<forall>i \<in> set (sg_range g v). sg_GetTarget g i = Some t \<longrightarrow> INVALID_EDGE_WEIGHT \<le> distance (the (sg_GetEdgeData g i))
       else e \<in> set (sg_range g v) \<and> sg_GetTarget g e = Some t
          \<and> (\<forall>i \<in> set (sg_range g v). sg_GetTarget g i = Some t \<longrightarrow>
              distance (the (sg_GetEdgeData g e)) \<le> distance (the (sg_GetEdgeData g i)))"
    using small data unfolding smallest_so_far_def by (auto simp del: set_upt)
  ultimately show ?thesis
    using r(1) by blast
qed

theorem sg_FindSmallestEdge_correct_witness:
  "\<exists>e r. sg_FindSmallestEdge id (StaticGraph_of_arrays [0, 2, 2]
       [\<lparr>ee_target = 1, ee_data = 5 :: int\<rparr>, \<lparr>ee_target = 1, ee_data = 3\<rparr>]) 0 1 = Some e
    \<and> sg_GetAdjacentEdgeRange (StaticGraph_of_arrays [0, 2, 2]
       [\<lparr>ee_target = 1, ee_data = 5 :: int\<rparr>, \<lparr>ee_target = 1, ee_data = 3\<rparr>]) 0 = Some r"
  using sg_FindSmallestEdge_correct [of "StaticGraph_of_arrays [0, 2, 2]
       [\<lparr>ee_target = 1, ee_data = 5\<rparr>, \<lparr>ee_target = 1, ee_data = 3\<rparr>]" 0 id 1]
  by (auto simp: StaticGraph_of_arrays_def sg_ok_def limits_defs less_Suc_eq)

end
