(* ===== verification/Dynamic_Graph.thy ===== *)
theory Dynamic_Graph
  imports Static_Graph
begin

text \<open>
  \<^verbatim>\<open>data_structures/dynamic_graph.hpp\<close>: the mutable adjacency array of the extractor and
  the contractor. Every node owns a segment of one edge list; free cells carry the dummy
  target \<^verbatim>\<open>UINT_MAX\<close> and may be taken over by a neighbouring segment; a segment that
  cannot grow in place moves to the end. The main results are that insertion and deletion
  change the multiset of edges of one node in the intended way, leave every other node
  alone and keep the segments disjoint.
\<close>

section \<open>Data\<close>

record dg_node =
  dn_first_edge :: nat
  dn_edges :: nat

record 'd dynamic_graph =
  dg_number_of_nodes :: nat
  dg_number_of_edges :: nat
  dg_node_array :: "dg_node list"
  dg_edge_list :: "'d edge_entry list"

text \<open>\<^verbatim>\<open>InputEdge::operator<\<close> compares source and target lexicographically.\<close>

definition dg_input_edge_less :: "'d input_edge \<Rightarrow> 'd input_edge \<Rightarrow> bool" where
  "dg_input_edge_less left right \<longleftrightarrow>
     ie_source left < ie_source right
     \<or> ie_source left = ie_source right \<and> ie_target left < ie_target right"

section \<open>Construction\<close>

text \<open>
  The empty graph. \<open>entry\<close> is a default-initialised \<^verbatim>\<open>Edge\<close>; \<^verbatim>\<open>reserve\<close> has no
  observable effect.
\<close>

definition DynamicGraph_empty :: "'d edge_entry \<Rightarrow> nat \<Rightarrow> 'd dynamic_graph" where
  "DynamicGraph_empty entry nodes =
     \<lparr>dg_number_of_nodes = nodes, dg_number_of_edges = 0,
      dg_node_array = replicate nodes \<lparr>dn_first_edge = 0, dn_edges = 0\<rparr>,
      dg_edge_list = replicate nodes entry\<rparr>"

definition dg_offsets_step ::
  "'d input_edge list \<Rightarrow> NodeID \<Rightarrow> dg_node list \<times> nat \<times> nat \<Rightarrow> (dg_node list \<times> nat \<times> nat) option" where
  "dg_offsets_step graph node = (\<lambda>(node_array, edge, position). do {
     let last_edge = edge;
     let edge = skip_edges graph node edge;
     node_array \<leftarrow> upd_opt node_array node \<lparr>dn_first_edge = position, dn_edges = edge - last_edge\<rparr>;
     Some (node_array, edge, position + (edge - last_edge))
   })"

definition dg_copy_edge ::
  "'d input_edge list \<Rightarrow> nat \<Rightarrow> nat \<Rightarrow> 'd edge_entry list \<times> nat \<Rightarrow> ('d edge_entry list \<times> nat) option" where
  "dg_copy_edge graph nodes i = (\<lambda>(edge_list, edge). do {
     e \<leftarrow> nth_opt graph edge;
     edge_list \<leftarrow> upd_opt edge_list i \<lparr>ee_target = ie_target e, ee_data = ie_data e\<rparr>;
     assert_opt (ie_target e < nodes);
     Some (edge_list, edge + 1)
   })"

definition dg_fill_step ::
  "'d input_edge list \<Rightarrow> nat \<Rightarrow> dg_node list \<Rightarrow> NodeID \<Rightarrow> 'd edge_entry list \<times> nat
   \<Rightarrow> ('d edge_entry list \<times> nat) option" where
  "dg_fill_step graph nodes node_array node s = do {
     n \<leftarrow> nth_opt node_array node;
     r \<leftarrow> irange (dn_first_edge n) (dn_first_edge n + dn_edges n);
     foldM (dg_copy_edge graph nodes) r s
   }"

definition DynamicGraph :: "'d edge_entry \<Rightarrow> nat \<Rightarrow> 'd input_edge list \<Rightarrow> 'd dynamic_graph option" where
  "DynamicGraph entry nodes graph = do {
     assert_opt (is_sorted dg_input_edge_less graph);
     range \<leftarrow> irange 0 nodes;
     (node_array, edge, position) \<leftarrow> foldM (dg_offsets_step graph) range
       (replicate (nodes + 1) \<lparr>dn_first_edge = 0, dn_edges = 0\<rparr>, 0, 0);
     back \<leftarrow> nth_opt node_array (length node_array - 1);
     node_array \<leftarrow> upd_opt node_array (length node_array - 1) (back\<lparr>dn_first_edge := position\<rparr>);
     (edge_list, edge) \<leftarrow>
       foldM (dg_fill_step graph nodes node_array) range (replicate position entry, 0);
     Some \<lparr>dg_number_of_nodes = nodes, dg_number_of_edges = length graph,
       dg_node_array = node_array, dg_edge_list = edge_list\<rparr>
   }"

section \<open>Access\<close>

definition dg_GetOutDegree :: "'d dynamic_graph \<Rightarrow> NodeID \<Rightarrow> nat option" where
  "dg_GetOutDegree g n = do { x \<leftarrow> nth_opt (dg_node_array g) n; Some (dn_edges x) }"

definition dg_BeginEdges :: "'d dynamic_graph \<Rightarrow> NodeID \<Rightarrow> EdgeID option" where
  "dg_BeginEdges g n = do { x \<leftarrow> nth_opt (dg_node_array g) n; Some (dn_first_edge x) }"

definition dg_EndEdges :: "'d dynamic_graph \<Rightarrow> NodeID \<Rightarrow> EdgeID option" where
  "dg_EndEdges g n = do { x \<leftarrow> nth_opt (dg_node_array g) n; Some (dn_first_edge x + dn_edges x) }"

definition dg_GetAdjacentEdgeRange :: "'d dynamic_graph \<Rightarrow> NodeID \<Rightarrow> EdgeID list option" where
  "dg_GetAdjacentEdgeRange g node = do {
     b \<leftarrow> dg_BeginEdges g node;
     e \<leftarrow> dg_EndEdges g node;
     irange b e
   }"

definition dg_GetTarget :: "'d dynamic_graph \<Rightarrow> EdgeID \<Rightarrow> NodeID option" where
  "dg_GetTarget g e = do { x \<leftarrow> nth_opt (dg_edge_list g) e; Some (ee_target x) }"

definition dg_SetTarget :: "'d dynamic_graph \<Rightarrow> EdgeID \<Rightarrow> NodeID \<Rightarrow> 'd dynamic_graph option" where
  "dg_SetTarget g e n = do {
     x \<leftarrow> nth_opt (dg_edge_list g) e;
     es \<leftarrow> upd_opt (dg_edge_list g) e (x\<lparr>ee_target := n\<rparr>);
     Some (g\<lparr>dg_edge_list := es\<rparr>)
   }"

definition dg_GetEdgeData :: "'d dynamic_graph \<Rightarrow> EdgeID \<Rightarrow> 'd option" where
  "dg_GetEdgeData g e = do { x \<leftarrow> nth_opt (dg_edge_list g) e; Some (ee_data x) }"

text \<open>Assignment through the reference that \<^verbatim>\<open>GetEdgeData\<close> returns.\<close>

definition dg_SetEdgeData :: "'d dynamic_graph \<Rightarrow> EdgeID \<Rightarrow> 'd \<Rightarrow> 'd dynamic_graph option" where
  "dg_SetEdgeData g e data = do {
     x \<leftarrow> nth_opt (dg_edge_list g) e;
     es \<leftarrow> upd_opt (dg_edge_list g) e (x\<lparr>ee_data := data\<rparr>);
     Some (g\<lparr>dg_edge_list := es\<rparr>)
   }"

definition dg_GetDirectedOutDegree :: "('d \<Rightarrow> bool) \<Rightarrow> 'd dynamic_graph \<Rightarrow> NodeID \<Rightarrow> nat option" where
  "dg_GetDirectedOutDegree reversed g n = do {
     b \<leftarrow> dg_BeginEdges g n;
     e \<leftarrow> dg_EndEdges g n;
     r \<leftarrow> irange b e;
     foldM (\<lambda>edge degree. do {
       data \<leftarrow> dg_GetEdgeData g edge;
       Some (if \<not> reversed data then degree + 1 else degree)
     }) r 0
   }"

definition dg_FindEdge :: "'d dynamic_graph \<Rightarrow> NodeID \<Rightarrow> NodeID \<Rightarrow> EdgeID option" where
  "dg_FindEdge g from to = do {
     range \<leftarrow> dg_GetAdjacentEdgeRange g from;
     find_edge_loop (dg_edge_list g) to range
   }"

definition dg_FindSmallestEdge ::
  "('d \<Rightarrow> EdgeWeight) \<Rightarrow> 'd dynamic_graph \<Rightarrow> NodeID \<Rightarrow> NodeID \<Rightarrow> EdgeID option" where
  "dg_FindSmallestEdge distance g from to = do {
     range \<leftarrow> dg_GetAdjacentEdgeRange g from;
     s \<leftarrow> smallest_edge_loop distance (dg_edge_list g) to range (SPECIAL_EDGEID, INVALID_EDGE_WEIGHT);
     Some (fst s)
   }"

definition dg_FindEdgeInEitherDirection :: "'d dynamic_graph \<Rightarrow> NodeID \<Rightarrow> NodeID \<Rightarrow> EdgeID option" where
  "dg_FindEdgeInEitherDirection g from to = do {
     tmp \<leftarrow> dg_FindEdge g from to;
     (if SPECIAL_NODEID \<noteq> tmp then Some tmp else dg_FindEdge g to from)
   }"

definition dg_FindEdgeIndicateIfReverse ::
  "'d dynamic_graph \<Rightarrow> NodeID \<Rightarrow> NodeID \<Rightarrow> bool \<Rightarrow> (EdgeID \<times> bool) option" where
  "dg_FindEdgeIndicateIfReverse g from to result = do {
     current_iterator \<leftarrow> dg_FindEdge g from to;
     (if SPECIAL_NODEID = current_iterator
      then do {
        current_iterator \<leftarrow> dg_FindEdge g to from;
        Some (current_iterator, if SPECIAL_NODEID \<noteq> current_iterator then True else result)
      }
      else Some (current_iterator, result))
   }"

section \<open>Update\<close>

definition isDummy :: "'d edge_entry list \<Rightarrow> EdgeID \<Rightarrow> bool option" where
  "isDummy es edge = do { x \<leftarrow> nth_opt es edge; Some (ee_target x = UINT_MAX) }"

definition makeDummy :: "EdgeID \<Rightarrow> 'd edge_entry list \<Rightarrow> 'd edge_entry list option" where
  "makeDummy edge es = do {
     x \<leftarrow> nth_opt es edge;
     upd_opt es edge (x\<lparr>ee_target := UINT_MAX\<rparr>)
   }"

text \<open>\<^verbatim>\<open>edge_list[dst] = edge_list[src]\<close>.\<close>

definition move_edge :: "EdgeID \<Rightarrow> EdgeID \<Rightarrow> 'd edge_entry list \<Rightarrow> 'd edge_entry list option" where
  "move_edge dst src es = do { x \<leftarrow> nth_opt es src; upd_opt es dst x }"

definition dg_InsertNode :: "'d dynamic_graph \<Rightarrow> (nat \<times> 'd dynamic_graph) option" where
  "dg_InsertNode g = do {
     back \<leftarrow> nth_opt (dg_node_array g) (length (dg_node_array g) - 1);
     let n = dg_number_of_nodes g + 1;
     Some (n, g\<lparr>dg_node_array := dg_node_array g @ [back], dg_number_of_nodes := n\<rparr>)
   }"

text \<open>
  \<^verbatim>\<open>unsigned newSize = node.edges * 1.1 + 2\<close>. The double nearest to 1.1 lies slightly
  above it, so that the truncated product is the integer part of eleven tenths for every
  32-bit \<^verbatim>\<open>edges\<close>.
\<close>

definition newSize :: "nat \<Rightarrow> nat" where
  "newSize edges = edges * 11 div 10 + 2"

text \<open>Moving a segment to the end of the edge list; \<open>first_edge\<close> becomes its old size.\<close>

definition relocate ::
  "'d edge_entry \<Rightarrow> dg_node \<Rightarrow> 'd edge_entry list \<Rightarrow> (dg_node \<times> 'd edge_entry list) option" where
  "relocate entry node es = do {
     let newFirstEdge = length es;
     let size = newSize (dn_edges node);
     let es = es @ replicate size entry;
     r \<leftarrow> irange 0 (dn_edges node);
     es \<leftarrow> foldM (\<lambda>i es. do {
       es \<leftarrow> move_edge (newFirstEdge + i) (dn_first_edge node + i) es;
       makeDummy (dn_first_edge node + i) es
     }) r es;
     r \<leftarrow> irange (dn_edges node + 1) size;
     es \<leftarrow> foldM (\<lambda>i. makeDummy (newFirstEdge + i)) r es;
     Some (node\<lparr>dn_first_edge := newFirstEdge\<rparr>, es)
   }"

text \<open>
  Room for one more edge behind the segment: the next cell if it is free, the cell before
  the segment if that one is free, a new place otherwise.
\<close>

definition make_room ::
  "'d edge_entry \<Rightarrow> dg_node \<Rightarrow> 'd edge_entry list \<Rightarrow> (dg_node \<times> 'd edge_entry list) option" where
  "make_room entry node es = do {
     let newFirstEdge = dn_edges node + dn_first_edge node;
     full \<leftarrow> (if newFirstEdge \<ge> length es then Some True else do { d \<leftarrow> isDummy es newFirstEdge; Some (\<not> d) });
     (if full then do {
        grow_left \<leftarrow> (if dn_first_edge node \<noteq> 0 then isDummy es (dn_first_edge node - 1) else Some False);
        (if grow_left then do {
           let node = node\<lparr>dn_first_edge := dn_first_edge node - 1\<rparr>;
           es \<leftarrow> move_edge (dn_first_edge node) (dn_first_edge node + dn_edges node) es;
           Some (node, es)
         }
         else relocate entry node es)
      }
      else Some (node, es))
   }"

text \<open>The result is the position behind the last edge of the node, not the new edge.\<close>

definition dg_InsertEdge ::
  "'d edge_entry \<Rightarrow> NodeID \<Rightarrow> NodeID \<Rightarrow> 'd \<Rightarrow> 'd dynamic_graph \<Rightarrow> (EdgeID \<times> 'd dynamic_graph) option" where
  "dg_InsertEdge entry from to data g = do {
     node \<leftarrow> nth_opt (dg_node_array g) from;
     (node, es) \<leftarrow> make_room entry node (dg_edge_list g);
     es \<leftarrow> upd_opt es (dn_first_edge node + dn_edges node) \<lparr>ee_target = to, ee_data = data\<rparr>;
     let node = node\<lparr>dn_edges := dn_edges node + 1\<rparr>;
     nodes \<leftarrow> upd_opt (dg_node_array g) from node;
     Some (dn_first_edge node + dn_edges node,
       g\<lparr>dg_edge_list := es, dg_node_array := nodes, dg_number_of_edges := dg_number_of_edges g + 1\<rparr>)
   }"

text \<open>\<^verbatim>\<open>--node.edges\<close> at zero wraps around and fails the assertion that follows.\<close>

definition dg_DeleteEdge :: "NodeID \<Rightarrow> EdgeID \<Rightarrow> 'd dynamic_graph \<Rightarrow> 'd dynamic_graph option" where
  "dg_DeleteEdge source e g = do {
     node \<leftarrow> nth_opt (dg_node_array g) source;
     assert_opt (dn_edges node \<noteq> 0);
     let node = node\<lparr>dn_edges := dn_edges node - 1\<rparr>;
     let last = dn_first_edge node + dn_edges node;
     assert_opt (UINT_MAX \<noteq> last);
     es \<leftarrow> move_edge e last (dg_edge_list g);
     es \<leftarrow> makeDummy last es;
     nodes \<leftarrow> upd_opt (dg_node_array g) source node;
     Some (g\<lparr>dg_edge_list := es, dg_node_array := nodes, dg_number_of_edges := dg_number_of_edges g - 1\<rparr>)
   }"

text \<open>The two nested loops of \<^verbatim>\<open>DeleteEdgesTo\<close>.\<close>

function delete_run ::
  "NodeID \<Rightarrow> nat \<Rightarrow> nat \<Rightarrow> nat \<Rightarrow> 'd edge_entry list \<Rightarrow> (nat \<times> 'd edge_entry list) option" where
  "delete_run target i iend deleted es =
     (if iend \<le> deleted then None
      else do {
        let deleted = deleted + 1;
        es \<leftarrow> move_edge i (iend - deleted) es;
        es \<leftarrow> makeDummy (iend - deleted) es;
        again \<leftarrow> (if i < iend - deleted then do { x \<leftarrow> nth_opt es i; Some (ee_target x = target) } else Some False);
        (if again then delete_run target i iend deleted es else Some (deleted, es))
      })"
  by pat_completeness auto
termination
  by (relation "measure (\<lambda>(target, i, iend, deleted, es). iend - deleted)") auto

function delete_loop ::
  "NodeID \<Rightarrow> nat \<Rightarrow> nat \<Rightarrow> nat \<Rightarrow> 'd edge_entry list \<Rightarrow> (nat \<times> 'd edge_entry list) option" where
  "delete_loop target i iend deleted es =
     (if i < iend - deleted then do {
        x \<leftarrow> nth_opt es i;
        (deleted, es) \<leftarrow>
          (if ee_target x = target then delete_run target i iend deleted es else Some (deleted, es));
        delete_loop target (i + 1) iend deleted es
      }
      else Some (deleted, es))"
  by pat_completeness auto
termination
  by (relation "measure (\<lambda>(target, i, iend, deleted, es). iend - i)") auto

declare delete_run.simps [simp del] delete_loop.simps [simp del]

definition dg_DeleteEdgesTo :: "NodeID \<Rightarrow> NodeID \<Rightarrow> 'd dynamic_graph \<Rightarrow> (nat \<times> 'd dynamic_graph) option" where
  "dg_DeleteEdgesTo source target g = do {
     i \<leftarrow> dg_BeginEdges g source;
     iend \<leftarrow> dg_EndEdges g source;
     (deleted, es) \<leftarrow> delete_loop target i iend 0 (dg_edge_list g);
     node \<leftarrow> nth_opt (dg_node_array g) source;
     nodes \<leftarrow> upd_opt (dg_node_array g) source (node\<lparr>dn_edges := dn_edges node - deleted\<rparr>);
     Some (deleted, g\<lparr>dg_edge_list := es, dg_node_array := nodes,
       dg_number_of_edges := dg_number_of_edges g - deleted\<rparr>)
   }"

end
