(* ===== verification/Dynamic_Graph_Laws.thy ===== *)
theory Dynamic_Graph_Laws
  imports Dynamic_Graph
begin

text \<open>
  The segment invariant of \<^verbatim>\<open>DynamicGraph\<close> and the laws of its constructor and updates.
\<close>

section \<open>Segments of the edge list\<close>

definition seg :: "'a list \<Rightarrow> nat \<Rightarrow> nat \<Rightarrow> 'a list" where
  "seg es a b = map ((!) es) [a..<b]"

lemma length_seg [simp]: "length (seg es a b) = b - a"
  by (simp add: seg_def)

lemma seg_empty [simp]: "b \<le> a \<Longrightarrow> seg es a b = []"
  by (simp add: seg_def)

lemma seg_nth [simp]: "i < b - a \<Longrightarrow> seg es a b ! i = es ! (a + i)"
  by (simp add: seg_def)

lemma set_seg: "set (seg es a b) = (!) es ` {a..<b}"
  by (simp add: seg_def)

lemma seg_cong: "(\<And>i. a \<le> i \<Longrightarrow> i < b \<Longrightarrow> es' ! i = es ! i) \<Longrightarrow> seg es' a b = seg es a b"
  by (simp add: seg_def)

lemma seg_shift: "(\<And>i. i < n \<Longrightarrow> es' ! (a' + i) = es ! (a + i)) \<Longrightarrow> seg es' a' (a' + n) = seg es a (a + n)"
  by (rule nth_equalityI) auto

lemma seg_Suc: "a \<le> b \<Longrightarrow> seg es a (Suc b) = seg es a b @ [es ! b]"
  by (simp add: seg_def)

lemma seg_Cons: "a < b \<Longrightarrow> seg es a b = es ! a # seg es (Suc a) b"
  by (simp add: seg_def upt_conv_Cons)

lemma seg_append: "a \<le> b \<Longrightarrow> b \<le> c \<Longrightarrow> seg es a c = seg es a b @ seg es b c"
  by (simp add: seg_def upt_split [of a b c])

lemma mset_seg_replace:
  assumes "a \<le> i" and "i \<le> b" and "b < length es"
  shows "mset (seg (es[i := es ! b]) a b) = mset (seg es a (Suc b)) - {#es ! i#}"
proof (cases "i = b")
  case True
  with assms show ?thesis by (simp add: seg_Suc)
next
  case False
  with assms have i: "i < b" by simp
  have "seg (es[i := es ! b]) a b = (seg es a b)[i - a := es ! b]"
    using assms i by (intro nth_equalityI) (auto simp: nth_list_update)
  moreover have "mset \<dots> = add_mset (es ! b) (mset (seg es a b) - {#es ! i#})"
    using assms i by (subst mset_update) auto
  moreover have "es ! i \<in># mset (seg es a b)"
    using assms i by (auto simp: set_seg)
  ultimately show ?thesis
    using assms by (simp add: seg_Suc)
qed

section \<open>The invariant\<close>

abbreviation first_of :: "'d dynamic_graph \<Rightarrow> NodeID \<Rightarrow> nat" where
  "first_of g v \<equiv> dn_first_edge (dg_node_array g ! v)"

abbreviation past_of :: "'d dynamic_graph \<Rightarrow> NodeID \<Rightarrow> nat" where
  "past_of g v \<equiv> dn_first_edge (dg_node_array g ! v) + dn_edges (dg_node_array g ! v)"

definition dg_out :: "'d dynamic_graph \<Rightarrow> NodeID \<Rightarrow> 'd edge_entry list" where
  "dg_out g v = seg (dg_edge_list g) (first_of g v) (past_of g v)"

definition dg_ok :: "'d dynamic_graph \<Rightarrow> bool" where
  "dg_ok g \<longleftrightarrow>
     dg_number_of_nodes g \<le> length (dg_node_array g) \<and> dg_number_of_nodes g \<le> UINT_MAX
     \<and> (\<forall>v < dg_number_of_nodes g. past_of g v \<le> length (dg_edge_list g))
     \<and> (\<forall>v < dg_number_of_nodes g. \<forall>w < dg_number_of_nodes g. v \<noteq> w \<longrightarrow>
          {first_of g v..<past_of g v} \<inter> {first_of g w..<past_of g w} = {})
     \<and> (\<forall>v < dg_number_of_nodes g. \<forall>x \<in> set (dg_out g v). ee_target x < dg_number_of_nodes g)"

lemma dg_okD:
  assumes "dg_ok g" and "v < dg_number_of_nodes g"
  shows "v < length (dg_node_array g)" and "past_of g v \<le> length (dg_edge_list g)"
    and "x \<in> set (dg_out g v) \<Longrightarrow> ee_target x < dg_number_of_nodes g"
    and "first_of g v \<le> i \<Longrightarrow> i < past_of g v \<Longrightarrow> ee_target (dg_edge_list g ! i) < UINT_MAX"
    and "w < dg_number_of_nodes g \<Longrightarrow> v \<noteq> w \<Longrightarrow> first_of g v \<le> i \<Longrightarrow> i < past_of g v \<Longrightarrow>
      i < first_of g w \<or> past_of g w \<le> i"
proof -
  note ok = assms(1) [unfolded dg_ok_def]
  show "v < length (dg_node_array g)" "past_of g v \<le> length (dg_edge_list g)"
    using ok assms(2) by auto
  show t: "ee_target x < dg_number_of_nodes g" if "x \<in> set (dg_out g v)" for x
    using ok assms(2) that by blast
  show "ee_target (dg_edge_list g ! i) < UINT_MAX" if "first_of g v \<le> i" "i < past_of g v"
    using t [of "dg_edge_list g ! i"] that ok by (auto simp: dg_out_def set_seg)
  show "i < first_of g w \<or> past_of g w \<le> i"
    if "w < dg_number_of_nodes g" "v \<noteq> w" "first_of g v \<le> i" "i < past_of g v"
  proof -
    have "{first_of g v..<past_of g v} \<inter> {first_of g w..<past_of g w} = {}"
      using ok assms(2) that(1,2) by blast
    then have "i \<notin> {first_of g w..<past_of g w}"
      using that(3,4) by (metis IntI atLeastLessThan_iff empty_iff)
    then show ?thesis by auto
  qed
qed

text \<open>
  Replacing the segment of one node keeps the invariant and the edges of the other nodes
  when the new segment avoids theirs.
\<close>

lemma dg_ok_replace:
  assumes ok: "dg_ok g" and v: "v < dg_number_of_nodes g"
    and g': "dg_number_of_nodes g' = dg_number_of_nodes g" "dg_node_array g' = (dg_node_array g)[v := node]"
    and len: "length (dg_edge_list g) \<le> length (dg_edge_list g')"
      "dn_first_edge node + dn_edges node \<le> length (dg_edge_list g')"
    and other: "\<And>w i. w < dg_number_of_nodes g \<Longrightarrow> w \<noteq> v \<Longrightarrow> first_of g w \<le> i \<Longrightarrow> i < past_of g w \<Longrightarrow>
      dg_edge_list g' ! i = dg_edge_list g ! i
      \<and> (i < dn_first_edge node \<or> dn_first_edge node + dn_edges node \<le> i)"
    and targets: "\<forall>x \<in> set (seg (dg_edge_list g') (dn_first_edge node) (dn_first_edge node + dn_edges node)).
      ee_target x < dg_number_of_nodes g"
  shows "dg_ok g'" and "\<And>w. w < dg_number_of_nodes g \<Longrightarrow> w \<noteq> v \<Longrightarrow> dg_out g' w = dg_out g w"
    and "dg_out g' v = seg (dg_edge_list g') (dn_first_edge node) (dn_first_edge node + dn_edges node)"
proof -
  note okv = dg_okD [OF ok v]
  have nodes: "dg_node_array g' ! w = (if w = v then node else dg_node_array g ! w)" for w
    using okv(1) by (simp add: g' nth_list_update_if)
  show out: "dg_out g' w = dg_out g w" if "w < dg_number_of_nodes g" "w \<noteq> v" for w
    unfolding dg_out_def nodes using that other by (auto intro!: seg_cong)
  show outv: "dg_out g' v = seg (dg_edge_list g') (dn_first_edge node) (dn_first_edge node + dn_edges node)"
    by (simp add: dg_out_def nodes)
  have disj: "{first_of g' a..<past_of g' a} \<inter> {first_of g' b..<past_of g' b} = {}"
    if "a < dg_number_of_nodes g" "b < dg_number_of_nodes g" "a \<noteq> b" for a b
  proof -
    have "\<not> (first_of g' a \<le> i \<and> i < past_of g' a \<and> first_of g' b \<le> i \<and> i < past_of g' b)" for i
      using other [of a i] other [of b i] dg_okD(5) [OF ok that(1,2,3), of i] that
      by (cases "a = v"; cases "b = v") (auto simp: nodes)
    then show ?thesis
      by (auto simp del: Int_atLeastLessThan)
  qed
  show "dg_ok g'"
    unfolding dg_ok_def g'(1)
  proof (intro conjI allI impI ballI)
    show "dg_number_of_nodes g \<le> length (dg_node_array g')" "dg_number_of_nodes g \<le> UINT_MAX"
      using ok by (auto simp: dg_ok_def g')
    show "past_of g' w \<le> length (dg_edge_list g')" if "w < dg_number_of_nodes g" for w
      using dg_okD(2) [OF ok that] len by (simp add: nodes)
    show "ee_target x < dg_number_of_nodes g" if "w < dg_number_of_nodes g" "x \<in> set (dg_out g' w)" for w x
      using that out outv targets dg_okD(3) [OF ok that(1)] by (cases "w = v") auto
  qed (use disj in auto)
qed

section \<open>Insertion\<close>

text \<open>
  What \<open>make_room\<close> achieves: the segment has the same edges, and the cell behind it is
  free and belongs to no other node.
\<close>

definition has_room ::
  "'d dynamic_graph \<Rightarrow> NodeID \<Rightarrow> dg_node \<Rightarrow> 'd edge_entry list \<Rightarrow> bool" where
  "has_room g v node es \<longleftrightarrow>
     dn_edges node = dn_edges (dg_node_array g ! v)
     \<and> length (dg_edge_list g) \<le> length es \<and> dn_first_edge node + dn_edges node < length es
     \<and> mset (seg es (dn_first_edge node) (dn_first_edge node + dn_edges node)) = mset (dg_out g v)
     \<and> (\<forall>w < dg_number_of_nodes g. w \<noteq> v \<longrightarrow> (\<forall>i. first_of g w \<le> i \<and> i < past_of g w \<longrightarrow>
          es ! i = dg_edge_list g ! i
          \<and> (i < dn_first_edge node \<or> dn_first_edge node + dn_edges node < i)))"

lemma dummy_foreign:
  assumes "dg_ok g" and "w < dg_number_of_nodes g" and "ee_target (dg_edge_list g ! k) = UINT_MAX"
    and "first_of g w \<le> i" and "i < past_of g w"
  shows "i \<noteq> k"
  using dg_okD(4) [OF assms(1,2,4,5)] assms(3) by auto

lemma room_next:
  assumes ok: "dg_ok g" and v: "v < dg_number_of_nodes g" and nx: "past_of g v < length (dg_edge_list g)"
    "ee_target (dg_edge_list g ! past_of g v) = UINT_MAX"
  shows "has_room g v (dg_node_array g ! v) (dg_edge_list g)"
proof -
  have "i < first_of g v \<or> past_of g v < i"
    if "w < dg_number_of_nodes g" "w \<noteq> v" "first_of g w \<le> i" "i < past_of g w" for w i
    using dg_okD(5) [OF ok that(1) v that(2-4)] dummy_foreign [OF ok that(1) nx(2) that(3,4)] by auto
  then show ?thesis
    using nx by (simp add: has_room_def dg_out_def)
qed

lemma room_left:
  assumes ok: "dg_ok g" and v: "v < dg_number_of_nodes g" and left: "first_of g v \<noteq> 0"
    "ee_target (dg_edge_list g ! (first_of g v - 1)) = UINT_MAX"
  defines "F \<equiv> first_of g v - 1" and "E \<equiv> dn_edges (dg_node_array g ! v)"
  shows "has_room g v ((dg_node_array g ! v)\<lparr>dn_first_edge := F\<rparr>)
    ((dg_edge_list g)[F := dg_edge_list g ! (F + E)])"
proof -
  let ?es = "dg_edge_list g"
  have first: "first_of g v = Suc F" and len: "F + E < length ?es"
    using left(1) dg_okD(2) [OF ok v] by (auto simp: F_def E_def)
  have "mset (seg (?es[F := ?es ! (F + E)]) F (F + E)) = mset (dg_out g v)"
  proof (cases "E = 0")
    case False
    then have "mset (seg (?es[F := ?es ! (F + E)]) F (F + E)) = mset (seg ?es F (Suc (F + E))) - {#?es ! F#}"
      using len by (intro mset_seg_replace) auto
    also have "\<dots> = mset (seg ?es (Suc F) (Suc (F + E)))"
      by (subst seg_Cons) auto
    finally show ?thesis
      by (simp add: dg_out_def first E_def)
  qed (simp add: dg_out_def first E_def)
  moreover have "?es[F := ?es ! (F + E)] ! i = ?es ! i \<and> (i < F \<or> F + E < i)"
    if "w < dg_number_of_nodes g" "w \<noteq> v" "first_of g w \<le> i" "i < past_of g w" for w i
    using dg_okD(5) [OF ok that(1) v that(2-4)] dummy_foreign [OF ok that(1) left(2) that(3,4)]
    by (auto simp: E_def first)
  ultimately show ?thesis
    using len by (simp add: has_room_def E_def)
qed

lemma makeDummy_in: "i < length es \<Longrightarrow> makeDummy i es = Some (es[i := (es ! i)\<lparr>ee_target := UINT_MAX\<rparr>])"
  by (simp add: makeDummy_def)

lemma move_edge_in: "i < length es \<Longrightarrow> j < length es \<Longrightarrow> move_edge i j es = Some (es[i := es ! j])"
  by (simp add: move_edge_def)

lemma relocate_copies:
  assumes "F + E \<le> L" and "L + E < length es"
  shows "\<exists>es'. foldM (\<lambda>i es. do { es \<leftarrow> move_edge (L + i) (F + i) es; makeDummy (F + i) es }) [0..<E] es = Some es'
    \<and> length es' = length es \<and> (\<forall>j < E. es' ! (L + j) = es ! (F + j))
    \<and> (\<forall>k < L. (k < F \<or> F + E \<le> k) \<longrightarrow> es' ! k = es ! k)"
proof -
  let ?I = "\<lambda>i es'. length es' = length es \<and> (\<forall>j < i. es' ! (L + j) = es ! (F + j))
    \<and> (\<forall>k < L. (k < F \<or> F + i \<le> k) \<longrightarrow> es' ! k = es ! k)"
  have "\<exists>es'. foldM (\<lambda>i es. do { es \<leftarrow> move_edge (L + i) (F + i) es; makeDummy (F + i) es }) [0..<E] es = Some es'
    \<and> ?I E es'"
    by (rule foldM_upt_invariant)
       (use assms in \<open>auto simp: move_edge_in makeDummy_in nth_list_update less_Suc_eq\<close>)
  then show ?thesis by auto
qed

lemma relocate_dummies:
  assumes "b + L \<le> length es"
  shows "\<exists>es'. foldM (\<lambda>i. makeDummy (L + i)) [a..<b] es = Some es'
    \<and> length es' = length es \<and> (\<forall>k < L + a. es' ! k = es ! k)"
proof (cases "a \<le> b")
  case True
  have "\<exists>es'. foldM (\<lambda>i. makeDummy (L + i)) [a..<b] es = Some es'
    \<and> (\<lambda>i es'. length es' = length es \<and> (\<forall>k < L + a. es' ! k = es ! k)) b es'"
    by (rule foldM_upt_invariant) (use assms True in \<open>auto simp: makeDummy_in nth_list_update\<close>)
  then show ?thesis by auto
qed simp

lemma room_end:
  assumes ok: "dg_ok g" and v: "v < dg_number_of_nodes g"
  shows "\<exists>node es. relocate entry (dg_node_array g ! v) (dg_edge_list g) = Some (node, es) \<and> has_room g v node es"
proof -
  let ?es = "dg_edge_list g" and ?node = "dg_node_array g ! v"
  let ?L = "length (dg_edge_list g)" and ?E = "dn_edges (dg_node_array g ! v)"
  let ?S = "newSize ?E"
  have S: "?E + 1 \<le> ?S" "?E < ?S"
    by (auto simp: newSize_def)
  note len = dg_okD(2) [OF ok v]
  obtain es1 where es1: "foldM (\<lambda>i es. do { es \<leftarrow> move_edge (?L + i) (first_of g v + i) es; makeDummy (first_of g v + i) es })
      [0..<?E] (?es @ replicate ?S entry) = Some es1" "length es1 = ?L + ?S"
    and copied: "\<forall>j < ?E. es1 ! (?L + j) = ?es ! (first_of g v + j)"
    and kept: "\<forall>k < ?L. (k < first_of g v \<or> past_of g v \<le> k) \<longrightarrow> es1 ! k = ?es ! k"
    using relocate_copies [OF len, of "?es @ replicate ?S entry"] len S(2) by (auto simp: nth_append)
  obtain es2 where es2: "foldM (\<lambda>i. makeDummy (?L + i)) [?E + 1..<?S] es1 = Some es2" "length es2 = ?L + ?S"
    "\<forall>k < ?L + (?E + 1). es2 ! k = es1 ! k"
    using relocate_dummies [of ?S ?L es1 "?E + 1"] es1(2) by auto
  have "seg es2 ?L (?L + ?E) = dg_out g v"
    unfolding dg_out_def using copied es2(3) by (intro seg_shift) auto
  moreover have "es2 ! i = ?es ! i \<and> i < ?L"
    if "w < dg_number_of_nodes g" "w \<noteq> v" "first_of g w \<le> i" "i < past_of g w" for w i
    using dg_okD(5) [OF ok that(1) v that(2-4)] dg_okD(2) [OF ok that(1)] kept es2(3) that by auto
  ultimately have "has_room g v (?node\<lparr>dn_first_edge := ?L\<rparr>) es2"
    using es2(2) S(2) by (simp add: has_room_def)
  moreover have "relocate entry ?node ?es = Some (?node\<lparr>dn_first_edge := ?L\<rparr>, es2)"
    using es1(1) es2(1) S(1) by (simp add: relocate_def Let_def)
  ultimately show ?thesis by blast
qed

lemma make_room_correct:
  assumes ok: "dg_ok g" and v: "v < dg_number_of_nodes g"
  shows "\<exists>node es. make_room entry (dg_node_array g ! v) (dg_edge_list g) = Some (node, es) \<and> has_room g v node es"
proof -
  let ?es = "dg_edge_list g" and ?node = "dg_node_array g ! v"
  note len = dg_okD(2) [OF ok v]
  consider "past_of g v < length ?es" "ee_target (?es ! past_of g v) = UINT_MAX"
    | "past_of g v \<ge> length ?es \<or> ee_target (?es ! past_of g v) \<noteq> UINT_MAX"
      "first_of g v \<noteq> 0" "ee_target (?es ! (first_of g v - 1)) = UINT_MAX"
    | "past_of g v \<ge> length ?es \<or> ee_target (?es ! past_of g v) \<noteq> UINT_MAX"
      "first_of g v = 0 \<or> ee_target (?es ! (first_of g v - 1)) \<noteq> UINT_MAX"
    by linarith
  then show ?thesis
  proof cases
    case 1
    then have "make_room entry ?node ?es = Some (?node, ?es)"
      by (simp add: make_room_def isDummy_def add.commute)
    with room_next [OF ok v 1] show ?thesis by blast
  next
    case 2
    let ?F = "first_of g v - 1"
    have "make_room entry ?node ?es = Some (?node\<lparr>dn_first_edge := ?F\<rparr>, ?es[?F := ?es ! (?F + dn_edges ?node)])"
      using 2 len by (cases "past_of g v < length ?es") (auto simp: make_room_def isDummy_def move_edge_in Let_def add.commute)
    with room_left [OF ok v 2(2,3)] show ?thesis by blast
  next
    case 3
    then have "make_room entry ?node ?es = relocate entry ?node ?es"
      using len by (cases "past_of g v < length ?es") (auto simp: make_room_def isDummy_def Let_def add.commute)
    with room_end [OF ok v] show ?thesis by simp
  qed
qed

lemma InsertEdge_law:
  assumes ok: "dg_ok g" and v: "v < dg_number_of_nodes g" and t: "t < dg_number_of_nodes g"
  shows "\<exists>e g'. dg_InsertEdge entry v t d g = Some (e, g') \<and> dg_ok g'
    \<and> dg_number_of_nodes g' = dg_number_of_nodes g \<and> dg_number_of_edges g' = dg_number_of_edges g + 1
    \<and> mset (dg_out g' v) = add_mset \<lparr>ee_target = t, ee_data = d\<rparr> (mset (dg_out g v))
    \<and> (\<forall>w < dg_number_of_nodes g. w \<noteq> v \<longrightarrow> dg_out g' w = dg_out g w)
    \<and> dg_EndEdges g' v = Some e"
proof -
  obtain node es where room: "make_room entry (dg_node_array g ! v) (dg_edge_list g) = Some (node, es)"
    and hr: "has_room g v node es"
    using make_room_correct [OF assms(1,2)] by blast
  let ?x = "\<lparr>ee_target = t, ee_data = d\<rparr>" and ?p = "dn_first_edge node + dn_edges node"
  let ?node = "node\<lparr>dn_edges := dn_edges node + 1\<rparr>"
  let ?g = "g\<lparr>dg_edge_list := es[?p := ?x], dg_node_array := (dg_node_array g)[v := ?node],
      dg_number_of_edges := dg_number_of_edges g + 1\<rparr>"
  note hr' = hr [unfolded has_room_def]
  have len: "?p < length es" and same: "mset (seg es (dn_first_edge node) ?p) = mset (dg_out g v)"
    using hr' by blast+
  have run: "dg_InsertEdge entry v t d g = Some (Suc ?p, ?g)"
    using dg_okD(1) [OF ok v] room len by (simp add: dg_InsertEdge_def)
  have "seg (es[?p := ?x]) (dn_first_edge node) ?p = seg es (dn_first_edge node) ?p"
    by (rule seg_cong) auto
  then have out: "mset (seg (dg_edge_list ?g) (dn_first_edge ?node) (dn_first_edge ?node + dn_edges ?node))
      = add_mset ?x (mset (dg_out g v))"
    using len same by (simp add: seg_Suc)
  have "ee_target x < dg_number_of_nodes g"
    if "x \<in> set (seg (dg_edge_list ?g) (dn_first_edge ?node) (dn_first_edge ?node + dn_edges ?node))" for x
  proof -
    have "x \<in># add_mset ?x (mset (dg_out g v))"
      using that unfolding out [symmetric] by simp
    then show ?thesis
      using dg_okD(3) [OF ok v] t by auto
  qed
  note rep = dg_ok_replace [OF ok v, of ?g ?node, OF _ _ _ _ _ ballI [OF this]]
  have other: "dg_edge_list ?g ! i = dg_edge_list g ! i \<and> (i < dn_first_edge ?node \<or> dn_first_edge ?node + dn_edges ?node \<le> i)"
    if "w < dg_number_of_nodes g" "w \<noteq> v" "first_of g w \<le> i" "i < past_of g w" for w i
  proof -
    have "es ! i = dg_edge_list g ! i \<and> (i < dn_first_edge node \<or> ?p < i)"
      using hr' that by blast
    then show ?thesis by auto
  qed
  have "dg_ok ?g" "\<forall>w < dg_number_of_nodes g. w \<noteq> v \<longrightarrow> dg_out ?g w = dg_out g w"
    "dg_out ?g v = seg (dg_edge_list ?g) (dn_first_edge ?node) (dn_first_edge ?node + dn_edges ?node)"
    using rep [OF _ _ _ _ other] hr' by auto
  moreover have "dg_EndEdges ?g v = Some (Suc ?p)"
    using dg_okD(1) [OF ok v] by (simp add: dg_EndEdges_def)
  ultimately show ?thesis
    using run out by simp
qed

section \<open>Deletion\<close>

text \<open>Shrinking a segment: the cells behind the new end become free.\<close>

lemma dg_ok_shrink:
  assumes ok: "dg_ok g" and v: "v < dg_number_of_nodes g" and m: "m \<le> dn_edges (dg_node_array g ! v)"
    and g': "dg_number_of_nodes g' = dg_number_of_nodes g"
      "dg_node_array g' = (dg_node_array g)[v := (dg_node_array g ! v)\<lparr>dn_edges := m\<rparr>]"
      "length (dg_edge_list g') = length (dg_edge_list g)"
    and outside: "\<And>i. i < first_of g v \<or> past_of g v \<le> i \<Longrightarrow> dg_edge_list g' ! i = dg_edge_list g ! i"
    and sub: "set (seg (dg_edge_list g') (first_of g v) (first_of g v + m)) \<subseteq> set (dg_out g v)"
  shows "dg_ok g'" and "\<And>w. w < dg_number_of_nodes g \<Longrightarrow> w \<noteq> v \<Longrightarrow> dg_out g' w = dg_out g w"
    and "dg_out g' v = seg (dg_edge_list g') (first_of g v) (first_of g v + m)"
proof -
  let ?node = "(dg_node_array g ! v)\<lparr>dn_edges := m\<rparr>"
  have other: "dg_edge_list g' ! i = dg_edge_list g ! i \<and> (i < dn_first_edge ?node \<or> dn_first_edge ?node + dn_edges ?node \<le> i)"
    if "w < dg_number_of_nodes g" "w \<noteq> v" "first_of g w \<le> i" "i < past_of g w" for w i
    using dg_okD(5) [OF ok that(1) v that(2-4)] outside [of i] m by auto
  have "\<forall>x \<in> set (seg (dg_edge_list g') (dn_first_edge ?node) (dn_first_edge ?node + dn_edges ?node)).
      ee_target x < dg_number_of_nodes g"
    using sub dg_okD(3) [OF ok v] by auto
  note rep = dg_ok_replace [OF ok v g'(1,2) _ _ other this]
  show "dg_ok g'" "\<And>w. w < dg_number_of_nodes g \<Longrightarrow> w \<noteq> v \<Longrightarrow> dg_out g' w = dg_out g w"
    "dg_out g' v = seg (dg_edge_list g') (first_of g v) (first_of g v + m)"
    using rep g'(3) dg_okD(2) [OF ok v] m by auto
qed

lemma DeleteEdge_law:
  assumes ok: "dg_ok g" and v: "v < dg_number_of_nodes g" and e: "first_of g v \<le> e" "e < past_of g v"
    and small: "length (dg_edge_list g) \<le> UINT_MAX"
  shows "\<exists>g'. dg_DeleteEdge v e g = Some g' \<and> dg_ok g'
    \<and> dg_number_of_nodes g' = dg_number_of_nodes g \<and> dg_number_of_edges g' = dg_number_of_edges g - 1
    \<and> mset (dg_out g' v) = mset (dg_out g v) - {#dg_edge_list g ! e#}
    \<and> (\<forall>w < dg_number_of_nodes g. w \<noteq> v \<longrightarrow> dg_out g' w = dg_out g w)"
proof -
  let ?es = "dg_edge_list g" and ?node = "dg_node_array g ! v"
  define z where "z = past_of g v - 1"
  note len = dg_okD(2) [OF ok v]
  have E: "dn_edges ?node \<noteq> 0"
    using e by linarith
  have z: "first_of g v \<le> z" "e \<le> z" "z < length ?es" "past_of g v = Suc z"
    "z = first_of g v + (dn_edges ?node - 1)"
    using e len by (auto simp: z_def)
  let ?es1 = "?es[e := ?es ! z]"
  let ?es2 = "?es1[z := (?es1 ! z)\<lparr>ee_target := UINT_MAX\<rparr>]"
  let ?g = "g\<lparr>dg_edge_list := ?es2, dg_node_array := (dg_node_array g)[v := ?node\<lparr>dn_edges := dn_edges ?node - 1\<rparr>],
      dg_number_of_edges := dg_number_of_edges g - 1\<rparr>"
  have run: "dg_DeleteEdge v e g = Some ?g"
    using dg_okD(1) [OF ok v] E z(2,3) small
    by (simp add: dg_DeleteEdge_def Let_def z_def [symmetric, unfolded One_nat_def] move_edge_in makeDummy_in)
  have "seg ?es2 (first_of g v) z = seg ?es1 (first_of g v) z"
    by (rule seg_cong) auto
  then have mset: "mset (seg ?es2 (first_of g v) z) = mset (dg_out g v) - {#?es ! e#}"
    using mset_seg_replace [OF e(1) z(2,3)] by (simp add: dg_out_def z(4))
  have "set (seg ?es2 (first_of g v) z) \<subseteq> set (dg_out g v)"
    using arg_cong [OF mset, of set_mset] by (auto dest: in_diffD)
  then have sub: "set (seg (dg_edge_list ?g) (first_of g v) (first_of g v + (dn_edges ?node - 1))) \<subseteq> set (dg_out g v)"
    by (simp add: z(5))
  have outside: "dg_edge_list ?g ! i = ?es ! i" if "i < first_of g v \<or> past_of g v \<le> i" for i
    using that e z(1,4) by auto
  have "dg_ok ?g" "\<And>w. w < dg_number_of_nodes g \<Longrightarrow> w \<noteq> v \<Longrightarrow> dg_out ?g w = dg_out g w"
    "dg_out ?g v = seg (dg_edge_list ?g) (first_of g v) (first_of g v + (dn_edges ?node - 1))"
    by (rule dg_ok_shrink [OF ok v _ _ _ _ outside sub]; simp)+
  with run mset show ?thesis
    by (simp add: z(5))
qed

text \<open>
  The loops of \<^verbatim>\<open>DeleteEdgesTo\<close>, seen on the part \<open>[i, past)\<close> of the segment that is
  not yet clean, where \<open>past = iend - deleted\<close>.
\<close>

definition keeps :: "NodeID \<Rightarrow> 'd edge_entry list \<Rightarrow> nat \<Rightarrow> nat \<Rightarrow> 'd edge_entry list \<Rightarrow> nat \<Rightarrow> bool" where
  "keeps t es i past es' past' \<longleftrightarrow>
     past' \<le> past \<and> length es' = length es
     \<and> (\<forall>k. k < i \<or> past \<le> k \<longrightarrow> es' ! k = es ! k)
     \<and> filter_mset (\<lambda>x. ee_target x \<noteq> t) (mset (seg es' i past')) = filter_mset (\<lambda>x. ee_target x \<noteq> t) (mset (seg es i past))"

lemma keeps_trans:
  "keeps t es i past es1 past1 \<Longrightarrow> keeps t es1 i past1 es2 past2 \<Longrightarrow> keeps t es i past es2 past2"
  unfolding keeps_def by auto

lemma delete_run_correct:
  assumes "i < iend - deleted" and "iend \<le> length es" and "ee_target (es ! i) = t"
  shows "\<exists>deleted' es'. delete_run t i iend deleted es = Some (deleted', es')
    \<and> deleted < deleted' \<and> deleted' \<le> iend - i \<and> keeps t es i (iend - deleted) es' (iend - deleted')
    \<and> (i < iend - deleted' \<longrightarrow> ee_target (es' ! i) \<noteq> t)"
  using assms
proof (induction "iend - deleted" arbitrary: deleted es rule: less_induct)
  case less
  let ?z = "iend - (deleted + 1)"
  let ?es1 = "es[i := es ! ?z]"
  let ?es2 = "?es1[?z := (?es1 ! ?z)\<lparr>ee_target := UINT_MAX\<rparr>]"
  have z: "?z < length es" "i \<le> ?z" "Suc ?z = iend - deleted"
    using less.prems by auto
  have mset: "mset (seg ?es2 i ?z) = mset (seg es i (iend - deleted)) - {#es ! i#}"
  proof -
    have "seg ?es2 i ?z = seg ?es1 i ?z"
      by (rule seg_cong) auto
    then show ?thesis
      using mset_seg_replace [OF order.refl z(2,1)] z(3) by simp
  qed
  have in_seg: "es ! i \<in># mset (seg es i (iend - deleted))"
    using less.prems(1) by (auto simp: set_seg)
  have "keeps t es i (iend - deleted) ?es2 ?z"
    unfolding keeps_def mset using z less.prems(1,3) in_seg
    by (auto simp: nth_list_update filter_diff_mset)
  note keep = keeps_trans [OF this]
  have step: "delete_run t i iend deleted es =
      (if i < ?z \<and> ee_target (?es2 ! i) = t then delete_run t i iend (deleted + 1) ?es2 else Some (deleted + 1, ?es2))"
    using less.prems z(1) by (subst delete_run.simps) (auto simp: move_edge_in makeDummy_in Let_def)
  show ?case
  proof (cases "i < ?z \<and> ee_target (?es2 ! i) = t")
    case True
    have h: "?z < iend - deleted" "iend \<le> length ?es2"
      using less.prems by auto
    obtain deleted' es' where "delete_run t i iend (deleted + 1) ?es2 = Some (deleted', es')"
      "deleted + 1 < deleted'" "deleted' \<le> iend - i" "keeps t ?es2 i ?z es' (iend - deleted')"
      "i < iend - deleted' \<longrightarrow> ee_target (es' ! i) \<noteq> t"
      using less.hyps [OF h(1) _ h(2)] True by blast
    with True step keep show ?thesis by auto
  next
    case False
    with step less.prems keep \<open>keeps t es i (iend - deleted) ?es2 ?z\<close> show ?thesis by auto
  qed
qed

lemma delete_loop_correct:
  assumes "deleted \<le> iend - i" and "iend \<le> length es"
  shows "\<exists>deleted' es'. delete_loop t i iend deleted es = Some (deleted', es')
    \<and> deleted \<le> deleted' \<and> deleted' \<le> iend - i \<and> keeps t es i (iend - deleted) es' (iend - deleted')
    \<and> (\<forall>x \<in> set (seg es' i (iend - deleted')). ee_target x \<noteq> t)"
  using assms
proof (induction "iend - i" arbitrary: i deleted es rule: less_induct)
  case less
  show ?case
  proof (cases "i < iend - deleted")
    case False
    then show ?thesis
      using less.prems by (subst delete_loop.simps) (auto simp: keeps_def)
  next
    case True
    have i: "i < length es"
      using True less.prems by linarith
    obtain d1 es1 where body: "(if ee_target (es ! i) = t then delete_run t i iend deleted es else Some (deleted, es)) = Some (d1, es1)"
      and d1: "deleted \<le> d1" "d1 \<le> iend - i" and k1: "keeps t es i (iend - deleted) es1 (iend - d1)"
      and clean: "i < iend - d1 \<longrightarrow> ee_target (es1 ! i) \<noteq> t"
    proof (cases "ee_target (es ! i) = t")
      case True
      with delete_run_correct [OF \<open>i < iend - deleted\<close> less.prems(2)] that show thesis
        by (metis less_imp_le)
    next
      case False
      with less.prems that [of deleted es] show thesis by (auto simp: keeps_def)
    qed
    have step: "delete_loop t i iend deleted es = delete_loop t (i + 1) iend d1 es1"
      using True i body by (subst delete_loop.simps) auto
    show ?thesis
    proof (cases "i < iend - d1")
      case False
      then have "delete_loop t (i + 1) iend d1 es1 = Some (d1, es1)"
        by (subst delete_loop.simps) auto
      with step d1 k1 False show ?thesis by auto
    next
      case more: True
      have len1: "length es1 = length es"
        using k1 by (simp add: keeps_def)
      have h: "iend - (i + 1) < iend - i" "d1 \<le> iend - (i + 1)" "iend \<le> length es1"
        using more less.prems(2) len1 by auto
      obtain d2 es2 where rest: "delete_loop t (i + 1) iend d1 es1 = Some (d2, es2)"
        and d2: "d1 \<le> d2" "d2 \<le> iend - (i + 1)" and k2: "keeps t es1 (i + 1) (iend - d1) es2 (iend - d2)"
        and clean2: "\<forall>x \<in> set (seg es2 (i + 1) (iend - d2)). ee_target x \<noteq> t"
        using less.hyps [OF h] by blast
      have at_i: "es2 ! i = es1 ! i"
        using k2 by (simp add: keeps_def)
      have segs: "seg es2 i (iend - d2) = es1 ! i # seg es2 (i + 1) (iend - d2)"
        "seg es1 i (iend - d1) = es1 ! i # seg es1 (i + 1) (iend - d1)"
        using more d2 at_i by (simp_all add: seg_Cons)
      have "keeps t es1 i (iend - d1) es2 (iend - d2)"
        using k2 at_i unfolding keeps_def segs by auto
      with k1 have "keeps t es i (iend - deleted) es2 (iend - d2)"
        by (rule keeps_trans)
      with step rest d1 d2 clean clean2 segs(1) more show ?thesis by auto
    qed
  qed
qed

lemma DeleteEdgesTo_law:
  assumes ok: "dg_ok g" and v: "v < dg_number_of_nodes g"
  shows "\<exists>g'. dg_DeleteEdgesTo v t g = Some (length (filter (\<lambda>x. ee_target x = t) (dg_out g v)), g') \<and> dg_ok g'
    \<and> dg_number_of_nodes g' = dg_number_of_nodes g
    \<and> mset (dg_out g' v) = filter_mset (\<lambda>x. ee_target x \<noteq> t) (mset (dg_out g v))
    \<and> (\<forall>w < dg_number_of_nodes g. w \<noteq> v \<longrightarrow> dg_out g' w = dg_out g w)"
proof -
  let ?es = "dg_edge_list g" and ?node = "dg_node_array g ! v"
  note len = dg_okD(2) [OF ok v] and vn = dg_okD(1) [OF ok v]
  obtain d es where loop: "delete_loop t (first_of g v) (past_of g v) 0 ?es = Some (d, es)"
    and d: "d \<le> dn_edges ?node" and k: "keeps t ?es (first_of g v) (past_of g v) es (past_of g v - d)"
    and clean: "\<forall>x \<in> set (seg es (first_of g v) (past_of g v - d)). ee_target x \<noteq> t"
    using delete_loop_correct [of 0 "past_of g v" "first_of g v" ?es t] len by auto
  have past: "past_of g v - d = first_of g v + (dn_edges ?node - d)"
    using d by simp
  let ?g = "g\<lparr>dg_edge_list := es, dg_node_array := (dg_node_array g)[v := ?node\<lparr>dn_edges := dn_edges ?node - d\<rparr>],
      dg_number_of_edges := dg_number_of_edges g - d\<rparr>"
  have run: "dg_DeleteEdgesTo v t g = Some (d, ?g)"
    using vn loop by (simp add: dg_DeleteEdgesTo_def dg_BeginEdges_def dg_EndEdges_def)
  have "filter_mset (\<lambda>x. ee_target x \<noteq> t) (mset (seg es (first_of g v) (past_of g v - d)))
      = mset (seg es (first_of g v) (past_of g v - d))"
    using clean by (simp add: filter_mset_eq_conv)
  then have mset: "mset (seg es (first_of g v) (past_of g v - d)) = filter_mset (\<lambda>x. ee_target x \<noteq> t) (mset (dg_out g v))"
    using k by (simp add: keeps_def dg_out_def)
  have "set (seg es (first_of g v) (past_of g v - d)) \<subseteq> set (dg_out g v)"
    using arg_cong [OF mset, of set_mset] by auto
  then have g: "dg_ok ?g" "\<And>w. w < dg_number_of_nodes g \<Longrightarrow> w \<noteq> v \<Longrightarrow> dg_out ?g w = dg_out g w"
    "dg_out ?g v = seg es (first_of g v) (past_of g v - d)"
    using dg_ok_shrink [OF ok v, of "dn_edges ?node - d" ?g] k past by (auto simp: keeps_def)
  have "dn_edges ?node - d = length (filter (\<lambda>x. ee_target x \<noteq> t) (dg_out g v))"
    using arg_cong [OF mset, of size] d by (simp flip: mset_filter)
  moreover have "length (filter (\<lambda>x. ee_target x = t) (dg_out g v))
      + length (filter (\<lambda>x. ee_target x \<noteq> t) (dg_out g v)) = dn_edges ?node"
    using sum_length_filter_compl [of "\<lambda>x. ee_target x = t" "dg_out g v"] by (simp add: dg_out_def)
  ultimately have "d = length (filter (\<lambda>x. ee_target x = t) (dg_out g v))"
    using d by linarith
  with run g mset show ?thesis by auto
qed

section \<open>Construction\<close>

lemma dg_input_sorted: "is_sorted dg_input_edge_less graph \<Longrightarrow> sorted (map ie_source graph)"
  by (erule is_sorted_imp_sorted) (auto simp: dg_input_edge_less_def not_less)

lemma dg_offsets:
  assumes "sorted (map ie_source graph)"
  shows "\<exists>na. foldM (dg_offsets_step graph) [0..<n] (replicate (n + 1) x, 0, 0)
      = Some (na, edges_before graph n, edges_before graph n)
    \<and> length na = n + 1 \<and> (\<forall>v < n. na ! v = \<lparr>dn_first_edge = edges_before graph v,
        dn_edges = edges_before graph (Suc v) - edges_before graph v\<rparr>)"
proof -
  let ?I = "\<lambda>i (na, edge, position). length na = n + 1 \<and> edge = edges_before graph i \<and> position = edge
    \<and> (\<forall>v < i. na ! v = \<lparr>dn_first_edge = edges_before graph v,
        dn_edges = edges_before graph (Suc v) - edges_before graph v\<rparr>)"
  have "\<exists>s. foldM (dg_offsets_step graph) [0..<n] (replicate (n + 1) x, 0, 0) = Some s \<and> ?I n s"
  proof (rule foldM_upt_invariant [where I = ?I])
    fix i s
    assume "i < n" and "?I i s"
    then show "\<exists>s'. dg_offsets_step graph i s = Some s' \<and> ?I (Suc i) s'"
      using skip_edges_correct [OF assms, of i "edges_before graph i"] edges_before_Suc [of graph i]
      by (auto simp: dg_offsets_step_def Let_def nth_list_update less_Suc_eq)
  qed auto
  then show ?thesis by auto
qed

lemma dg_copy_edges:
  assumes "a \<le> b" and "b \<le> length graph" and "b \<le> length xs" and "\<forall>i < a. xs ! i = to_entry (graph ! i)"
    and "\<forall>e \<in> set graph. ie_target e < n"
  shows "\<exists>xs'. foldM (dg_copy_edge graph n) [a..<b] (xs, a) = Some (xs', b) \<and> length xs' = length xs
    \<and> (\<forall>i < b. xs' ! i = to_entry (graph ! i))"
proof -
  have "\<exists>s. foldM (dg_copy_edge graph n) [a..<b] (xs, a) = Some s
    \<and> (\<lambda>i (ys, j). j = i \<and> length ys = length xs \<and> (\<forall>k < i. ys ! k = to_entry (graph ! k))) b s"
    by (rule foldM_upt_invariant)
       (use assms in \<open>auto simp: dg_copy_edge_def to_entry_def nth_list_update less_Suc_eq\<close>)
  then show ?thesis by auto
qed

lemma dg_fill:
  assumes "n < length na" and "\<forall>v < n. na ! v = \<lparr>dn_first_edge = edges_before graph v,
        dn_edges = edges_before graph (Suc v) - edges_before graph v\<rparr>"
    and "edges_before graph n \<le> length xs" and "\<forall>e \<in> set graph. ie_target e < m"
  shows "\<exists>xs'. foldM (dg_fill_step graph m na) [0..<n] (xs, 0) = Some (xs', edges_before graph n)
    \<and> length xs' = length xs \<and> (\<forall>i < edges_before graph n. xs' ! i = to_entry (graph ! i))"
proof -
  let ?I = "\<lambda>i (ys, j). j = edges_before graph i \<and> length ys = length xs
    \<and> (\<forall>k < edges_before graph i. ys ! k = to_entry (graph ! k))"
  have mono: "edges_before graph i \<le> edges_before graph n" if "i \<le> n" for i
    by (rule lift_Suc_mono_le [of "edges_before graph", OF edges_before_Suc that])
  have "\<exists>s. foldM (dg_fill_step graph m na) [0..<n] (xs, 0) = Some s \<and> ?I n s"
  proof (rule foldM_upt_invariant)
    fix i s
    assume i: "i < n" and "?I i s"
    then obtain ys where s: "s = (ys, edges_before graph i)" "length ys = length xs"
      "\<forall>k < edges_before graph i. ys ! k = to_entry (graph ! k)"
      by auto
    have "edges_before graph (Suc i) \<le> length ys"
      using s(2) mono [of "Suc i"] assms(3) i by simp
    from dg_copy_edges [OF edges_before_Suc edges_before_le this s(3) assms(4)] s assms(1,2) i edges_before_Suc [of graph i]
    show "\<exists>s'. dg_fill_step graph m na i s = Some s' \<and> ?I (Suc i) s'"
      by (auto simp: dg_fill_step_def)
  qed auto
  then show ?thesis by auto
qed

lemma DynamicGraph_law:
  assumes sorted: "is_sorted dg_input_edge_less graph" and n: "n \<le> UINT_MAX"
    and range: "\<forall>e \<in> set graph. ie_source e < n \<and> ie_target e < n"
  shows "\<exists>g. DynamicGraph entry n graph = Some g \<and> dg_ok g \<and> dg_number_of_nodes g = n
    \<and> dg_number_of_edges g = length graph
    \<and> (\<forall>v < n. dg_out g v = map to_entry (filter (\<lambda>e. ie_source e = v) graph))"
proof -
  note src = dg_input_sorted [OF sorted]
  let ?eb = "edges_before graph"
  have all: "?eb n = length graph"
    using range by (simp add: edges_before_def)
  obtain na where na: "foldM (dg_offsets_step graph) [0..<n] (replicate (n + 1) \<lparr>dn_first_edge = 0, dn_edges = 0\<rparr>, 0, 0)
      = Some (na, ?eb n, ?eb n)" "length na = n + 1"
      "\<forall>v < n. na ! v = \<lparr>dn_first_edge = ?eb v, dn_edges = ?eb (Suc v) - ?eb v\<rparr>"
    using dg_offsets [OF src] by blast
  let ?na = "na[n := (na ! n)\<lparr>dn_first_edge := ?eb n\<rparr>]"
  have na': "n < length ?na" "\<forall>v < n. ?na ! v = \<lparr>dn_first_edge = ?eb v, dn_edges = ?eb (Suc v) - ?eb v\<rparr>"
    using na(2,3) by auto
  obtain xs where xs: "foldM (dg_fill_step graph n ?na) [0..<n] (replicate (?eb n) entry, 0) = Some (xs, ?eb n)"
    "length xs = ?eb n" "\<forall>i < ?eb n. xs ! i = to_entry (graph ! i)"
    using dg_fill [OF na', of "replicate (?eb n) entry" n] range by auto
  let ?g = "\<lparr>dg_number_of_nodes = n, dg_number_of_edges = length graph, dg_node_array = ?na, dg_edge_list = xs\<rparr>"
  have run: "DynamicGraph entry n graph = Some ?g"
    using sorted na(1,2) xs(1) by (simp add: DynamicGraph_def)
  have seg: "first_of ?g v = ?eb v" "past_of ?g v = ?eb (Suc v)" if "v < n" for v
    using na'(2) that edges_before_Suc [of graph v] by simp_all
  have mono: "?eb i \<le> ?eb j" if "i \<le> j" for i j
    by (rule lift_Suc_mono_le [of ?eb, OF edges_before_Suc that])
  have out: "dg_out ?g v = map to_entry (filter (\<lambda>e. ie_source e = v) graph)" if v: "v < n" for v
  proof -
    have "dg_out ?g v = map (to_entry \<circ> (!) graph) [?eb v..<?eb (Suc v)]"
      unfolding dg_out_def seg(2) [OF v] unfolding seg(1) [OF v] seg_def using xs(3) mono [of "Suc v" n] v by simp
    then show ?thesis
      using edges_of_node [OF src, of v] by (simp flip: map_map)
  qed
  have disj: "{first_of ?g v..<past_of ?g v} \<inter> {first_of ?g w..<past_of ?g w} = {}"
    if "v < n" "w < n" "v \<noteq> w" for v w
    using mono [of "Suc v" w] mono [of "Suc w" v] that
    unfolding seg(2) [OF that(1)] seg(2) [OF that(2)] unfolding seg(1) [OF that(1)] seg(1) [OF that(2)]
    by (cases "v < w") auto
  have "dg_ok ?g"
    unfolding dg_ok_def
  proof (intro conjI allI impI ballI)
    show "past_of ?g v \<le> length (dg_edge_list ?g)" if "v < dg_number_of_nodes ?g" for v
      using that seg mono [of "Suc v" n] xs(2) by simp
    show "ee_target x < dg_number_of_nodes ?g" if "v < dg_number_of_nodes ?g" "x \<in> set (dg_out ?g v)" for v x
      using that range out [of v] by (auto simp: to_entry_def)
  qed (use disj na n in auto)
  with run out show ?thesis by simp
qed

section \<open>Properties\<close>

definition sample_graph :: "int dynamic_graph" where
  "sample_graph = \<lparr>dg_number_of_nodes = 2, dg_number_of_edges = 2,
     dg_node_array = [\<lparr>dn_first_edge = 0, dn_edges = 1\<rparr>, \<lparr>dn_first_edge = 1, dn_edges = 1\<rparr>, \<lparr>dn_first_edge = 2, dn_edges = 0\<rparr>],
     dg_edge_list = [\<lparr>ee_target = 1, ee_data = 5\<rparr>, \<lparr>ee_target = 0, ee_data = 7\<rparr>]\<rparr>"

lemma sample_graph_ok: "dg_ok sample_graph"
  by (auto simp: sample_graph_def dg_ok_def dg_out_def seg_def UINT_MAX_def less_Suc_eq numeral_2_eq_2)

text \<open>
  C9: on a sorted list of edges between its nodes the constructor of \<^verbatim>\<open>DynamicGraph\<close>
  succeeds, and the segment of every node holds exactly the input edges that start there.
\<close>

theorem DynamicGraph_correct:
  assumes "is_sorted dg_input_edge_less graph" and "n \<le> UINT_MAX"
    and "\<forall>e \<in> set graph. ie_source e < n \<and> ie_target e < n"
  shows "\<exists>g. DynamicGraph entry n graph = Some g \<and> dg_ok g \<and> dg_number_of_nodes g = n
    \<and> dg_number_of_edges g = length graph
    \<and> (\<forall>v < n. dg_out g v = map to_entry (filter (\<lambda>e. ie_source e = v) graph))"
  using assms by (rule DynamicGraph_law)

theorem DynamicGraph_correct_witness:
  "\<exists>g. DynamicGraph \<lparr>ee_target = 0, ee_data = 0 :: int\<rparr> 2 [\<lparr>ie_source = 0, ie_target = 1, ie_data = 5\<rparr>] = Some g \<and> dg_ok g"
  using DynamicGraph_correct [of "[\<lparr>ie_source = 0, ie_target = 1, ie_data = 5\<rparr>]" 2 "\<lparr>ee_target = 0, ee_data = 0\<rparr>"]
  by (auto simp: UINT_MAX_def)

text \<open>
  C10: \<^verbatim>\<open>InsertEdge\<close> always succeeds between nodes of the graph, wherever the room for
  the edge comes from: the edge is added to the edges of its source, the edges of every
  other node stay in place, and the segments stay disjoint. The returned position is the
  end of the source's edge range.
\<close>

theorem InsertEdge_correct:
  assumes "dg_ok g" and "v < dg_number_of_nodes g" and "t < dg_number_of_nodes g"
  shows "\<exists>e g'. dg_InsertEdge entry v t d g = Some (e, g') \<and> dg_ok g'
    \<and> dg_number_of_nodes g' = dg_number_of_nodes g \<and> dg_number_of_edges g' = dg_number_of_edges g + 1
    \<and> mset (dg_out g' v) = add_mset \<lparr>ee_target = t, ee_data = d\<rparr> (mset (dg_out g v))
    \<and> (\<forall>w < dg_number_of_nodes g. w \<noteq> v \<longrightarrow> dg_out g' w = dg_out g w)
    \<and> dg_EndEdges g' v = Some e"
  using assms by (rule InsertEdge_law)

theorem InsertEdge_correct_witness:
  "\<exists>e g'. dg_InsertEdge \<lparr>ee_target = 0, ee_data = 0\<rparr> 0 0 9 sample_graph = Some (e, g') \<and> dg_ok g'"
  using InsertEdge_correct [OF sample_graph_ok, of 0 0 "\<lparr>ee_target = 0, ee_data = 0\<rparr>" 9]
  by (auto simp: sample_graph_def)

text \<open>
  C11: \<^verbatim>\<open>DeleteEdge\<close> of an edge in the range of its source removes this edge and no
  other, as long as positions fit into 32 bits.
\<close>

theorem DeleteEdge_correct:
  assumes "dg_ok g" and "v < dg_number_of_nodes g" and "length (dg_edge_list g) \<le> UINT_MAX"
    and "dg_GetAdjacentEdgeRange g v = Some r" and "e \<in> set r"
  shows "\<exists>g'. dg_DeleteEdge v e g = Some g' \<and> dg_ok g'
    \<and> dg_number_of_nodes g' = dg_number_of_nodes g \<and> dg_number_of_edges g' = dg_number_of_edges g - 1
    \<and> mset (dg_out g' v) = mset (dg_out g v) - {#dg_edge_list g ! e#}
    \<and> (\<forall>w < dg_number_of_nodes g. w \<noteq> v \<longrightarrow> dg_out g' w = dg_out g w)"
proof -
  have "first_of g v \<le> e" "e < past_of g v"
    using assms(4,5) dg_okD(1) [OF assms(1,2)]
    by (auto simp: dg_GetAdjacentEdgeRange_def dg_BeginEdges_def dg_EndEdges_def)
  from DeleteEdge_law [OF assms(1,2) this assms(3)] show ?thesis .
qed

theorem DeleteEdge_correct_witness:
  "\<exists>g'. dg_DeleteEdge 1 1 sample_graph = Some g' \<and> dg_ok g'"
  using DeleteEdge_correct [OF sample_graph_ok, of 1 "[1]" 1]
  by (auto simp: sample_graph_def UINT_MAX_def dg_GetAdjacentEdgeRange_def dg_BeginEdges_def dg_EndEdges_def)

text \<open>
  C12: \<^verbatim>\<open>DeleteEdgesTo\<close> ends, removes exactly the edges to the given target (parallel
  edges included) and returns how many there were.
\<close>

theorem DeleteEdgesTo_correct:
  assumes "dg_ok g" and "v < dg_number_of_nodes g"
  shows "\<exists>g'. dg_DeleteEdgesTo v t g = Some (length (filter (\<lambda>x. ee_target x = t) (dg_out g v)), g') \<and> dg_ok g'
    \<and> dg_number_of_nodes g' = dg_number_of_nodes g
    \<and> mset (dg_out g' v) = filter_mset (\<lambda>x. ee_target x \<noteq> t) (mset (dg_out g v))
    \<and> (\<forall>w < dg_number_of_nodes g. w \<noteq> v \<longrightarrow> dg_out g' w = dg_out g w)"
  using assms by (rule DeleteEdgesTo_law)

theorem DeleteEdgesTo_correct_witness:
  "\<exists>n g'. dg_DeleteEdgesTo 0 1 sample_graph = Some (n, g') \<and> dg_ok g'"
  using DeleteEdgesTo_correct [OF sample_graph_ok, of 0 1] by (auto simp: sample_graph_def)

end
