(* ===== verification/Index_Storage.thy ===== *)
theory Index_Storage
  imports Osrm_Prelude
begin

text \<open>
  The index storages of \<^verbatim>\<open>data_structures/binary_heap.hpp\<close> and
  \<^verbatim>\<open>data_structures/xor_fast_hash_storage.hpp\<close>: the containers that a
  \<^verbatim>\<open>BinaryHeap\<close> uses to find the position of a node among its inserted nodes.
  A storage is given to the heap as a template argument; here it is a record of its
  operations. The locale \<open>index_storage\<close> is the contract the heap relies on, and every
  storage class of the program is shown to meet it.
\<close>

section \<open>The operations of a storage class\<close>

text \<open>
  \<open>st_ref\<close> is \<^verbatim>\<open>operator[]\<close> as a lookup that may allocate the cell of a node,
  \<open>st_assign\<close> is \<^verbatim>\<open>storage[node] = key\<close>, \<open>st_peek\<close> is \<^verbatim>\<open>peek_index\<close> and
  \<open>st_clear\<close> is \<^verbatim>\<open>Clear\<close>; \<open>st_new\<close> is the constructor.
\<close>

record 's storage_ops =
  st_new :: "nat \<Rightarrow> 's"
  st_ref :: "'s \<Rightarrow> NodeID \<Rightarrow> 's option"
  st_assign :: "'s \<Rightarrow> NodeID \<Rightarrow> nat \<Rightarrow> 's option"
  st_peek :: "'s \<Rightarrow> NodeID \<Rightarrow> nat option"
  st_clear :: "'s \<Rightarrow> 's"

text \<open>
  The contract. \<open>st_ok s U\<close>: the storage is well formed and the nodes assigned since
  the last \<^verbatim>\<open>Clear\<close> are exactly \<open>U\<close>. \<open>st_limit U\<close>: the storage has room
  for the nodes \<open>U\<close>. \<open>st_clears s k\<close>: \<^verbatim>\<open>Clear\<close> may be called \<open>k\<close> more times.
  What \<^verbatim>\<open>peek_index\<close> returns for a node outside \<open>U\<close> is left open on purpose: the
  classes differ there, and the heap checks the answer against its own records.
\<close>

locale index_storage =
  fixes ops :: "'s storage_ops"
    and st_ok :: "'s \<Rightarrow> NodeID set \<Rightarrow> bool"
    and st_limit :: "NodeID set \<Rightarrow> bool"
    and st_clears :: "'s \<Rightarrow> nat \<Rightarrow> bool"
  assumes assign: "\<lbrakk>st_ok s U; st_limit (insert n U)\<rbrakk> \<Longrightarrow>
      \<exists>s'. st_assign ops s n k = Some s' \<and> st_ok s' (insert n U)
        \<and> st_peek ops s' n = Some k
        \<and> (\<forall>m \<in> U. m \<noteq> n \<longrightarrow> st_peek ops s' m = st_peek ops s m)
        \<and> (\<forall>c. st_clears s c \<longrightarrow> st_clears s' c)"
    and peek_defined: "\<lbrakk>st_ok s U; st_limit (insert n U)\<rbrakk> \<Longrightarrow> st_peek ops s n \<noteq> None"
    and ref_assigned: "\<lbrakk>st_ok s U; n \<in> U\<rbrakk> \<Longrightarrow> st_ref ops s n = Some s"
    and clear: "\<lbrakk>st_ok s U; st_clears s (Suc c)\<rbrakk> \<Longrightarrow>
      st_ok (st_clear ops s) {} \<and> st_clears (st_clear ops s) c"
    and limit_mono: "\<lbrakk>st_limit U; V \<subseteq> U\<rbrakk> \<Longrightarrow> st_limit V"

section \<open>ArrayStorage\<close>

definition ArrayStorage :: "nat list storage_ops" where
  "ArrayStorage = \<lparr>
     st_new = (\<lambda>sz. replicate sz 0),
     st_ref = (\<lambda>positions node. nth_opt positions node \<bind> (\<lambda>_. Some positions)),
     st_assign = (\<lambda>positions node key. upd_opt positions node key),
     st_peek = (\<lambda>positions node. nth_opt positions node),
     st_clear = (\<lambda>positions. positions)\<rparr>"

text \<open>\<^verbatim>\<open>Clear\<close> keeps the old positions; nothing is promised about them.\<close>

definition array_ok :: "nat \<Rightarrow> nat list \<Rightarrow> nat set \<Rightarrow> bool" where
  "array_ok sz positions U \<longleftrightarrow> length positions = sz \<and> U \<subseteq> {..<sz}"

interpretation array: index_storage ArrayStorage "array_ok sz" "\<lambda>U. U \<subseteq> {..<sz}" "\<lambda>_ _. True"
  by unfold_locales (auto simp: ArrayStorage_def array_ok_def)

section \<open>MapStorage and UnorderedMapStorage\<close>

text \<open>
  Both keep a map from nodes to keys. \<^verbatim>\<open>operator[]\<close> value-initialises a missing entry,
  and \<^verbatim>\<open>peek_index\<close> answers the largest key for a missing one. The \<^verbatim>\<open>size_t\<close>
  argument of the constructors is ignored; \<^verbatim>\<open>nodes.rehash(1000)\<close> only sizes the
  hash table.
\<close>

definition MapStorage :: "nat \<Rightarrow> (NodeID \<rightharpoonup> nat) storage_ops" where
  "MapStorage key_max = \<lparr>
     st_new = (\<lambda>_. Map.empty),
     st_ref = (\<lambda>nodes node. Some (case nodes node of None \<Rightarrow> nodes(node \<mapsto> 0) | Some _ \<Rightarrow> nodes)),
     st_assign = (\<lambda>nodes node key. Some (nodes(node \<mapsto> key))),
     st_peek = (\<lambda>nodes node. Some (case nodes node of Some key \<Rightarrow> key | None \<Rightarrow> key_max)),
     st_clear = (\<lambda>_. Map.empty)\<rparr>"

definition UnorderedMapStorage :: "nat \<Rightarrow> (NodeID \<rightharpoonup> nat) storage_ops" where
  "UnorderedMapStorage key_max = \<lparr>
     st_new = (\<lambda>_. Map.empty),
     st_ref = (\<lambda>nodes node. Some (case nodes node of None \<Rightarrow> nodes(node \<mapsto> 0) | Some _ \<Rightarrow> nodes)),
     st_assign = (\<lambda>nodes node key. Some (nodes(node \<mapsto> key))),
     st_peek = (\<lambda>nodes node. Some (case nodes node of Some key \<Rightarrow> key | None \<Rightarrow> key_max)),
     st_clear = (\<lambda>_. Map.empty)\<rparr>"

definition map_ok :: "(NodeID \<rightharpoonup> nat) \<Rightarrow> NodeID set \<Rightarrow> bool" where
  "map_ok nodes U \<longleftrightarrow> U \<subseteq> dom nodes"

interpretation map_st: index_storage "MapStorage key_max" map_ok "\<lambda>_. True" "\<lambda>_ _. True"
  by unfold_locales (auto simp: MapStorage_def map_ok_def split: option.splits)

interpretation umap: index_storage "UnorderedMapStorage key_max" map_ok "\<lambda>_. True" "\<lambda>_ _. True"
  by unfold_locales (auto simp: UnorderedMapStorage_def map_ok_def split: option.splits)

end
