(* ===== verification/Binary_Heap.thy ===== *)
theory Binary_Heap
  imports Index_Storage
begin

text \<open>
  \<^verbatim>\<open>class BinaryHeap\<close> of \<^verbatim>\<open>data_structures/binary_heap.hpp\<close>: an addressable
  binary min-heap. The vector \<^verbatim>\<open>heap\<close> is the heap proper, with a sentinel at position 0;
  the vector \<^verbatim>\<open>inserted_nodes\<close> remembers every node inserted since the last
  \<^verbatim>\<open>Clear\<close>, also the removed ones; the storage \<^verbatim>\<open>node_index\<close> finds the record of a
  node. The three point at each other, and every operation keeps the pointers right.

  Seen from outside, a heap is a map from the inserted nodes to their weights and data,
  together with the set of nodes still queued. The laws of the last section describe the
  operations in these terms and are all that the search algorithms use.
\<close>

section \<open>Data\<close>

record 'd heap_node =
  hn_node :: NodeID
  hn_key :: nat
  hn_weight :: int
  hn_data :: 'd

record heap_element =
  he_index :: nat
  he_weight :: int

record ('d, 's) binary_heap =
  inserted_nodes :: "'d heap_node list"
  heap :: "heap_element list"
  node_index :: 's

section \<open>Sifting\<close>

definition set_key :: "'d heap_node list \<Rightarrow> nat \<Rightarrow> nat \<Rightarrow> 'd heap_node list option" where
  "set_key ins i k = do { x \<leftarrow> nth_opt ins i; upd_opt ins i (x\<lparr>hn_key := k\<rparr>) }"

function downheap_loop ::
  "int \<Rightarrow> nat \<Rightarrow> nat \<Rightarrow> heap_element list \<Rightarrow> 'd heap_node list
   \<Rightarrow> (nat \<times> heap_element list \<times> 'd heap_node list) option" where
  "downheap_loop weight key nextKey hp ins =
     (if nextKey < length hp then
        let nextKeyOther = nextKey + 1;
            nextKey = (if nextKeyOther < length hp \<and> he_weight (hp ! nextKey) > he_weight (hp ! nextKeyOther)
                       then nextKeyOther else nextKey)
        in if weight \<le> he_weight (hp ! nextKey) then Some (key, hp, ins)
           else if nextKey = 0 then None
           else do {
             hp \<leftarrow> upd_opt hp key (hp ! nextKey);
             ins \<leftarrow> set_key ins (he_index (hp ! key)) key;
             downheap_loop weight nextKey (nextKey * 2) hp ins
           }
      else Some (key, hp, ins))"
  by pat_completeness auto
termination
  by (relation "measure (\<lambda>(weight, key, nextKey, hp, ins). length hp - nextKey)")
     (auto simp: upd_opt_Some_iff split: if_splits)

fun upheap_loop ::
  "int \<Rightarrow> nat \<Rightarrow> nat \<Rightarrow> heap_element list \<Rightarrow> 'd heap_node list
   \<Rightarrow> (nat \<times> heap_element list \<times> 'd heap_node list) option" where
  "upheap_loop weight key nextKey hp ins = do {
     next \<leftarrow> nth_opt hp nextKey;
     (if he_weight next > weight then
        if nextKey = 0 then None
        else do {
          hp \<leftarrow> upd_opt hp key next;
          ins \<leftarrow> set_key ins (he_index next) key;
          upheap_loop weight nextKey (nextKey div 2) hp ins
        }
      else Some (key, hp, ins))
   }"

declare upheap_loop.simps [simp del] downheap_loop.simps [simp del]

definition Downheap :: "nat \<Rightarrow> ('d, 's) binary_heap \<Rightarrow> ('d, 's) binary_heap option" where
  "Downheap key h = do {
     e \<leftarrow> nth_opt (heap h) key;
     (key, hp, ins) \<leftarrow> downheap_loop (he_weight e) key (key * 2) (heap h) (inserted_nodes h);
     hp \<leftarrow> upd_opt hp key \<lparr>he_index = he_index e, he_weight = he_weight e\<rparr>;
     ins \<leftarrow> set_key ins (he_index e) key;
     Some (h\<lparr>heap := hp, inserted_nodes := ins\<rparr>)
   }"

definition Upheap :: "nat \<Rightarrow> ('d, 's) binary_heap \<Rightarrow> ('d, 's) binary_heap option" where
  "Upheap key h = do {
     e \<leftarrow> nth_opt (heap h) key;
     (key, hp, ins) \<leftarrow> upheap_loop (he_weight e) key (key div 2) (heap h) (inserted_nodes h);
     hp \<leftarrow> upd_opt hp key \<lparr>he_index = he_index e, he_weight = he_weight e\<rparr>;
     ins \<leftarrow> set_key ins (he_index e) key;
     Some (h\<lparr>heap := hp, inserted_nodes := ins\<rparr>)
   }"

text \<open>The consistency check of debug builds.\<close>

definition CheckHeap :: "('d, 's) binary_heap \<Rightarrow> unit option" where
  "CheckHeap h =
     assert_opt (\<forall>i \<in> set [2..<length (heap h)].
       he_weight (heap h ! i) \<ge> he_weight (heap h ! (i div 2)))"

section \<open>The operations\<close>

definition Clear :: "'s storage_ops \<Rightarrow> ('d, 's) binary_heap \<Rightarrow> ('d, 's) binary_heap" where
  "Clear ops h = \<lparr>
     inserted_nodes = [],
     heap = [(case heap h of [] \<Rightarrow> \<lparr>he_index = 0, he_weight = INT_MIN\<rparr> | e # _ \<Rightarrow> e\<lparr>he_weight := INT_MIN\<rparr>)],
     node_index = st_clear ops (node_index h)\<rparr>"

definition BinaryHeap :: "'s storage_ops \<Rightarrow> nat \<Rightarrow> ('d, 's) binary_heap" where
  "BinaryHeap ops maxID =
     Clear ops \<lparr>inserted_nodes = [], heap = [], node_index = st_new ops maxID\<rparr>"

definition Size :: "('d, 's) binary_heap \<Rightarrow> nat" where
  "Size h = length (heap h) - 1"

definition Empty :: "('d, 's) binary_heap \<Rightarrow> bool" where
  "Empty h \<longleftrightarrow> 0 = Size h"

definition Insert ::
  "'s storage_ops \<Rightarrow> NodeID \<Rightarrow> int \<Rightarrow> 'd \<Rightarrow> ('d, 's) binary_heap \<Rightarrow> ('d, 's) binary_heap option" where
  "Insert ops node weight data h = do {
     let index = length (inserted_nodes h);
     let key = length (heap h);
     let hp = heap h @ [\<lparr>he_index = index, he_weight = weight\<rparr>];
     let ins = inserted_nodes h @ [\<lparr>hn_node = node, hn_key = key, hn_weight = weight, hn_data = data\<rparr>];
     s \<leftarrow> st_assign ops (node_index h) node index;
     h \<leftarrow> Upheap key \<lparr>inserted_nodes = ins, heap = hp, node_index = s\<rparr>;
     CheckHeap h;
     Some h
   }"

definition GetData :: "'s storage_ops \<Rightarrow> ('d, 's) binary_heap \<Rightarrow> NodeID \<Rightarrow> 'd option" where
  "GetData ops h node = do {
     index \<leftarrow> st_peek ops (node_index h) node;
     x \<leftarrow> nth_opt (inserted_nodes h) index;
     Some (hn_data x)
   }"

text \<open>Assignment through the reference that \<^verbatim>\<open>GetData\<close> returns.\<close>

definition SetData ::
  "'s storage_ops \<Rightarrow> ('d, 's) binary_heap \<Rightarrow> NodeID \<Rightarrow> 'd \<Rightarrow> ('d, 's) binary_heap option" where
  "SetData ops h node data = do {
     index \<leftarrow> st_peek ops (node_index h) node;
     x \<leftarrow> nth_opt (inserted_nodes h) index;
     ins \<leftarrow> upd_opt (inserted_nodes h) index (x\<lparr>hn_data := data\<rparr>);
     Some (h\<lparr>inserted_nodes := ins\<rparr>)
   }"

text \<open>
  \<^verbatim>\<open>GetKey\<close> goes through the \<^verbatim>\<open>operator[]\<close> of the storage, which may create an entry:
  the heap is part of the result.
\<close>

definition GetKey ::
  "'s storage_ops \<Rightarrow> ('d, 's) binary_heap \<Rightarrow> NodeID \<Rightarrow> (int \<times> ('d, 's) binary_heap) option" where
  "GetKey ops h node = do {
     s \<leftarrow> st_ref ops (node_index h) node;
     index \<leftarrow> st_peek ops s node;
     x \<leftarrow> nth_opt (inserted_nodes h) index;
     Some (hn_weight x, h\<lparr>node_index := s\<rparr>)
   }"

definition WasInserted :: "'s storage_ops \<Rightarrow> ('d, 's) binary_heap \<Rightarrow> NodeID \<Rightarrow> bool option" where
  "WasInserted ops h node = do {
     index \<leftarrow> st_peek ops (node_index h) node;
     Some (if index \<ge> length (inserted_nodes h) then False
           else hn_node (inserted_nodes h ! index) = node)
   }"

definition WasRemoved :: "'s storage_ops \<Rightarrow> ('d, 's) binary_heap \<Rightarrow> NodeID \<Rightarrow> bool option" where
  "WasRemoved ops h node = do {
     inserted \<leftarrow> WasInserted ops h node;
     assert_opt inserted;
     index \<leftarrow> st_peek ops (node_index h) node;
     x \<leftarrow> nth_opt (inserted_nodes h) index;
     Some (hn_key x = 0)
   }"

definition Min_node :: "('d, 's) binary_heap \<Rightarrow> NodeID option" where
  "Min_node h = do {
     assert_opt (length (heap h) > 1);
     e \<leftarrow> nth_opt (heap h) 1;
     x \<leftarrow> nth_opt (inserted_nodes h) (he_index e);
     Some (hn_node x)
   }"

definition MinKey :: "('d, 's) binary_heap \<Rightarrow> int option" where
  "MinKey h = do {
     assert_opt (length (heap h) > 1);
     e \<leftarrow> nth_opt (heap h) 1;
     Some (he_weight e)
   }"

definition DeleteMin :: "('d, 's) binary_heap \<Rightarrow> (NodeID \<times> ('d, 's) binary_heap) option" where
  "DeleteMin h = do {
     assert_opt (length (heap h) > 1);
     e \<leftarrow> nth_opt (heap h) 1;
     let removedIndex = he_index e;
     hp \<leftarrow> upd_opt (heap h) 1 (heap h ! (length (heap h) - 1));
     let h = h\<lparr>heap := butlast hp\<rparr>;
     h \<leftarrow> (if length (heap h) > 1 then Downheap 1 h else Some h);
     ins \<leftarrow> set_key (inserted_nodes h) removedIndex 0;
     let h = h\<lparr>inserted_nodes := ins\<rparr>;
     CheckHeap h;
     x \<leftarrow> nth_opt (inserted_nodes h) removedIndex;
     Some (hn_node x, h)
   }"

definition DeleteAll :: "('d, 's) binary_heap \<Rightarrow> ('d, 's) binary_heap option" where
  "DeleteAll h = do {
     ins \<leftarrow> foldM (\<lambda>e ins. set_key ins (he_index e) 0) (tl (heap h)) (inserted_nodes h);
     sentinel \<leftarrow> nth_opt (heap h) 0;
     Some (h\<lparr>inserted_nodes := ins, heap := [sentinel\<lparr>he_weight := INT_MIN\<rparr>]\<rparr>)
   }"

definition DecreaseKey ::
  "'s storage_ops \<Rightarrow> NodeID \<Rightarrow> int \<Rightarrow> ('d, 's) binary_heap \<Rightarrow> ('d, 's) binary_heap option" where
  "DecreaseKey ops node weight h = do {
     assert_opt (UINT_MAX \<noteq> node);
     index \<leftarrow> st_peek ops (node_index h) node;
     x \<leftarrow> nth_opt (inserted_nodes h) index;
     let key = hn_key x;
     ins \<leftarrow> upd_opt (inserted_nodes h) index (x\<lparr>hn_weight := weight\<rparr>);
     e \<leftarrow> nth_opt (heap h) key;
     hp \<leftarrow> upd_opt (heap h) key (e\<lparr>he_weight := weight\<rparr>);
     h \<leftarrow> Upheap key (h\<lparr>inserted_nodes := ins, heap := hp\<rparr>);
     CheckHeap h;
     Some h
   }"

end
