(* ===== verification/Heap_Order.thy ===== *)
theory Heap_Order
  imports Binary_Heap
begin

text \<open>
  Pointer consistency and heap order of the vectors of a \<^verbatim>\<open>BinaryHeap\<close>, and the
  correctness of the two sifting loops \<^verbatim>\<open>Upheap\<close> and \<^verbatim>\<open>Downheap\<close>.
\<close>

section \<open>Pointers between heap and records\<close>

abbreviation W :: "heap_element list \<Rightarrow> nat \<Rightarrow> int" where
  "W hp i \<equiv> he_weight (hp ! i)"

abbreviation X :: "heap_element list \<Rightarrow> nat \<Rightarrow> nat" where
  "X hp i \<equiv> he_index (hp ! i)"

text \<open>The total counterpart of \<open>set_key\<close>.\<close>

definition key_upd :: "'d heap_node list \<Rightarrow> nat \<Rightarrow> nat \<Rightarrow> 'd heap_node list" where
  "key_upd ins j k = ins[j := (ins ! j)\<lparr>hn_key := k\<rparr>]"

lemma set_key_in [simp]: "j < length ins \<Longrightarrow> set_key ins j k = Some (key_upd ins j k)"
  by (simp add: set_key_def key_upd_def)

lemma key_upd_simps [simp]:
  "length (key_upd ins j k) = length ins"
  "i < length ins \<Longrightarrow> key_upd ins j k ! i = (if i = j then (ins ! i)\<lparr>hn_key := k\<rparr> else ins ! i)"
  by (auto simp: key_upd_def)

lemma key_upd_twice [simp]: "key_upd (key_upd ins j k) j k' = key_upd ins j k'"
  by (cases "j < length ins") (auto simp: key_upd_def list_update_beyond)

lemma key_upd_commute: "i \<noteq> j \<Longrightarrow> key_upd (key_upd ins i k) j k' = key_upd (key_upd ins j k') i k"
  by (auto simp: key_upd_def list_update_swap)

text \<open>
  Heap positions and records point at each other. The records in \<open>R\<close> are detached: they
  still carry a position, but no heap position points at them.
\<close>

definition linked :: "heap_element list \<Rightarrow> 'd heap_node list \<Rightarrow> nat set \<Rightarrow> bool" where
  "linked hp ins R \<longleftrightarrow>
     (\<forall>i. 1 \<le> i \<and> i < length hp \<longrightarrow>
        X hp i < length ins \<and> X hp i \<notin> R \<and> hn_key (ins ! X hp i) = i \<and> hn_weight (ins ! X hp i) = W hp i)
     \<and> (\<forall>j < length ins. j \<notin> R \<and> hn_key (ins ! j) \<noteq> 0 \<longrightarrow>
        hn_key (ins ! j) < length hp \<and> X hp (hn_key (ins ! j)) = j)"

lemma linkedD:
  assumes "linked hp ins R" and "1 \<le> i" and "i < length hp"
  shows "X hp i < length ins" and "X hp i \<notin> R"
    and "hn_key (ins ! X hp i) = i" and "hn_weight (ins ! X hp i) = W hp i"
  using assms by (auto simp: linked_def)

lemma linked_backD:
  assumes "linked hp ins R" and "j < length ins" and "j \<notin> R" and "hn_key (ins ! j) \<noteq> 0"
  shows "hn_key (ins ! j) < length hp" and "X hp (hn_key (ins ! j)) = j"
  using assms by (auto simp: linked_def)

lemma linked_inj:
  "linked hp ins R \<Longrightarrow> 1 \<le> a \<Longrightarrow> a < length hp \<Longrightarrow> 1 \<le> b \<Longrightarrow> b < length hp \<Longrightarrow> X hp a = X hp b \<Longrightarrow> a = b"
  by (metis linkedD(3))

lemma linked_swap:
  assumes l: "linked hp ins R" and a: "1 \<le> a" "a < length hp" and b: "1 \<le> b" "b < length hp" and ab: "a \<noteq> b"
  shows "linked (hp[a := hp ! b, b := hp ! a]) (key_upd (key_upd ins (X hp a) b) (X hp b) a) R"
proof -
  have ne: "X hp a \<noteq> X hp b"
    using linked_inj [OF l a b] ab by blast
  note la = linkedD [OF l a] and lb = linkedD [OF l b]
  have other: "X hp i \<noteq> X hp a \<and> X hp i \<noteq> X hp b" if "1 \<le> i" "i < length hp" "i \<noteq> a" "i \<noteq> b" for i
    using linked_inj [OF l that(1,2) a] linked_inj [OF l that(1,2) b] that by blast
  show ?thesis
    unfolding linked_def
  proof (intro conjI allI impI)
    fix i
    assume i: "1 \<le> i \<and> i < length (hp[a := hp ! b, b := hp ! a])"
    then have i': "1 \<le> i" "i < length hp" by auto
    note li = linkedD [OF l i']
    show "X (hp[a := hp ! b, b := hp ! a]) i < length (key_upd (key_upd ins (X hp a) b) (X hp b) a)"
      using i' la lb li a b by (auto simp: nth_list_update)
    show "X (hp[a := hp ! b, b := hp ! a]) i \<notin> R"
      using i' la lb li a b by (auto simp: nth_list_update)
    show "hn_key (key_upd (key_upd ins (X hp a) b) (X hp b) a ! X (hp[a := hp ! b, b := hp ! a]) i) = i"
      using i' la lb li a b ne other [OF i'] ab by (auto simp: nth_list_update)
    show "hn_weight (key_upd (key_upd ins (X hp a) b) (X hp b) a ! X (hp[a := hp ! b, b := hp ! a]) i)
        = W (hp[a := hp ! b, b := hp ! a]) i"
      using i' la lb li a b ne other [OF i'] ab by (auto simp: nth_list_update)
  next
    fix j
    assume "j < length (key_upd (key_upd ins (X hp a) b) (X hp b) a)"
      and j: "j \<notin> R \<and> hn_key (key_upd (key_upd ins (X hp a) b) (X hp b) a ! j) \<noteq> 0"
    then have j': "j < length ins" by simp
    show "hn_key (key_upd (key_upd ins (X hp a) b) (X hp b) a ! j) < length (hp[a := hp ! b, b := hp ! a])"
      using j j' la lb a b linked_backD(1) [OF l j'] by (auto split: if_splits)
    show "X (hp[a := hp ! b, b := hp ! a]) (hn_key (key_upd (key_upd ins (X hp a) b) (X hp b) a ! j)) = j"
      using j j' la lb a b ne linked_backD [OF l j'] by (auto simp: nth_list_update split: if_splits)
  qed
qed

section \<open>Heap order\<close>

definition ordered :: "heap_element list \<Rightarrow> bool" where
  "ordered hp \<longleftrightarrow> (\<forall>i. 2 \<le> i \<and> i < length hp \<longrightarrow> W hp (i div 2) \<le> W hp i)"

text \<open>Ordered but for position \<open>k\<close> being perhaps too small for its parent.\<close>

definition ordered_up :: "heap_element list \<Rightarrow> nat \<Rightarrow> bool" where
  "ordered_up hp k \<longleftrightarrow>
     (\<forall>i. 2 \<le> i \<and> i < length hp \<and> i \<noteq> k \<longrightarrow> W hp (i div 2) \<le> W hp i)
     \<and> (\<forall>i. i < length hp \<and> i div 2 = k \<and> 2 \<le> k \<longrightarrow> W hp (k div 2) \<le> W hp i)"

text \<open>Ordered but for position \<open>k\<close> being perhaps too large for its children.\<close>

definition ordered_down :: "heap_element list \<Rightarrow> nat \<Rightarrow> bool" where
  "ordered_down hp k \<longleftrightarrow>
     (\<forall>i. 2 \<le> i \<and> i < length hp \<and> i div 2 \<noteq> k \<longrightarrow> W hp (i div 2) \<le> W hp i)
     \<and> (\<forall>i. i < length hp \<and> i div 2 = k \<and> 2 \<le> k \<longrightarrow> W hp (k div 2) \<le> W hp i)"

lemma ordered_up_swap:
  assumes "ordered_up hp k" and "2 \<le> k" and "k < length hp" and "W hp k < W hp (k div 2)"
  shows "ordered_up (hp[k := hp ! (k div 2), k div 2 := hp ! k]) (k div 2)"
proof -
  let ?p = "k div 2" and ?hp = "hp[k := hp ! (k div 2), k div 2 := hp ! k]"
  have p: "1 \<le> ?p" "?p < k" "?p < length hp"
    using assms(2,3) by auto
  have nth: "?hp ! i = (if i = ?p then hp ! k else if i = k then hp ! ?p else hp ! i)" if "i < length hp" for i
    using that p by (auto simp: nth_list_update)
  have o1: "W hp (i div 2) \<le> W hp i" if "2 \<le> i" "i < length hp" "i \<noteq> k" for i
    using assms(1) that by (auto simp: ordered_up_def)
  have o2: "W hp ?p \<le> W hp i" if "i < length hp" "i div 2 = k" for i
    using assms(1,2) that by (auto simp: ordered_up_def)
  have "W ?hp (i div 2) \<le> W ?hp i" if i: "2 \<le> i" "i < length hp" "i \<noteq> ?p" for i
  proof -
    consider "i = k" | "i \<noteq> k" "i div 2 = k" | "i \<noteq> k" "i div 2 = ?p" | "i \<noteq> k" "i div 2 \<noteq> k" "i div 2 \<noteq> ?p"
      by blast
    then show ?thesis
    proof cases
      case 1
      then show ?thesis using i p assms(4) by (simp add: nth)
    next
      case 2
      then show ?thesis using i p o2 [of i] by (simp add: nth)
    next
      case 3
      then show ?thesis using i p assms(4) o1 [of i] by (simp add: nth)
    next
      case 4
      then show ?thesis using i p o1 [of i] by (simp add: nth)
    qed
  qed
  moreover have "W ?hp (?p div 2) \<le> W ?hp i" if i: "i < length hp" "i div 2 = ?p" "2 \<le> ?p" for i
  proof -
    have "W hp (?p div 2) \<le> W hp ?p"
      using o1 [of ?p] i p by simp
    moreover have "W hp ?p \<le> W hp i" if "i \<noteq> k"
      using o1 [of i] i p that by auto
    moreover have "?p div 2 < ?p" "?p div 2 < length hp"
      using i(3) p by auto
    ultimately show ?thesis
      using i p by (cases "i = k") (auto simp: nth)
  qed
  ultimately show ?thesis
    by (auto simp: ordered_up_def)
qed

lemma ordered_up_done:
  "ordered_up hp k \<Longrightarrow> (2 \<le> k \<Longrightarrow> W hp (k div 2) \<le> W hp k) \<Longrightarrow> ordered hp"
  by (auto simp: ordered_up_def ordered_def)

lemma ordered_down_swap:
  assumes "ordered_down hp k" and "1 \<le> k" and "c < length hp" and "c div 2 = k"
    and "W hp c < W hp k" and min: "\<And>i. i < length hp \<Longrightarrow> i div 2 = k \<Longrightarrow> W hp c \<le> W hp i"
  shows "ordered_down (hp[k := hp ! c, c := hp ! k]) c"
proof -
  let ?hp = "hp[k := hp ! c, c := hp ! k]"
  have k: "k < c" "k < length hp"
    using assms(2-4) by auto
  have nth: "?hp ! i = (if i = c then hp ! k else if i = k then hp ! c else hp ! i)" if "i < length hp" for i
    using that k assms(3) by (auto simp: nth_list_update)
  have o1: "W hp (i div 2) \<le> W hp i" if "2 \<le> i" "i < length hp" "i div 2 \<noteq> k" for i
    using assms(1) that by (auto simp: ordered_down_def)
  have o2: "W hp (k div 2) \<le> W hp c" if "2 \<le> k"
    using assms(1,3,4) that by (auto simp: ordered_down_def)
  have "W ?hp (i div 2) \<le> W ?hp i" if i: "2 \<le> i" "i < length hp" "i div 2 \<noteq> c" for i
  proof -
    consider "i = k" | "i \<noteq> k" "i div 2 = k" | "i \<noteq> k" "i div 2 \<noteq> k"
      by blast
    then show ?thesis
    proof cases
      case 1
      then show ?thesis using i k o2 by (simp add: nth)
    next
      case 2
      then show ?thesis using i k assms(5) min [of i] by (auto simp: nth)
    next
      case 3
      then show ?thesis using i k assms(4) o1 [of i] by (auto simp: nth)
    qed
  qed
  moreover have "W ?hp (c div 2) \<le> W ?hp i" if i: "i < length hp" "i div 2 = c" "2 \<le> c" for i
    using i k assms(4) o1 [of i] by (auto simp: nth)
  ultimately show ?thesis
    by (auto simp: ordered_down_def)
qed

lemma ordered_down_done:
  "ordered_down hp k \<Longrightarrow> (\<And>i. 2 \<le> i \<Longrightarrow> i < length hp \<Longrightarrow> i div 2 = k \<Longrightarrow> W hp k \<le> W hp i) \<Longrightarrow> ordered hp"
  by (auto simp: ordered_down_def ordered_def)


section \<open>The sifting loops\<close>

text \<open>
  During a loop the sifted element \<open>e\<close> is in a register and position \<open>key\<close> is a hole.
  The loops are described by the vectors that result from putting \<open>e\<close> into the hole.
\<close>

definition record_view :: "'d heap_node \<Rightarrow> NodeID \<times> int \<times> 'd \<times> bool" where
  "record_view x = (hn_node x, hn_weight x, hn_data x, hn_key x \<noteq> 0)"

lemma record_view_key_upd:
  "j < length ins \<Longrightarrow> (k \<noteq> 0) = (hn_key (ins ! j) \<noteq> 0) \<Longrightarrow>
   map record_view (key_upd ins j k) = map record_view ins"
  by (rule nth_equalityI) (auto simp: record_view_def)

definition sifted :: "heap_element list \<Rightarrow> 'd heap_node list \<Rightarrow> nat set
    \<Rightarrow> heap_element list \<Rightarrow> 'd heap_node list \<Rightarrow> bool" where
  "sifted hp ins R hp' ins' \<longleftrightarrow>
     linked hp' ins' R \<and> ordered hp' \<and> length hp' = length hp \<and> hp' ! 0 = hp ! 0
     \<and> map record_view ins' = map record_view ins"

lemma sifted_trans:
  assumes "sifted hp1 ins1 R hp2 ins2" and "length hp1 = length hp" and "hp1 ! 0 = hp ! 0"
    and "map record_view ins1 = map record_view ins"
  shows "sifted hp ins R hp2 ins2"
  using assms by (simp add: sifted_def)

text \<open>One round of either loop swaps the element in the register with the entry at \<open>b\<close>.\<close>

lemma hole_step:
  assumes l: "linked (hp[a := e]) (key_upd ins (he_index e) a) R"
    and a: "1 \<le> a" "a < length hp" and b: "1 \<le> b" "b < length hp" and ab: "a \<noteq> b"
    and e: "he_index e < length ins"
  shows "X hp b < length ins"
    and "hp[a := hp ! b, b := e] = (hp[a := e])[a := hp[a := e] ! b, b := hp[a := e] ! a]"
    and "linked (hp[a := hp ! b, b := e]) (key_upd (key_upd ins (X hp b) a) (he_index e) b) R"
    and "map record_view (key_upd (key_upd ins (X hp b) a) (he_index e) b)
       = map record_view (key_upd ins (he_index e) a)"
proof -
  let ?vh = "hp[a := e]" and ?vi = "key_upd ins (he_index e) a"
  have Xb: "X ?vh b = X hp b" and Xa: "X ?vh a = he_index e"
    using a ab by auto
  have l1: "1 \<le> a" "a < length ?vh" "1 \<le> b" "b < length ?vh"
    using a b by auto
  show bi: "X hp b < length ins"
    using linkedD(1) [OF l l1(3,4)] Xb by simp
  show eq: "hp[a := hp ! b, b := e] = ?vh[a := ?vh ! b, b := ?vh ! a]"
    using a ab by simp
  have ne: "he_index e \<noteq> X hp b"
    using linked_inj [OF l l1] ab Xa Xb by auto
  have vi: "key_upd (key_upd ?vi (X ?vh a) b) (X ?vh b) a
      = key_upd (key_upd ins (X hp b) a) (he_index e) b"
    unfolding Xa Xb key_upd_twice using key_upd_commute [OF ne] .
  show "linked (hp[a := hp ! b, b := e]) (key_upd (key_upd ins (X hp b) a) (he_index e) b) R"
    using linked_swap [OF l l1 ab] unfolding vi eq .
  have "hn_key (?vi ! X ?vh b) = b"
    by (rule linkedD(3) [OF l l1(3,4)])
  then have "hn_key (ins ! X hp b) = b"
    using ne bi Xb by simp
  then show "map record_view (key_upd (key_upd ins (X hp b) a) (he_index e) b)
       = map record_view ?vi"
    using a b e bi ne
    by (intro nth_equalityI) (auto simp: record_view_def)
qed

lemma upheap_loop_correct:
  assumes "linked (hp[key := e]) (key_upd ins (he_index e) key) R"
    and "ordered_up (hp[key := e]) key"
    and "1 \<le> key" and "key < length hp" and "he_index e < length ins"
    and "W hp 0 \<le> he_weight e"
  shows "\<exists>key' hp' ins'. upheap_loop (he_weight e) key (key div 2) hp ins = Some (key', hp', ins')
    \<and> key' < length hp' \<and> length ins' = length ins
    \<and> sifted (hp[key := e]) (key_upd ins (he_index e) key) R
         (hp'[key' := e]) (key_upd ins' (he_index e) key')"
  using assms
proof (induction key arbitrary: hp ins rule: less_induct)
  case (less key)
  let ?p = "key div 2"
  have p: "?p < key" "?p < length hp"
    using less.prems(3,4) by auto
  show ?case
  proof (cases "W hp ?p > he_weight e")
    case False
    have "ordered (hp[key := e])"
      by (rule ordered_up_done [OF less.prems(2)]) (use False p less.prems in auto)
    with False less.prems p show ?thesis
      by (subst upheap_loop.simps) (auto simp: sifted_def)
  next
    case True
    with less.prems(6) have p1: "1 \<le> ?p"
      by (cases "?p = 0") auto
    have ne: "key \<noteq> ?p"
      using p(1) by simp
    note step = hole_step [OF less.prems(1) less.prems(3,4) p1 p(2) ne less.prems(5)]
    let ?hp = "hp[key := hp ! ?p]" and ?ins = "key_upd ins (X hp ?p) key"
    have "ordered_up (?hp[?p := e]) ?p"
      using ordered_up_swap [OF less.prems(2)] True p p1 ne less.prems(4) unfolding step(2) by simp
    moreover have "W ?hp 0 \<le> he_weight e"
      using less.prems(3,6) by simp
    ultimately obtain key' hp' ins' where
      loop: "upheap_loop (he_weight e) ?p (?p div 2) ?hp ?ins = Some (key', hp', ins')"
      and fin: "key' < length hp'" "length ins' = length ?ins"
      and s: "sifted (?hp[?p := e]) (key_upd ?ins (he_index e) ?p) R
         (hp'[key' := e]) (key_upd ins' (he_index e) key')"
      using less.IH [OF p(1), of ?hp ?ins] step(1,3) p(2) p1 less.prems(5) by auto
    have "sifted (hp[key := e]) (key_upd ins (he_index e) key) R
         (hp'[key' := e]) (key_upd ins' (he_index e) key')"
      by (rule sifted_trans [OF s]) (use step(4) p1 less.prems(3) in auto)
    with loop fin True p p1 less.prems step(1) show ?thesis
      by (subst upheap_loop.simps) auto
  qed
qed

lemma downheap_loop_correct:
  assumes "linked (hp[key := e]) (key_upd ins (he_index e) key) R"
    and "ordered_down (hp[key := e]) key"
    and "1 \<le> key" and "key < length hp" and "he_index e < length ins"
  shows "\<exists>key' hp' ins'. downheap_loop (he_weight e) key (key * 2) hp ins = Some (key', hp', ins')
    \<and> key' < length hp' \<and> length ins' = length ins
    \<and> sifted (hp[key := e]) (key_upd ins (he_index e) key) R
         (hp'[key' := e]) (key_upd ins' (he_index e) key')"
  using assms
proof (induction "length hp - key" arbitrary: key hp ins rule: less_induct)
  case less
  define c where "c = (if key * 2 + 1 < length hp \<and> W hp (key * 2) > W hp (key * 2 + 1)
    then key * 2 + 1 else key * 2)"
  have child: "i div 2 = key \<longleftrightarrow> i = key * 2 \<or> i = key * 2 + 1" for i :: nat
    by auto
  show ?case
  proof (cases "key * 2 < length hp \<and> he_weight e > W hp c")
    case False
    have "ordered (hp[key := e])"
    proof (rule ordered_down_done [OF less.prems(2)])
      fix i
      assume "2 \<le> i" "i < length (hp[key := e])" "i div 2 = key"
      then show "W (hp[key := e]) key \<le> W (hp[key := e]) i"
        using False less.prems(3,4) by (auto simp: child c_def split: if_splits)
    qed
    with False less.prems show ?thesis
      by (subst downheap_loop.simps) (auto simp: sifted_def Let_def c_def split: if_splits)
  next
    case True
    then have c: "c < length hp" "c div 2 = key" "key < c" "1 \<le> c" "c \<noteq> 0"
      using less.prems(3) by (auto simp: c_def)
    have ne: "key \<noteq> c"
      using c(3) by simp
    note step = hole_step [OF less.prems(1) less.prems(3,4) c(4,1) ne less.prems(5)]
    let ?hp = "hp[key := hp ! c]" and ?ins = "key_upd ins (X hp c) key"
    have "ordered_down (?hp[c := e]) c"
    proof -
      have "W (hp[key := e]) c \<le> W (hp[key := e]) i"
        if "i < length (hp[key := e])" "i div 2 = key" for i
        using that c less.prems(3,4) by (auto simp: child c_def split: if_splits)
      then show ?thesis
        using ordered_down_swap [OF less.prems(2,3), of c] True c ne less.prems(4)
        unfolding step(2) by simp
    qed
    moreover have dec: "length ?hp - c < length hp - key"
      using c(1,3) less.prems(4) by simp
    ultimately obtain key' hp' ins' where
      loop: "downheap_loop (he_weight e) c (c * 2) ?hp ?ins = Some (key', hp', ins')"
      and fin: "key' < length hp'" "length ins' = length ?ins"
      and s: "sifted (?hp[c := e]) (key_upd ?ins (he_index e) c) R
         (hp'[key' := e]) (key_upd ins' (he_index e) key')"
      using less.hyps [OF dec, of ?ins] step(1,3) c(1,3,4) less.prems(5) by auto
    have "sifted (hp[key := e]) (key_upd ins (he_index e) key) R
         (hp'[key' := e]) (key_upd ins' (he_index e) key')"
      by (rule sifted_trans [OF s]) (use step(4) c(4) less.prems(3) in auto)
    moreover have "downheap_loop (he_weight e) key (key * 2) hp ins
        = downheap_loop (he_weight e) c (c * 2) ?hp ?ins"
      unfolding downheap_loop.simps [of _ key] Let_def c_def [symmetric]
      using True c less.prems(4) step(1) by simp
    ultimately show ?thesis
      using loop fin by auto
  qed
qed

text \<open>The operations around the loops.\<close>

lemma key_upd_id: "j < length ins \<Longrightarrow> hn_key (ins ! j) = k \<Longrightarrow> key_upd ins j k = ins"
  by (rule nth_equalityI) auto

lemma heap_element_eta [simp]: "\<lparr>he_index = he_index e, he_weight = he_weight e\<rparr> = e"
  by (cases e) simp

lemma Upheap_correct:
  assumes l: "linked (heap h) (inserted_nodes h) {}" and o: "ordered_up (heap h) key"
    and key: "1 \<le> key" "key < length (heap h)" and sentinel: "W (heap h) 0 \<le> W (heap h) key"
  shows "\<exists>hp ins. Upheap key h = Some (h\<lparr>heap := hp, inserted_nodes := ins\<rparr>)
    \<and> sifted (heap h) (inserted_nodes h) {} hp ins"
proof -
  let ?e = "heap h ! key"
  note le = linkedD [OF l key]
  have ins: "key_upd (inserted_nodes h) (he_index ?e) key = inserted_nodes h"
    by (rule key_upd_id [OF le(1,3)])
  have hp: "(heap h)[key := ?e] = heap h"
    by simp
  obtain key' hp' ins' where
    "upheap_loop (he_weight ?e) key (key div 2) (heap h) (inserted_nodes h) = Some (key', hp', ins')"
    and "key' < length hp'" and "length ins' = length (inserted_nodes h)"
    and "sifted (heap h) (inserted_nodes h) {} (hp'[key' := ?e]) (key_upd ins' (he_index ?e) key')"
    using upheap_loop_correct [of "heap h" key ?e "inserted_nodes h" "{}"] l o key sentinel le(1)
    unfolding ins hp by blast
  with key le(1) show ?thesis
    by (intro exI [of _ "hp'[key' := ?e]"] exI [of _ "key_upd ins' (he_index ?e) key'"])
       (simp add: Upheap_def)
qed

lemma Downheap_correct:
  assumes l: "linked (heap h) (key_upd (inserted_nodes h) (X (heap h) key) key) R"
    and o: "ordered_down (heap h) key"
    and key: "1 \<le> key" "key < length (heap h)"
  shows "\<exists>hp ins. Downheap key h = Some (h\<lparr>heap := hp, inserted_nodes := ins\<rparr>)
    \<and> sifted (heap h) (key_upd (inserted_nodes h) (X (heap h) key) key) R hp ins"
proof -
  let ?e = "heap h ! key"
  have e: "he_index ?e < length (inserted_nodes h)"
    using linkedD(1) [OF l key] by simp
  have hp: "(heap h)[key := ?e] = heap h"
    by simp
  obtain key' hp' ins' where
    "downheap_loop (he_weight ?e) key (key * 2) (heap h) (inserted_nodes h) = Some (key', hp', ins')"
    and "key' < length hp'" and "length ins' = length (inserted_nodes h)"
    and "sifted (heap h) (key_upd (inserted_nodes h) (he_index ?e) key) R
      (hp'[key' := ?e]) (key_upd ins' (he_index ?e) key')"
    using downheap_loop_correct [of "heap h" key ?e "inserted_nodes h" R] l o key e
    unfolding hp by blast
  with key e show ?thesis
    by (intro exI [of _ "hp'[key' := ?e]"] exI [of _ "key_upd ins' (he_index ?e) key'"])
       (simp add: Downheap_def)
qed

lemma CheckHeap_ordered: "ordered (heap h) \<Longrightarrow> CheckHeap h = Some ()"
  by (simp add: CheckHeap_def ordered_def assert_opt_def)

lemma ordered_root_min:
  "ordered hp \<Longrightarrow> 1 \<le> i \<Longrightarrow> i < length hp \<Longrightarrow> W hp 1 \<le> W hp i"
proof (induction i rule: less_induct)
  case (less i)
  show ?case
  proof (cases "i = 1")
    case False
    with less.prems have "W hp 1 \<le> W hp (i div 2)"
      by (intro less.IH) auto
    also have "\<dots> \<le> W hp i"
      using less.prems False by (auto simp: ordered_def)
    finally show ?thesis .
  qed simp
qed

lemma decreased_ordered_up:
  assumes "ordered hp" and "1 \<le> k" and "k < length hp" and "w \<le> W hp k"
  shows "ordered_up (hp[k := (hp ! k)\<lparr>he_weight := w\<rparr>]) k"
proof -
  have o: "W hp (i div 2) \<le> W hp i" if "2 \<le> i" "i < length hp" for i
    using assms(1) that by (simp add: ordered_def)
  have "W hp (k div 2) \<le> W hp i" if "i < length hp" "i div 2 = k" "2 \<le> k" for i
    using o [of i] o [of k] that assms(3) by fastforce
  then show ?thesis
    using o assms(2-4) by (auto simp: ordered_up_def nth_list_update intro: order_trans)
qed

section \<open>Removing the root\<close>

lemma linked_detach: "linked hp ins {r} \<Longrightarrow> linked hp (key_upd ins r 0) {}"
  by (auto simp: linked_def)

lemma drop_only_root:
  assumes "linked hp ins {}" and "length hp = 2"
  shows "linked (butlast (hp[1 := e])) ins {X hp 1}"
proof -
  have "hn_key (ins ! j) = 0" if "j < length ins" "j \<noteq> X hp 1" for j
    using linked_backD [OF assms(1) that(1)] that assms(2) by (cases "hn_key (ins ! j) = 1") auto
  then show ?thesis
    using assms(2) by (auto simp: linked_def)
qed

lemma drop_root:
  fixes hp :: "heap_element list"
  defines "hp1 \<equiv> butlast (hp[1 := hp ! (length hp - 1)])"
  assumes l: "linked hp ins {}" and o: "ordered hp" and len: "2 < length hp"
  shows "linked hp1 (key_upd ins (X hp1 1) 1) {X hp 1}"
    and "ordered_down hp1 1"
    and "map record_view (key_upd ins (X hp1 1) 1) = map record_view ins"
    and "length hp1 = length hp - 1" and "hp1 ! 0 = hp ! 0"
proof -
  let ?z = "length hp - 1"
  have z: "1 \<le> ?z" "?z < length hp" "1 \<noteq> ?z" and one: "1 \<le> (1::nat)" "1 < length hp"
    using len by auto
  show len1: "length hp1 = length hp - 1"
    by (simp add: hp1_def)
  have nth: "hp1 ! i = (if i = 1 then hp ! ?z else hp ! i)" if "i < ?z" for i
    using that by (auto simp: hp1_def nth_butlast)
  then show "hp1 ! 0 = hp ! 0"
    using z by simp
  have X1: "X hp1 1 = X hp ?z"
    using nth [of 1] z by simp
  note lz = linkedD [OF l z(1,2)]
  have ne: "X hp i \<noteq> X hp ?z" if "1 \<le> i" "i < ?z" for i
    using linked_inj [OF l that(1) _ z(1,2)] that by fastforce
  show "map record_view (key_upd ins (X hp1 1) 1) = map record_view ins"
    unfolding X1 using lz z by (intro record_view_key_upd) auto
  have "X hp1 i < length ins \<and> X hp1 i \<notin> {X hp 1}
      \<and> hn_key (key_upd ins (X hp ?z) 1 ! X hp1 i) = i
      \<and> hn_weight (key_upd ins (X hp ?z) 1 ! X hp1 i) = W hp1 i" if i: "1 \<le> i" "i < ?z" for i
    using linkedD [OF l i(1)] linked_inj [OF l i(1) _ one] ne [OF i] ne [of 1] i lz z
    by (auto simp: nth)
  moreover have "hn_key (key_upd ins (X hp ?z) 1 ! j) < ?z
      \<and> X hp1 (hn_key (key_upd ins (X hp ?z) 1 ! j)) = j"
    if j: "j < length ins" "j \<noteq> X hp 1" "hn_key (key_upd ins (X hp ?z) 1 ! j) \<noteq> 0" for j
  proof (cases "j = X hp ?z")
    case True
    with j z show ?thesis by (simp add: nth)
  next
    case False
    with j have k: "hn_key (ins ! j) \<noteq> 0" by simp
    note b = linked_backD [OF l j(1) _ k, simplified]
    have "hn_key (ins ! j) \<noteq> ?z" "hn_key (ins ! j) \<noteq> 1"
      using b False j(2) by metis+
    with b False j show ?thesis by (auto simp: nth)
  qed
  ultimately show "linked hp1 (key_upd ins (X hp1 1) 1) {X hp 1}"
    unfolding linked_def X1 len1 by (simp del: key_upd_simps(2))
  have "W hp1 (i div 2) \<le> W hp1 i" if i: "2 \<le> i" "i < ?z" "i div 2 \<noteq> 1" for i
    using o i by (simp add: ordered_def nth)
  then show "ordered_down hp1 1"
    unfolding ordered_down_def len1 by simp
qed

text \<open>Removing everything: the loop of \<^verbatim>\<open>DeleteAll\<close> resets every linked record.\<close>

lemma foldM_set_key_0:
  assumes "\<forall>e \<in> set es. he_index e < length ins"
  shows "\<exists>ins'. foldM (\<lambda>e ins. set_key ins (he_index e) 0) es ins = Some ins' \<and> length ins' = length ins
    \<and> (\<forall>j < length ins. ins' ! j = (if j \<in> he_index ` set es then (ins ! j)\<lparr>hn_key := 0\<rparr> else ins ! j))"
  using assms
proof (induction es arbitrary: ins)
  case (Cons e es)
  then show ?case
    using Cons.IH [of "key_upd ins (he_index e) 0"] by auto
qed simp

lemma reset_all:
  assumes "linked hp ins {}"
  shows "foldM (\<lambda>e ins. set_key ins (he_index e) 0) (tl hp) ins = Some (map (\<lambda>x. x\<lparr>hn_key := 0\<rparr>) ins)"
proof -
  have tl: "\<exists>i. 1 \<le> i \<and> i < length hp \<and> e = hp ! i" if e: "e \<in> set (tl hp)" for e
  proof -
    obtain i where "i < length hp - 1" "e = hp ! Suc i"
      using e by (auto simp: in_set_conv_nth nth_tl)
    then show ?thesis by (intro exI [of _ "Suc i"]) simp
  qed
  have "he_index e < length ins" if "e \<in> set (tl hp)" for e
    using tl [OF that] linkedD(1) [OF assms] by blast
  then obtain ins' where ins': "foldM (\<lambda>e ins. set_key ins (he_index e) 0) (tl hp) ins = Some ins'"
    "length ins' = length ins"
    "\<forall>j < length ins. ins' ! j = (if j \<in> he_index ` set (tl hp) then (ins ! j)\<lparr>hn_key := 0\<rparr> else ins ! j)"
    using foldM_set_key_0 by blast
  have "ins' ! j = (ins ! j)\<lparr>hn_key := 0\<rparr>" if j: "j < length ins" for j
  proof (cases "hn_key (ins ! j) = 0")
    case True
    then show ?thesis using ins'(3) j by (cases "ins ! j") auto
  next
    case False
    note b = linked_backD [OF assms j _ False, simplified]
    have "hp ! hn_key (ins ! j) \<in> set (tl hp)"
      using b(1) False nth_mem [of "hn_key (ins ! j) - 1" "tl hp"] by (simp add: nth_tl)
    with b(2) have "j \<in> he_index ` set (tl hp)" by (metis imageI)
    with ins'(3) j show ?thesis by simp
  qed
  with ins'(2) have "ins' = map (\<lambda>x. x\<lparr>hn_key := 0\<rparr>) ins"
    by (intro nth_equalityI) auto
  with ins'(1) show ?thesis by simp
qed

end
