(* ===== verification/Xor_Fast_Hash.thy ===== *)
theory Xor_Fast_Hash
  imports Index_Storage
begin

text \<open>
  \<^verbatim>\<open>data_structures/xor_fast_hash.hpp\<close> (tabulation hashing) and
  \<^verbatim>\<open>data_structures/xor_fast_hash_storage.hpp\<close>, the open-addressing table with time
  stamps that the contractor uses as the index storage of its heap. Hash values and table
  positions keep their 16-bit width: \<^verbatim>\<open>unsigned short\<close> wraps at 65536, so half of the
  \<^verbatim>\<open>2 << 16\<close> cells is never addressed. The main result is that the table meets the
  contract \<open>index_storage\<close> for up to 65536 nodes between two calls of \<^verbatim>\<open>Clear\<close>
  and while the time stamp is below its maximum.
\<close>

unbundle bit_operations_syntax

section \<open>The hash functions\<close>

record xor_fast_hash =
  xf_table1 :: "nat \<Rightarrow> 16 word"
  xf_table2 :: "nat \<Rightarrow> 16 word"

text \<open>
  The constructor fills both tables with \<^verbatim>\<open>static_cast<unsigned short>(i)\<close> and shuffles
  them; the two shuffles are arguments.
\<close>

definition XORFastHash :: "(nat \<Rightarrow> nat) \<Rightarrow> (nat \<Rightarrow> nat) \<Rightarrow> xor_fast_hash" where
  "XORFastHash shuffle1 shuffle2 = \<lparr>
     xf_table1 = (\<lambda>i. of_nat (shuffle1 i)),
     xf_table2 = (\<lambda>i. of_nat (shuffle2 i))\<rparr>"

definition xor_fast_hash :: "xor_fast_hash \<Rightarrow> NodeID \<Rightarrow> 16 word" where
  "xor_fast_hash fh originalValue =
     (let lsb = (of_nat originalValue :: 16 word);
          msb = (of_nat (originalValue div 2 ^ 16) :: 16 word)
      in xf_table1 fh (unat lsb) XOR xf_table2 fh (unat msb))"

record xor_mini_hash =
  xm_table1 :: "nat \<Rightarrow> 8 word"
  xm_table2 :: "nat \<Rightarrow> 8 word"
  xm_table3 :: "nat \<Rightarrow> 8 word"
  xm_table4 :: "nat \<Rightarrow> 8 word"

definition XORMiniHash ::
  "(nat \<Rightarrow> nat) \<Rightarrow> (nat \<Rightarrow> nat) \<Rightarrow> (nat \<Rightarrow> nat) \<Rightarrow> (nat \<Rightarrow> nat) \<Rightarrow> xor_mini_hash" where
  "XORMiniHash shuffle1 shuffle2 shuffle3 shuffle4 = \<lparr>
     xm_table1 = (\<lambda>i. of_nat (shuffle1 i)),
     xm_table2 = (\<lambda>i. of_nat (shuffle2 i)),
     xm_table3 = (\<lambda>i. of_nat (shuffle3 i)),
     xm_table4 = (\<lambda>i. of_nat (shuffle4 i))\<rparr>"

definition xor_mini_hash :: "xor_mini_hash \<Rightarrow> NodeID \<Rightarrow> 8 word" where
  "xor_mini_hash mh originalValue =
     (let byte1 = (of_nat originalValue :: 8 word);
          byte2 = (of_nat (originalValue div 2 ^ 8) :: 8 word);
          byte3 = (of_nat (originalValue div 2 ^ 16) :: 8 word);
          byte4 = (of_nat (originalValue div 2 ^ 24) :: 8 word)
      in xm_table1 mh (unat byte1) XOR xm_table2 mh (unat byte2)
         XOR xm_table3 mh (unat byte3) XOR xm_table4 mh (unat byte4))"

section \<open>The hash table\<close>

record hash_cell =
  hc_time :: nat
  hc_id :: NodeID
  hc_key :: nat

definition HashCell :: hash_cell where
  "HashCell = \<lparr>hc_time = UINT_MAX, hc_id = UINT_MAX, hc_key = UINT_MAX\<rparr>"

record xor_storage =
  xs_positions :: "nat \<Rightarrow> hash_cell"
  xs_current_timestamp :: nat

definition xor_storage_new :: xor_storage where
  "xor_storage_new = \<lparr>xs_positions = (\<lambda>_. HashCell), xs_current_timestamp = 0\<rparr>"

text \<open>
  \<^verbatim>\<open>++position %= (2 << 16)\<close> on an \<^verbatim>\<open>unsigned short\<close>.
\<close>

definition next_position :: "16 word \<Rightarrow> 16 word" where
  "next_position position = of_nat (unat (position + 1) mod 131072)"

text \<open>
  The probe loop shared by \<^verbatim>\<open>operator[]\<close> and \<^verbatim>\<open>peek_index\<close>. It changes nothing but
  \<open>position\<close>, and a 16-bit position is back at its start after 65536 rounds, so a loop
  still running then runs forever: \<open>None\<close>.
\<close>

definition cell_busy :: "(nat \<Rightarrow> hash_cell) \<Rightarrow> nat \<Rightarrow> NodeID \<Rightarrow> 16 word \<Rightarrow> bool" where
  "cell_busy positions time node position \<longleftrightarrow>
     hc_time (positions (unat position)) = time \<and> hc_id (positions (unat position)) \<noteq> node"

fun probe :: "nat \<Rightarrow> (nat \<Rightarrow> hash_cell) \<Rightarrow> nat \<Rightarrow> NodeID \<Rightarrow> 16 word \<Rightarrow> 16 word option" where
  "probe 0 positions time node position = None"
| "probe (Suc fuel) positions time node position =
     (if cell_busy positions time node position
      then probe fuel positions time node (next_position position)
      else Some position)"

definition find_cell :: "xor_fast_hash \<Rightarrow> xor_storage \<Rightarrow> NodeID \<Rightarrow> 16 word option" where
  "find_cell fh s node =
     probe 65536 (xs_positions s) (xs_current_timestamp s) node (xor_fast_hash fh node)"

definition xor_ref :: "xor_fast_hash \<Rightarrow> xor_storage \<Rightarrow> NodeID \<Rightarrow> xor_storage option" where
  "xor_ref fh s node = do {
     position \<leftarrow> find_cell fh s node;
     let cell = xs_positions s (unat position);
     Some (s\<lparr>xs_positions := (xs_positions s)(unat position :=
        cell\<lparr>hc_time := xs_current_timestamp s, hc_id := node\<rparr>)\<rparr>)
   }"

definition xor_assign :: "xor_fast_hash \<Rightarrow> xor_storage \<Rightarrow> NodeID \<Rightarrow> nat \<Rightarrow> xor_storage option" where
  "xor_assign fh s node key_to_insert = do {
     position \<leftarrow> find_cell fh s node;
     s1 \<leftarrow> xor_ref fh s node;
     let cell = xs_positions s1 (unat position);
     Some (s1\<lparr>xs_positions := (xs_positions s1)(unat position := cell\<lparr>hc_key := key_to_insert\<rparr>)\<rparr>)
   }"

definition xor_peek_index :: "xor_fast_hash \<Rightarrow> xor_storage \<Rightarrow> NodeID \<Rightarrow> nat option" where
  "xor_peek_index fh s node = do {
     position \<leftarrow> find_cell fh s node;
     Some (hc_key (xs_positions s (unat position)))
   }"

definition xor_Clear :: "xor_storage \<Rightarrow> xor_storage" where
  "xor_Clear s =
     (let current_timestamp = (xs_current_timestamp s + 1) mod 2 ^ 32
      in if UINT_MAX = current_timestamp
         then \<lparr>xs_positions = (\<lambda>_. HashCell), xs_current_timestamp = current_timestamp\<rparr>
         else s\<lparr>xs_current_timestamp := current_timestamp\<rparr>)"

definition XORFastHashStorage :: "xor_fast_hash \<Rightarrow> xor_storage storage_ops" where
  "XORFastHashStorage fh = \<lparr>
     st_new = (\<lambda>_. xor_storage_new),
     st_ref = xor_ref fh,
     st_assign = xor_assign fh,
     st_peek = xor_peek_index fh,
     st_clear = xor_Clear\<rparr>"

section \<open>Probing\<close>

lemma unat_position: "unat (p :: 16 word) < 65536"
  by (rule order.strict_trans2 [OF unsigned_less]) simp

lemma next_position_eq [simp]: "next_position p = p + 1"
  using unat_position [of "p + 1"] by (simp add: next_position_def)

text \<open>\<open>first_free c t n p k\<close>: probing from \<open>p\<close> stops after exactly \<open>k\<close> steps.\<close>

definition first_free :: "(nat \<Rightarrow> hash_cell) \<Rightarrow> nat \<Rightarrow> NodeID \<Rightarrow> 16 word \<Rightarrow> nat \<Rightarrow> bool" where
  "first_free c t n p k \<longleftrightarrow>
     (\<forall>j<k. cell_busy c t n (p + of_nat j)) \<and> \<not> cell_busy c t n (p + of_nat k)"

lemma probe_first_free:
  "first_free c t n p k \<Longrightarrow> k < fuel \<Longrightarrow> probe fuel c t n p = Some (p + of_nat k)"
proof (induction fuel arbitrary: p k)
  case 0
  then show ?case by simp
next
  case (Suc fuel)
  show ?case
  proof (cases k)
    case 0
    with Suc.prems show ?thesis by (simp add: first_free_def)
  next
    case (Suc k')
    with Suc.prems(1) have busy: "cell_busy c t n p"
      by (auto simp: first_free_def dest: spec [of _ 0])
    have "first_free c t n (p + 1) k'"
      using Suc.prems(1) \<open>k = Suc k'\<close>
      by (auto simp: first_free_def add.assoc dest: spec [of _ "Suc _"])
    with Suc.IH [of "p + 1" k'] Suc.prems(2) \<open>k = Suc k'\<close> busy show ?thesis
      by (simp add: add.assoc)
  qed
qed

lemma probe_all_busy:
  "(\<And>p. cell_busy c t n p) \<Longrightarrow> probe fuel c t n p = None"
  by (induction fuel arbitrary: p) auto

lemma first_free_exists:
  assumes "\<not> cell_busy c t n q"
  shows "\<exists>k<65536. first_free c t n p k"
proof -
  let ?P = "\<lambda>k. \<not> cell_busy c t n (p + of_nat k)"
  have P: "?P (unat (q - p))"
    using assms by simp
  from LeastI [of ?P, OF P] Least_le [of ?P, OF P]
  have "?P (LEAST k. ?P k)" and "(LEAST k. ?P k) \<le> unat (q - p)"
    by auto
  moreover have "unat (q - p) < 65536"
    by (rule unat_position)
  ultimately have "first_free c t n p (LEAST k. ?P k) \<and> (LEAST k. ?P k) < 65536"
    by (auto simp: first_free_def dest: not_less_Least)
  then show ?thesis by blast
qed

lemma card_positions: "card (UNIV :: 16 word set) = 65536"
  by (simp add: card_word)

section \<open>The table meets the storage contract\<close>

text \<open>
  A cell is occupied when it carries the current time stamp. The occupied cells hold the
  nodes assigned since the last \<^verbatim>\<open>Clear\<close>, each in one cell, and that cell is where
  probing for the node stops.
\<close>

definition occupied :: "xor_storage \<Rightarrow> 16 word set" where
  "occupied s = {p. hc_time (xs_positions s (unat p)) = xs_current_timestamp s}"

definition cell_id :: "xor_storage \<Rightarrow> 16 word \<Rightarrow> NodeID" where
  "cell_id s p = hc_id (xs_positions s (unat p))"

definition xor_ok :: "xor_fast_hash \<Rightarrow> xor_storage \<Rightarrow> NodeID set \<Rightarrow> bool" where
  "xor_ok fh s U \<longleftrightarrow>
     xs_current_timestamp s < UINT_MAX
     \<and> (\<forall>p. hc_time (xs_positions s p) \<le> xs_current_timestamp s
           \<or> hc_time (xs_positions s p) = UINT_MAX)
     \<and> inj_on (cell_id s) (occupied s)
     \<and> cell_id s ` occupied s = U
     \<and> (\<forall>n\<in>U. \<exists>k<65536. first_free (xs_positions s) (xs_current_timestamp s) n (xor_fast_hash fh n) k
           \<and> xor_fast_hash fh n + of_nat k \<in> occupied s
           \<and> cell_id s (xor_fast_hash fh n + of_nat k) = n)"

definition xor_limit :: "NodeID set \<Rightarrow> bool" where
  "xor_limit U \<longleftrightarrow> finite U \<and> card U \<le> 65536"

lemma xor_okD:
  assumes "xor_ok fh s U"
  shows xor_ok_stamp: "xs_current_timestamp s < UINT_MAX"
    and xor_ok_times: "hc_time (xs_positions s i) \<le> xs_current_timestamp s
        \<or> hc_time (xs_positions s i) = UINT_MAX"
    and xor_ok_inj: "inj_on (cell_id s) (occupied s)"
    and xor_ok_ids: "cell_id s ` occupied s = U"
  using assms by (simp_all only: xor_ok_def)

lemma xor_ok_cell:
  assumes "xor_ok fh s U" and "n \<in> U"
  obtains k where "k < 65536"
    and "first_free (xs_positions s) (xs_current_timestamp s) n (xor_fast_hash fh n) k"
    and "xor_fast_hash fh n + of_nat k \<in> occupied s"
    and "cell_id s (xor_fast_hash fh n + of_nat k) = n"
  using assms by (auto simp only: xor_ok_def)

lemma xor_okI:
  assumes "xs_current_timestamp s < UINT_MAX"
    and "\<And>i. hc_time (xs_positions s i) \<le> xs_current_timestamp s
        \<or> hc_time (xs_positions s i) = UINT_MAX"
    and "inj_on (cell_id s) (occupied s)"
    and "cell_id s ` occupied s = U"
    and "\<And>n. n \<in> U \<Longrightarrow> \<exists>k<65536.
        first_free (xs_positions s) (xs_current_timestamp s) n (xor_fast_hash fh n) k
        \<and> xor_fast_hash fh n + of_nat k \<in> occupied s
        \<and> cell_id s (xor_fast_hash fh n + of_nat k) = n"
  shows "xor_ok fh s U"
  using assms by (simp only: xor_ok_def) blast

lemma find_cell_first_free:
  "first_free (xs_positions s) (xs_current_timestamp s) n (xor_fast_hash fh n) k \<Longrightarrow> k < 65536 \<Longrightarrow>
   find_cell fh s n = Some (xor_fast_hash fh n + of_nat k)"
  by (simp add: find_cell_def probe_first_free del: probe.simps)

lemma find_cell_assigned:
  assumes "xor_ok fh s U" and "n \<in> U"
  obtains p where "find_cell fh s n = Some p" and "p \<in> occupied s" and "cell_id s p = n"
  using xor_ok_cell [OF assms] find_cell_first_free by metis

lemma find_cell_fresh:
  assumes ok: "xor_ok fh s U" and n: "n \<notin> U" and lim: "xor_limit (insert n U)"
  obtains k where "k < 65536"
    and "first_free (xs_positions s) (xs_current_timestamp s) n (xor_fast_hash fh n) k"
    and "find_cell fh s n = Some (xor_fast_hash fh n + of_nat k)"
    and "xor_fast_hash fh n + of_nat k \<notin> occupied s"
proof -
  have "card (occupied s) = card U"
    using card_image [OF xor_ok_inj [OF ok]] xor_ok_ids [OF ok] by simp
  also have "\<dots> < 65536"
    using lim n by (auto simp: xor_limit_def)
  finally have "occupied s \<noteq> UNIV"
    using card_positions by auto
  then obtain q where "q \<notin> occupied s"
    by blast
  then have "\<not> cell_busy (xs_positions s) (xs_current_timestamp s) n q"
    by (simp add: occupied_def cell_busy_def)
  then obtain k where k: "k < 65536"
    and free: "first_free (xs_positions s) (xs_current_timestamp s) n (xor_fast_hash fh n) k"
    using first_free_exists by blast
  let ?p = "xor_fast_hash fh n + of_nat k"
  have "?p \<notin> occupied s"
  proof
    assume occ: "?p \<in> occupied s"
    with free have "cell_id s ?p = n"
      by (simp add: first_free_def cell_busy_def occupied_def cell_id_def)
    with occ xor_ok_ids [OF ok] n show False
      by (metis imageI)
  qed
  with k free find_cell_first_free that show thesis
    by blast
qed

text \<open>The state after \<^verbatim>\<open>storage[node] = key\<close> when probing stops at \<open>p\<close>.\<close>

definition put_cell :: "xor_storage \<Rightarrow> 16 word \<Rightarrow> NodeID \<Rightarrow> nat \<Rightarrow> xor_storage" where
  "put_cell s p n k = s\<lparr>xs_positions := (xs_positions s)(unat p :=
     \<lparr>hc_time = xs_current_timestamp s, hc_id = n, hc_key = k\<rparr>)\<rparr>"

lemma put_cell_simps [simp]:
  "xs_current_timestamp (put_cell s p n k) = xs_current_timestamp s"
  "xs_positions (put_cell s p n k) (unat q) =
     (if q = p then \<lparr>hc_time = xs_current_timestamp s, hc_id = n, hc_key = k\<rparr>
      else xs_positions s (unat q))"
  by (auto simp: put_cell_def word_unat_eq_iff)

lemma hash_cell_overwrite:
  "c\<lparr>hc_time := t, hc_id := n, hc_key := k\<rparr> = \<lparr>hc_time = t, hc_id = n, hc_key = k\<rparr>"
  by (cases c) simp

lemma xor_assign_put_cell:
  "find_cell fh s n = Some p \<Longrightarrow> xor_assign fh s n k = Some (put_cell s p n k)"
  by (simp add: xor_assign_def xor_ref_def put_cell_def hash_cell_overwrite)

lemma occupied_put_cell [simp]: "occupied (put_cell s p n k) = insert p (occupied s)"
  by (auto simp: occupied_def)

lemma cell_id_put_cell [simp]: "cell_id (put_cell s p n k) q = (if q = p then n else cell_id s q)"
  by (simp add: cell_id_def)

lemma first_free_put_cell:
  assumes "first_free (xs_positions s) (xs_current_timestamp s) m q k"
    and "\<And>j. j < k \<Longrightarrow> q + of_nat j \<noteq> p"
    and "q + of_nat k = p \<Longrightarrow> n = m"
  shows "first_free (xs_positions (put_cell s p n key)) (xs_current_timestamp s) m q k"
  using assms by (auto simp: first_free_def cell_busy_def)

lemma first_free_occupied:
  "first_free (xs_positions s) (xs_current_timestamp s) m q k \<Longrightarrow> j < k \<Longrightarrow> q + of_nat j \<in> occupied s"
  by (simp add: first_free_def cell_busy_def occupied_def)

lemma put_cell_times:
  assumes "\<forall>q. hc_time (xs_positions s q) \<le> t \<or> hc_time (xs_positions s q) = UINT_MAX"
    and "xs_current_timestamp s = t"
  shows "\<forall>q. hc_time (xs_positions (put_cell s p n k) q) \<le> t
    \<or> hc_time (xs_positions (put_cell s p n k) q) = UINT_MAX"
  using assms by (auto simp: put_cell_def)

text \<open>Assigning a node that has a cell already rewrites the key in that cell.\<close>

lemma put_cell_old:
  assumes ok: "xor_ok fh s U" and p: "p \<in> occupied s" "cell_id s p = n"
  shows "xor_ok fh (put_cell s p n k) U"
proof -
  have busy: "cell_busy (xs_positions (put_cell s p n k)) (xs_current_timestamp s) m q
     = cell_busy (xs_positions s) (xs_current_timestamp s) m q" for m q
    using p unfolding cell_busy_def occupied_def cell_id_def put_cell_simps by auto
  have same: "first_free (xs_positions (put_cell s p n k)) (xs_current_timestamp s) m q j
      = first_free (xs_positions s) (xs_current_timestamp s) m q j" for m q j
    unfolding first_free_def busy ..
  have id: "cell_id (put_cell s p n k) = cell_id s"
    using p(2) by (intro ext) simp
  have occ: "occupied (put_cell s p n k) = occupied s"
    using p(1) unfolding occupied_put_cell by (rule insert_absorb)
  show ?thesis
  proof (rule xor_okI, unfold same id occ put_cell_simps(1))
    fix m assume "m \<in> U"
    with ok show "\<exists>k<65536. first_free (xs_positions s) (xs_current_timestamp s) m (xor_fast_hash fh m) k
        \<and> xor_fast_hash fh m + of_nat k \<in> occupied s
        \<and> cell_id s (xor_fast_hash fh m + of_nat k) = m"
      by (blast elim: xor_ok_cell)
  qed (use ok xor_okD [OF ok] put_cell_times in auto)
qed

text \<open>Assigning a new node occupies the free cell where probing for it stops.\<close>

lemma put_cell_new:
  assumes ok: "xor_ok fh s U" and n: "n \<notin> U" and k: "k < 65536"
    and free: "first_free (xs_positions s) (xs_current_timestamp s) n (xor_fast_hash fh n) k"
    and p: "p = xor_fast_hash fh n + of_nat k" "p \<notin> occupied s"
  shows "xor_ok fh (put_cell s p n key) (insert n U)"
proof (rule xor_okI)
  let ?s = "put_cell s p n key"
  have id: "cell_id ?s q = cell_id s q" if "q \<in> occupied s" for q
    using that p(2) by (metis cell_id_put_cell)
  have "cell_id ?s ` occupied s = cell_id s ` occupied s"
    by (rule image_cong [OF refl id])
  also note xor_ok_ids [OF ok]
  finally have old: "cell_id ?s ` occupied s = U" .
  show "cell_id ?s ` occupied ?s = insert n U"
    unfolding occupied_put_cell image_insert old by simp
  have "inj_on (cell_id ?s) (occupied s)"
    by (rule inj_on_cong [THEN iffD2, OF id xor_ok_inj [OF ok]])
  moreover have "cell_id ?s p \<notin> cell_id ?s ` (occupied s - {p})"
    using old n by auto
  ultimately show "inj_on (cell_id ?s) (occupied ?s)"
    unfolding occupied_put_cell inj_on_insert ..
  show "xs_current_timestamp ?s < UINT_MAX"
    using xor_ok_stamp [OF ok] by simp
  show "hc_time (xs_positions ?s i) \<le> xs_current_timestamp ?s
      \<or> hc_time (xs_positions ?s i) = UINT_MAX" for i
    using put_cell_times [of s] xor_ok_times [OF ok] by simp
  show "\<exists>j<65536. first_free (xs_positions ?s) (xs_current_timestamp ?s) m (xor_fast_hash fh m) j
      \<and> xor_fast_hash fh m + of_nat j \<in> occupied ?s
      \<and> cell_id ?s (xor_fast_hash fh m + of_nat j) = m" if m: "m \<in> insert n U" for m
  proof (cases "m = n")
    case True
    have "first_free (xs_positions ?s) (xs_current_timestamp s) n (xor_fast_hash fh n) k"
      using first_free_put_cell [OF free, of p n key] first_free_occupied [OF free] p by blast
    with True k p show ?thesis by auto
  next
    case False
    with m ok obtain j where j: "j < 65536" "xor_fast_hash fh m + of_nat j \<in> occupied s"
      "cell_id s (xor_fast_hash fh m + of_nat j) = m"
      "first_free (xs_positions s) (xs_current_timestamp s) m (xor_fast_hash fh m) j"
      by (blast elim: xor_ok_cell)
    then have "first_free (xs_positions ?s) (xs_current_timestamp s) m (xor_fast_hash fh m) j"
      using first_free_put_cell [OF j(4), of p n key] first_free_occupied [OF j(4)] p(2) by metis
    with j p(2) show ?thesis by auto
  qed
qed

lemma peek_unchanged:
  assumes ok: "xor_ok fh s U" and ok': "xor_ok fh (put_cell s p n k) (insert n U)"
    and m: "m \<in> U" "m \<noteq> n" and p: "p \<in> occupied s \<Longrightarrow> cell_id s p = n"
  shows "xor_peek_index fh (put_cell s p n k) m = xor_peek_index fh s m"
proof -
  obtain q where q: "find_cell fh s m = Some q" "q \<in> occupied s" "cell_id s q = m"
    using find_cell_assigned [OF ok m(1)] .
  obtain q' where q': "find_cell fh (put_cell s p n k) m = Some q'"
    "q' \<in> occupied (put_cell s p n k)" "cell_id (put_cell s p n k) q' = m"
    using find_cell_assigned [OF ok'] m(1) by (metis insertI2)
  have "q \<noteq> p" and "q' \<noteq> p"
    using q q' p m(2) by auto
  moreover from q' \<open>q' \<noteq> p\<close> have "q' \<in> occupied s" "cell_id s q' = m"
    by auto
  with q have "q' = q"
    using inj_onD [OF xor_ok_inj [OF ok]] by metis
  ultimately show ?thesis
    using q(1) q'(1) by (simp add: xor_peek_index_def)
qed

lemma peek_assigned:
  assumes ok: "xor_ok fh (put_cell s p n k) U" and n: "n \<in> U"
  shows "xor_peek_index fh (put_cell s p n k) n = Some k"
proof -
  obtain q where q: "find_cell fh (put_cell s p n k) n = Some q"
    "q \<in> occupied (put_cell s p n k)" "cell_id (put_cell s p n k) q = n"
    using find_cell_assigned [OF ok n] .
  moreover have "p \<in> occupied (put_cell s p n k)" "cell_id (put_cell s p n k) p = n"
    by auto
  ultimately have "q = p"
    using inj_onD [OF xor_ok_inj [OF ok]] by metis
  with q(1) show ?thesis by (simp add: xor_peek_index_def)
qed

lemma xor_assign_law:
  assumes ok: "xor_ok fh s U" and lim: "xor_limit (insert n U)"
  shows "\<exists>s'. xor_assign fh s n k = Some s' \<and> xor_ok fh s' (insert n U)
    \<and> xor_peek_index fh s' n = Some k
    \<and> (\<forall>m \<in> U. m \<noteq> n \<longrightarrow> xor_peek_index fh s' m = xor_peek_index fh s m)
    \<and> xs_current_timestamp s' = xs_current_timestamp s"
proof -
  obtain p where p: "find_cell fh s n = Some p" "p \<in> occupied s \<Longrightarrow> cell_id s p = n"
    and ok': "xor_ok fh (put_cell s p n k) (insert n U)"
  proof (cases "n \<in> U")
    case True
    with find_cell_assigned [OF ok True] put_cell_old [OF ok] that show ?thesis
      by (metis insert_absorb)
  next
    case False
    with find_cell_fresh [OF ok False lim] put_cell_new [OF ok False] that show ?thesis
      by metis
  qed
  then show ?thesis
    using xor_assign_put_cell [OF p(1)] peek_unchanged [OF ok ok' _ _ p(2)] peek_assigned [OF ok']
    by auto
qed

lemma xor_ref_law:
  assumes "xor_ok fh s U" and "n \<in> U"
  shows "xor_ref fh s n = Some s"
proof -
  obtain p where p: "find_cell fh s n = Some p" "p \<in> occupied s" "cell_id s p = n"
    using find_cell_assigned [OF assms] .
  then have "(xs_positions s) (unat p)\<lparr>hc_time := xs_current_timestamp s, hc_id := n\<rparr>
      = xs_positions s (unat p)"
    by (simp add: occupied_def cell_id_def)
  with p(1) show ?thesis by (simp add: xor_ref_def)
qed

lemma xor_peek_law:
  assumes "xor_ok fh s U" and "xor_limit (insert n U)"
  shows "xor_peek_index fh s n \<noteq> None"
proof (cases "n \<in> U")
  case True
  with find_cell_assigned [OF assms(1)] obtain p where "find_cell fh s n = Some p"
    by blast
  then show ?thesis by (simp add: xor_peek_index_def)
next
  case False
  with find_cell_fresh [OF assms(1) _ assms(2)] obtain p where "find_cell fh s n = Some p"
    by blast
  then show ?thesis by (simp add: xor_peek_index_def)
qed

lemma xor_clear_law:
  assumes ok: "xor_ok fh s U" and t: "xs_current_timestamp s + 1 < UINT_MAX"
  shows "xor_ok fh (xor_Clear s) {} \<and> xs_current_timestamp (xor_Clear s) = xs_current_timestamp s + 1"
proof -
  have "(xs_current_timestamp s + 1) mod 2 ^ 32 = xs_current_timestamp s + 1"
    using t by (simp add: UINT_MAX_def)
  then have clear: "xor_Clear s = s\<lparr>xs_current_timestamp := xs_current_timestamp s + 1\<rparr>"
    using t by (simp add: xor_Clear_def)
  have times: "hc_time (xs_positions s p) \<le> xs_current_timestamp s
      \<or> hc_time (xs_positions s p) = UINT_MAX" for p
    by (rule xor_ok_times [OF ok])
  have "hc_time (xs_positions s p) \<noteq> xs_current_timestamp s + 1" for p
    using times [of p] t by auto
  then have "occupied (xor_Clear s) = {}"
    by (simp add: clear occupied_def)
  moreover have "xor_ok fh (xor_Clear s) {}"
    by (rule xor_okI) (use t times calculation in \<open>auto simp: clear le_Suc_eq\<close>)
  ultimately show ?thesis
    by (simp add: clear)
qed

interpretation xor_st: index_storage "XORFastHashStorage fh" "xor_ok fh" xor_limit
  "\<lambda>s c. xs_current_timestamp s + c < UINT_MAX"
proof unfold_locales
  fix s U n k
  assume "xor_ok fh s U" and "xor_limit (insert n U)"
  from xor_assign_law [OF this, of k] show "\<exists>s'. st_assign (XORFastHashStorage fh) s n k = Some s'
      \<and> xor_ok fh s' (insert n U) \<and> st_peek (XORFastHashStorage fh) s' n = Some k
      \<and> (\<forall>m\<in>U. m \<noteq> n \<longrightarrow> st_peek (XORFastHashStorage fh) s' m = st_peek (XORFastHashStorage fh) s m)
      \<and> (\<forall>c. xs_current_timestamp s + c < UINT_MAX \<longrightarrow> xs_current_timestamp s' + c < UINT_MAX)"
    by (auto simp: XORFastHashStorage_def)
next
  fix s U c
  assume "xor_ok fh s U" and "xs_current_timestamp s + Suc c < UINT_MAX"
  with xor_clear_law [of fh s U] show "xor_ok fh (st_clear (XORFastHashStorage fh) s) {}
      \<and> xs_current_timestamp (st_clear (XORFastHashStorage fh) s) + c < UINT_MAX"
    by (simp add: XORFastHashStorage_def)
next
  fix U V
  assume "xor_limit U" and "V \<subseteq> U"
  then show "xor_limit V"
    unfolding xor_limit_def by (meson card_mono finite_subset order_trans)
qed (auto simp: XORFastHashStorage_def xor_ref_law dest: xor_peek_law)

end
