(* ===== verification/Heap_Laws.thy ===== *)
theory Heap_Laws
  imports Heap_Order Xor_Fast_Hash
begin

text \<open>
  What a \<^verbatim>\<open>BinaryHeap\<close> promises to its clients, for every index storage that meets
  the contract \<open>index_storage\<close>. A heap is observed through three functions: the weight
  of every inserted node, its data, and the set of nodes that are still queued.
\<close>

section \<open>Observations and invariant\<close>

definition heap_keys :: "('d, 's) binary_heap \<Rightarrow> NodeID \<rightharpoonup> int" where
  "heap_keys h = map_of (map (\<lambda>x. (hn_node x, hn_weight x)) (inserted_nodes h))"

definition heap_data :: "('d, 's) binary_heap \<Rightarrow> NodeID \<rightharpoonup> 'd" where
  "heap_data h = map_of (map (\<lambda>x. (hn_node x, hn_data x)) (inserted_nodes h))"

definition heap_queue :: "('d, 's) binary_heap \<Rightarrow> NodeID set" where
  "heap_queue h = hn_node ` set (filter (\<lambda>x. hn_key x \<noteq> 0) (inserted_nodes h))"

definition heap_nodes :: "('d, 's) binary_heap \<Rightarrow> NodeID set" where
  "heap_nodes h = hn_node ` set (inserted_nodes h)"

text \<open>
  The part of the invariant that concerns the records and the index storage, and the whole
  invariant.
\<close>

definition heap_base :: "'s storage_ops \<Rightarrow> ('s \<Rightarrow> NodeID set \<Rightarrow> bool) \<Rightarrow> ('d, 's) binary_heap \<Rightarrow> bool" where
  "heap_base ops ok h \<longleftrightarrow>
     (\<forall>w \<in> set (map hn_weight (inserted_nodes h)). INT_MIN \<le> w)
     \<and> distinct (map hn_node (inserted_nodes h))
     \<and> ok (node_index h) (heap_nodes h)
     \<and> (\<forall>j < length (inserted_nodes h).
          st_peek ops (node_index h) (hn_node (inserted_nodes h ! j)) = Some j)"

definition heap_inv :: "'s storage_ops \<Rightarrow> ('s \<Rightarrow> NodeID set \<Rightarrow> bool) \<Rightarrow> ('d, 's) binary_heap \<Rightarrow> bool" where
  "heap_inv ops ok h \<longleftrightarrow>
     heap h \<noteq> [] \<and> W (heap h) 0 = INT_MIN
     \<and> ordered (heap h) \<and> linked (heap h) (inserted_nodes h) {}
     \<and> heap_base ops ok h"

lemma heap_invD:
  assumes "heap_inv ops ok h"
  shows "heap h \<noteq> []" and "W (heap h) 0 = INT_MIN" and "ordered (heap h)"
    and "linked (heap h) (inserted_nodes h) {}"
    and "x \<in> set (inserted_nodes h) \<Longrightarrow> INT_MIN \<le> hn_weight x"
    and "distinct (map hn_node (inserted_nodes h))"
    and "ok (node_index h) (heap_nodes h)"
    and "j < length (inserted_nodes h) \<Longrightarrow>
      st_peek ops (node_index h) (hn_node (inserted_nodes h ! j)) = Some j"
    and "heap_base ops ok h"
  using assms by (auto simp: heap_inv_def heap_base_def)

lemma dom_heap_keys [simp]: "dom (heap_keys h) = heap_nodes h"
  by (force simp: heap_keys_def heap_nodes_def dom_map_of_conv_image_fst)

lemma dom_heap_data [simp]: "dom (heap_data h) = heap_nodes h"
  by (force simp: heap_data_def heap_nodes_def dom_map_of_conv_image_fst)

lemma heap_queue_subset: "heap_queue h \<subseteq> heap_nodes h"
  by (auto simp: heap_queue_def heap_nodes_def)

lemma finite_heap_nodes [simp]: "finite (heap_nodes h)"
  by (simp add: heap_nodes_def)

lemma finite_heap_queue [simp]: "finite (heap_queue h)"
  using heap_queue_subset finite_heap_nodes by (rule finite_subset)

text \<open>Heaps whose records agree up to the positions look the same.\<close>

lemma same_view:
  fixes h h' :: "('d, 's) binary_heap"
  assumes "map record_view (inserted_nodes h) = map record_view (inserted_nodes h')"
  shows "heap_keys h = heap_keys h'" and "heap_data h = heap_data h'"
    and "heap_queue h = heap_queue h'" and "heap_nodes h = heap_nodes h'"
    and "map hn_node (inserted_nodes h) = map hn_node (inserted_nodes h')"
    and "map hn_weight (inserted_nodes h) = map hn_weight (inserted_nodes h')"
proof -
  let ?v = "map record_view (inserted_nodes h)" and ?v' = "map record_view (inserted_nodes h')"
  have keys: "heap_keys g = map_of (map (\<lambda>(n, w, d, q). (n, w)) (map record_view (inserted_nodes g)))"
    and data: "heap_data g = map_of (map (\<lambda>(n, w, d, q). (n, d)) (map record_view (inserted_nodes g)))"
    for g :: "('d, 's) binary_heap"
    by (simp_all add: heap_keys_def heap_data_def comp_def record_view_def)
  have queue: "heap_queue g = fst ` set (filter (\<lambda>(n, w, d, q). q) (map record_view (inserted_nodes g)))"
    for g :: "('d, 's) binary_heap"
    by (simp add: heap_queue_def record_view_def filter_map comp_def image_image)
  have proj: "map hn_node xs = map fst (map record_view xs)"
    "map hn_weight xs = map (fst \<circ> snd) (map record_view xs)" for xs :: "'d heap_node list"
    by (simp_all add: record_view_def)
  show "heap_keys h = heap_keys h'" and "heap_data h = heap_data h'"
    unfolding keys data assms by simp_all
  show "heap_queue h = heap_queue h'"
    unfolding queue assms by simp
  show nodes: "map hn_node (inserted_nodes h) = map hn_node (inserted_nodes h')"
    and "map hn_weight (inserted_nodes h) = map hn_weight (inserted_nodes h')"
    unfolding proj assms by simp_all
  show "heap_nodes h = heap_nodes h'"
    using arg_cong [OF nodes, of set] by (simp add: heap_nodes_def)
qed

lemma heap_keys_nth:
  assumes "distinct (map hn_node (inserted_nodes h))" and "j < length (inserted_nodes h)"
  shows "heap_keys h (hn_node (inserted_nodes h ! j)) = Some (hn_weight (inserted_nodes h ! j))"
    and "heap_data h (hn_node (inserted_nodes h ! j)) = Some (hn_data (inserted_nodes h ! j))"
  using assms
  by (auto simp: heap_keys_def heap_data_def comp_def intro!: map_of_is_SomeI)

lemma heap_node_index:
  assumes "n \<in> heap_nodes h"
  obtains j where "j < length (inserted_nodes h)" and "hn_node (inserted_nodes h ! j) = n"
  using assms by (auto simp: heap_nodes_def in_set_conv_nth)

lemma heap_queue_nth:
  assumes "distinct (map hn_node (inserted_nodes h))" and "j < length (inserted_nodes h)"
  shows "hn_node (inserted_nodes h ! j) \<in> heap_queue h \<longleftrightarrow> hn_key (inserted_nodes h ! j) \<noteq> 0"
proof
  assume "hn_node (inserted_nodes h ! j) \<in> heap_queue h"
  then obtain i where "i < length (inserted_nodes h)" "hn_key (inserted_nodes h ! i) \<noteq> 0"
    "hn_node (inserted_nodes h ! i) = hn_node (inserted_nodes h ! j)"
    by (auto simp: heap_queue_def in_set_conv_nth)
  with assms show "hn_key (inserted_nodes h ! j) \<noteq> 0"
    using nth_eq_iff_index_eq [of "map hn_node (inserted_nodes h)" i j] by simp
qed (use assms in \<open>auto simp: heap_queue_def\<close>)

lemma not_inserted: "n \<notin> heap_nodes h \<Longrightarrow> heap_keys h n = None \<and> heap_data h n = None"
  by (metis domIff dom_heap_keys dom_heap_data)

text \<open>Overwriting one record changes the observations at its node only.\<close>

lemma record_update:
  assumes d: "distinct (map hn_node (inserted_nodes h))" and j: "j < length (inserted_nodes h)"
    and n: "hn_node (inserted_nodes h ! j) = n" "hn_node x = n"
    and h': "inserted_nodes h' = (inserted_nodes h)[j := x]"
  shows "map hn_node (inserted_nodes h') = map hn_node (inserted_nodes h)"
    and "heap_nodes h' = heap_nodes h"
    and "heap_keys h' = (heap_keys h)(n \<mapsto> hn_weight x)"
    and "heap_data h' = (heap_data h)(n \<mapsto> hn_data x)"
    and "heap_queue h' = (if hn_key x \<noteq> 0 then insert n (heap_queue h) else heap_queue h - {n})"
proof -
  show nodes: "map hn_node (inserted_nodes h') = map hn_node (inserted_nodes h)"
    using j n by (simp add: h' map_update list_update_same_conv)
  then show hn: "heap_nodes h' = heap_nodes h"
    by (simp only: heap_nodes_def set_map [symmetric])
  have d': "distinct (map hn_node (inserted_nodes h'))"
    by (simp add: nodes d)
  have at: "heap_keys h' m = ((heap_keys h)(n \<mapsto> hn_weight x)) m
      \<and> heap_data h' m = ((heap_data h)(n \<mapsto> hn_data x)) m
      \<and> (m \<in> heap_queue h' \<longleftrightarrow> (if hn_key x \<noteq> 0 then m \<in> insert n (heap_queue h) else m \<in> heap_queue h - {n}))"
    for m
  proof (cases "m \<in> heap_nodes h")
    case True
    then obtain i where i: "i < length (inserted_nodes h)" "hn_node (inserted_nodes h ! i) = m"
      by (rule heap_node_index)
    then have "hn_node (inserted_nodes h' ! i) = m" "i < length (inserted_nodes h')"
      using n j by (auto simp: h' nth_list_update)
    moreover have "i = j \<longleftrightarrow> m = n"
      using i n(1) j nth_eq_iff_index_eq [OF d, of i j] by auto
    moreover have "inserted_nodes h' ! i = (if i = j then x else inserted_nodes h ! i)"
      using j i(1) by (simp add: h' nth_list_update)
    moreover note heap_keys_nth [OF d i(1)] heap_keys_nth [OF d', of i] heap_queue_nth [OF d i(1)]
      heap_queue_nth [OF d', of i]
    ultimately show ?thesis
      using i(2) by (cases "i = j") simp_all
  next
    case False
    then have "heap_keys h m = None" "heap_data h m = None" "heap_keys h' m = None" "heap_data h' m = None"
      "m \<notin> heap_queue h" "m \<notin> heap_queue h'"
      using hn heap_queue_subset [of h] heap_queue_subset [of h'] by (auto simp: not_inserted)
    moreover have "m \<noteq> n"
      using False j n(1) by (auto simp: heap_nodes_def)
    ultimately show ?thesis by simp
  qed
  show "heap_keys h' = (heap_keys h)(n \<mapsto> hn_weight x)" "heap_data h' = (heap_data h)(n \<mapsto> hn_data x)"
    by (rule ext, use at in blast)+
  show "heap_queue h' = (if hn_key x \<noteq> 0 then insert n (heap_queue h) else heap_queue h - {n})"
    by (rule set_eqI) (use at in \<open>simp split: if_splits\<close>)
qed

lemma heap_base_update:
  assumes base: "heap_base ops ok h" and j: "j < length (inserted_nodes h)"
    and n: "hn_node (inserted_nodes h ! j) = hn_node x" and w: "INT_MIN \<le> hn_weight x"
    and h': "inserted_nodes h' = (inserted_nodes h)[j := x]" "node_index h' = node_index h"
  shows "heap_base ops ok h'"
proof -
  note upd = record_update [OF _ j n refl h'(1)]
  have d: "distinct (map hn_node (inserted_nodes h))"
    using base by (simp add: heap_base_def)
  have node: "hn_node (inserted_nodes h' ! i) = hn_node (inserted_nodes h ! i)"
    if "i < length (inserted_nodes h)" for i
    using that n j by (auto simp: h' nth_list_update)
  have "INT_MIN \<le> y" if "y \<in> set (map hn_weight (inserted_nodes h'))" for y
    using that base w by (auto simp: h'(1) heap_base_def dest!: subsetD [OF set_update_subset_insert])
  then show ?thesis
    using base node upd(1,2) [OF d] by (simp add: heap_base_def h')
qed

lemma heap_base_view:
  assumes "heap_base ops ok h" and v: "map record_view (inserted_nodes h') = map record_view (inserted_nodes h)"
    and idx: "node_index h' = node_index h"
  shows "heap_base ops ok h'"
proof -
  note sv = same_view [OF v]
  have len: "length (inserted_nodes h') = length (inserted_nodes h)"
    using arg_cong [OF v, of length] by simp
  have node: "hn_node (inserted_nodes h' ! j) = hn_node (inserted_nodes h ! j)"
    if "j < length (inserted_nodes h)" for j
    using arg_cong [OF sv(5), of "\<lambda>xs. xs ! j"] that len by simp
  show ?thesis
    using assms(1) len node unfolding heap_base_def sv(4-6) idx by simp
qed

text \<open>A sifted heap satisfies the invariant again and looks the same.\<close>

lemma heap_inv_sifted:
  assumes "heap_base ops ok h" and "sifted (heap h) (inserted_nodes h) {} hp ins"
    and "heap h \<noteq> []" and "W (heap h) 0 = INT_MIN"
  shows "heap_inv ops ok (h\<lparr>heap := hp, inserted_nodes := ins\<rparr>)"
    and "heap_keys (h\<lparr>heap := hp, inserted_nodes := ins\<rparr>) = heap_keys h"
    and "heap_data (h\<lparr>heap := hp, inserted_nodes := ins\<rparr>) = heap_data h"
    and "heap_queue (h\<lparr>heap := hp, inserted_nodes := ins\<rparr>) = heap_queue h"
    and "CheckHeap (h\<lparr>heap := hp, inserted_nodes := ins\<rparr>) = Some ()"
proof -
  let ?h = "h\<lparr>heap := hp, inserted_nodes := ins\<rparr>"
  have v: "map record_view (inserted_nodes ?h) = map record_view (inserted_nodes h)"
    using assms(2) by (simp add: sifted_def)
  have "heap_base ops ok ?h"
    by (rule heap_base_view [OF assms(1) v]) simp
  moreover have "hp \<noteq> []" "W hp 0 = INT_MIN"
    using assms(2-4) by (auto simp: sifted_def)
  ultimately show "heap_inv ops ok ?h"
    using assms(2) by (simp add: heap_inv_def sifted_def)
  show "CheckHeap ?h = Some ()"
    using assms(2) by (intro CheckHeap_ordered) (simp add: sifted_def)
  show "heap_keys ?h = heap_keys h" "heap_data ?h = heap_data h" "heap_queue ?h = heap_queue h"
    by (rule same_view [OF v])+
qed

text \<open>The heap positions enumerate the queue.\<close>

definition pos_node :: "('d, 's) binary_heap \<Rightarrow> nat \<Rightarrow> NodeID" where
  "pos_node h i = hn_node (inserted_nodes h ! X (heap h) i)"

lemma pos_node_bij:
  assumes "heap_inv ops ok h"
  shows "bij_betw (pos_node h) {1..<length (heap h)} (heap_queue h)"
proof -
  note inv = heap_invD [OF assms]
  have "inj_on (pos_node h) {1..<length (heap h)}"
  proof (rule inj_onI)
    fix a b
    assume ab: "a \<in> {1..<length (heap h)}" "b \<in> {1..<length (heap h)}" "pos_node h a = pos_node h b"
    then have "X (heap h) a = X (heap h) b"
      using inv(6) linkedD(1) [OF inv(4), of a] linkedD(1) [OF inv(4), of b]
        nth_eq_iff_index_eq [of "map hn_node (inserted_nodes h)" "X (heap h) a" "X (heap h) b"]
      by (simp add: pos_node_def)
    with ab linked_inj [OF inv(4)] show "a = b"
      by auto
  qed
  moreover have "pos_node h ` {1..<length (heap h)} = heap_queue h"
  proof (intro equalityI subsetI)
    fix n assume "n \<in> pos_node h ` {1..<length (heap h)}"
    then obtain i where i: "1 \<le> i" "i < length (heap h)" "n = pos_node h i"
      by auto
    with linkedD(1,3) [OF inv(4) i(1,2)] heap_queue_nth [OF inv(6), of "X (heap h) i"]
    show "n \<in> heap_queue h"
      by (simp add: pos_node_def)
  next
    fix n assume "n \<in> heap_queue h"
    then obtain j where j: "j < length (inserted_nodes h)" "hn_node (inserted_nodes h ! j) = n"
      "hn_key (inserted_nodes h ! j) \<noteq> 0"
      by (auto simp: heap_queue_def in_set_conv_nth)
    with linked_backD [OF inv(4) j(1) _ j(3)] show "n \<in> pos_node h ` {1..<length (heap h)}"
      by (auto simp: pos_node_def intro!: image_eqI [of _ _ "hn_key (inserted_nodes h ! j)"])
  qed
  ultimately show ?thesis
    by (simp add: bij_betw_def)
qed

lemma queue_position:
  assumes "heap_inv ops ok h" and "n \<in> heap_queue h"
  obtains i where "1 \<le> i" and "i < length (heap h)" and "n = pos_node h i"
proof -
  have "n \<in> pos_node h ` {1..<length (heap h)}"
    using bij_betw_imp_surj_on [OF pos_node_bij [OF assms(1)]] assms(2) by simp
  then show thesis
    using that by (elim imageE) auto
qed

lemma Size_queue: "heap_inv ops ok h \<Longrightarrow> Size h = card (heap_queue h)"
  using bij_betw_same_card [OF pos_node_bij] by (fastforce simp: Size_def)

lemma Empty_queue: "heap_inv ops ok h \<Longrightarrow> Empty h \<longleftrightarrow> heap_queue h = {}"
  by (simp add: Empty_def Size_queue)

text \<open>Marking a detached record as removed.\<close>

lemma heap_inv_detach:
  assumes base: "heap_base ops ok h" and hp: "heap h \<noteq> []" "W (heap h) 0 = INT_MIN" "ordered (heap h)"
    and l: "linked (heap h) (inserted_nodes h) {r}" and r: "r < length (inserted_nodes h)"
  defines "h' \<equiv> h\<lparr>inserted_nodes := key_upd (inserted_nodes h) r 0\<rparr>"
  shows "heap_inv ops ok h'" and "heap_keys h' = heap_keys h" and "heap_data h' = heap_data h"
    and "heap_queue h' = heap_queue h - {hn_node (inserted_nodes h ! r)}"
    and "CheckHeap h' = Some ()"
proof -
  let ?x = "(inserted_nodes h ! r)\<lparr>hn_key := 0\<rparr>"
  have d: "distinct (map hn_node (inserted_nodes h))" and w: "INT_MIN \<le> hn_weight ?x"
    using base r by (auto simp: heap_base_def)
  have upd: "inserted_nodes h' = (inserted_nodes h)[r := ?x]"
    by (simp add: h'_def key_upd_def)
  note obs = record_update [OF d r refl _ upd]
  show "heap_keys h' = heap_keys h" "heap_data h' = heap_data h"
    "heap_queue h' = heap_queue h - {hn_node (inserted_nodes h ! r)}"
    using obs(3-5) heap_keys_nth [OF d r] by (simp_all add: fun_upd_idem)
  have "heap_base ops ok h'"
    by (rule heap_base_update [OF base r _ w upd]) (simp_all add: h'_def)
  then show "heap_inv ops ok h'"
    using hp linked_detach [OF l] by (simp add: heap_inv_def h'_def)
  show "CheckHeap h' = Some ()"
    using hp by (intro CheckHeap_ordered) (simp add: h'_def)
qed

lemma pos_node_key:
  assumes "heap_inv ops ok h" and "1 \<le> i" and "i < length (heap h)"
  shows "heap_keys h (pos_node h i) = Some (W (heap h) i)"
proof -
  note inv = heap_invD [OF assms(1)]
  from linkedD [OF inv(4) assms(2,3)] heap_keys_nth(1) [OF inv(6)] show ?thesis
    by (simp add: pos_node_def)
qed

section \<open>The laws\<close>

context index_storage
begin

abbreviation inv :: "('d, 's) binary_heap \<Rightarrow> bool" where
  "inv h \<equiv> heap_inv ops st_ok h"

lemma peek_inserted:
  assumes "inv h" and "n \<in> heap_nodes h"
  obtains j where "j < length (inserted_nodes h)" and "hn_node (inserted_nodes h ! j) = n"
    and "st_peek ops (node_index h) n = Some j"
    and "heap_keys h n = Some (hn_weight (inserted_nodes h ! j))"
    and "heap_data h n = Some (hn_data (inserted_nodes h ! j))"
    and "n \<in> heap_queue h \<longleftrightarrow> hn_key (inserted_nodes h ! j) \<noteq> 0"
proof -
  note i = heap_invD [OF assms(1)]
  obtain j where "j < length (inserted_nodes h)" "hn_node (inserted_nodes h ! j) = n"
    using heap_node_index [OF assms(2)] .
  with i(8) heap_keys_nth [OF i(6)] heap_queue_nth [OF i(6)] that show thesis
    by blast
qed

lemma Clear_law:
  assumes "inv h" and "st_clears (node_index h) (Suc c)"
  shows "inv (Clear ops h) \<and> heap_keys (Clear ops h) = Map.empty \<and> heap_data (Clear ops h) = Map.empty
    \<and> heap_queue (Clear ops h) = {} \<and> st_clears (node_index (Clear ops h)) c"
  using heap_invD(1,7) [OF assms(1)] clear [OF _ assms(2)]
  by (auto simp: Clear_def heap_inv_def heap_keys_def heap_data_def heap_queue_def heap_nodes_def
      ordered_def linked_def heap_base_def split: list.splits)

lemma new_law:
  assumes "st_ok (st_new ops sz) {}" and "st_clears (st_new ops sz) (Suc c)"
  shows "inv (BinaryHeap ops sz) \<and> heap_keys (BinaryHeap ops sz) = Map.empty
    \<and> heap_data (BinaryHeap ops sz) = Map.empty \<and> heap_queue (BinaryHeap ops sz) = {}
    \<and> st_clears (node_index (BinaryHeap ops sz)) c"
  using clear [OF assms]
  by (auto simp: BinaryHeap_def Clear_def heap_inv_def heap_keys_def heap_data_def heap_queue_def
      heap_nodes_def ordered_def linked_def heap_base_def)

lemma WasInserted_law:
  assumes "inv h" and "st_limit (insert n (heap_nodes h))"
  shows "WasInserted ops h n = Some (n \<in> heap_nodes h)"
proof (cases "n \<in> heap_nodes h")
  case True
  then obtain j where "j < length (inserted_nodes h)" "hn_node (inserted_nodes h ! j) = n"
    "st_peek ops (node_index h) n = Some j"
    using peek_inserted [OF assms(1)] by blast
  with True show ?thesis by (simp add: WasInserted_def)
next
  case False
  obtain i where "st_peek ops (node_index h) n = Some i"
    using peek_defined [OF heap_invD(7) [OF assms(1)] assms(2)] by blast
  with False show ?thesis
    by (auto simp: WasInserted_def heap_nodes_def)
qed

lemma GetKey_law:
  assumes "inv h" and "n \<in> heap_nodes h"
  shows "GetKey ops h n = Some (the (heap_keys h n), h)"
proof -
  obtain j where "j < length (inserted_nodes h)" "st_peek ops (node_index h) n = Some j"
    "heap_keys h n = Some (hn_weight (inserted_nodes h ! j))"
    using peek_inserted [OF assms] by blast
  with ref_assigned [OF heap_invD(7) [OF assms(1)] assms(2)] show ?thesis
    by (simp add: GetKey_def)
qed

lemma GetData_law:
  assumes "inv h" and "n \<in> heap_nodes h"
  shows "GetData ops h n = heap_data h n"
proof -
  obtain j where "j < length (inserted_nodes h)" "st_peek ops (node_index h) n = Some j"
    "heap_data h n = Some (hn_data (inserted_nodes h ! j))"
    using peek_inserted [OF assms] by blast
  then show ?thesis
    by (simp add: GetData_def)
qed

lemma WasRemoved_law:
  assumes "inv h" and "n \<in> heap_nodes h" and "st_limit (heap_nodes h)"
  shows "WasRemoved ops h n = Some (n \<notin> heap_queue h)"
proof -
  obtain j where "j < length (inserted_nodes h)" "st_peek ops (node_index h) n = Some j"
    "n \<in> heap_queue h \<longleftrightarrow> hn_key (inserted_nodes h ! j) \<noteq> 0"
    using peek_inserted [OF assms(1,2)] by blast
  moreover have "WasInserted ops h n = Some True"
    using WasInserted_law [OF assms(1), of n] assms(2,3) by (simp add: insert_absorb)
  ultimately show ?thesis
    by (simp add: WasRemoved_def)
qed

lemma Min_law:
  assumes "inv h" and "heap_queue h \<noteq> {}"
  shows "\<exists>n. Min_node h = Some n \<and> MinKey h = heap_keys h n \<and> n \<in> heap_queue h
    \<and> (\<forall>m \<in> heap_queue h. the (heap_keys h n) \<le> the (heap_keys h m))"
proof -
  note i = heap_invD [OF assms(1)] and bij = pos_node_bij [OF assms(1)]
  from assms Empty_queue [OF assms(1)] have len: "1 < length (heap h)"
    by (auto simp: Empty_def Size_def)
  have root: "heap_keys h (pos_node h 1) = Some (W (heap h) 1)" "pos_node h 1 \<in> heap_queue h"
    using pos_node_key [OF assms(1), of 1] bij_betwE [OF bij] len by auto
  have "the (heap_keys h (pos_node h 1)) \<le> the (heap_keys h m)" if m: "m \<in> heap_queue h" for m
  proof -
    obtain k where k: "1 \<le> k" "k < length (heap h)" "m = pos_node h k"
      using queue_position [OF assms(1) m] .
    then show ?thesis
      using root(1) pos_node_key [OF assms(1) k(1,2)] ordered_root_min [OF i(3) k(1,2)] by simp
  qed
  moreover have "Min_node h = Some (pos_node h 1)" "MinKey h = Some (W (heap h) 1)"
    using len linkedD(1) [OF i(4), of 1] by (auto simp: Min_node_def MinKey_def pos_node_def assert_opt_def)
  ultimately show ?thesis
    using root by auto
qed

lemma Insert_law:
  assumes "inv h" and "n \<notin> heap_nodes h" and "st_limit (insert n (heap_nodes h))" and "INT_MIN \<le> w"
  shows "\<exists>h'. Insert ops n w d h = Some h' \<and> inv h' \<and> heap_keys h' = (heap_keys h)(n \<mapsto> w)
    \<and> heap_data h' = (heap_data h)(n \<mapsto> d) \<and> heap_queue h' = insert n (heap_queue h)
    \<and> (\<forall>c. st_clears (node_index h) c \<longrightarrow> st_clears (node_index h') c)"
proof -
  note i = heap_invD [OF assms(1)]
  let ?k = "length (heap h)" and ?j = "length (inserted_nodes h)"
  let ?hp = "heap h @ [\<lparr>he_index = ?j, he_weight = w\<rparr>]"
  let ?ins = "inserted_nodes h @ [\<lparr>hn_node = n, hn_key = ?k, hn_weight = w, hn_data = d\<rparr>]"
  obtain s where s: "st_assign ops (node_index h) n ?j = Some s" "st_ok s (insert n (heap_nodes h))"
    "st_peek ops s n = Some ?j" "\<forall>m \<in> heap_nodes h. m \<noteq> n \<longrightarrow> st_peek ops s m = st_peek ops (node_index h) m"
    "\<forall>c. st_clears (node_index h) c \<longrightarrow> st_clears s c"
    using assign [OF i(7) assms(3)] by blast
  let ?h = "\<lparr>inserted_nodes = ?ins, heap = ?hp, node_index = s\<rparr>"
  have k: "1 \<le> ?k"
    using i(1) by (cases "heap h") auto
  have "linked ?hp ?ins {}"
    using i(4) k unfolding linked_def by (auto simp: nth_append less_Suc_eq)
  moreover have "ordered_up ?hp ?k"
    using i(3) by (auto simp: ordered_up_def ordered_def nth_append)
  moreover have "W ?hp 0 = INT_MIN"
    using i(1,2) by (simp add: nth_append)
  ultimately obtain hp' ins' where
    up: "Upheap ?k ?h = Some (?h\<lparr>heap := hp', inserted_nodes := ins'\<rparr>)"
    and sift: "sifted ?hp ?ins {} hp' ins'"
    using Upheap_correct [of ?h ?k] k assms(4) by auto
  have "st_peek ops s (hn_node (inserted_nodes h ! j)) = Some j" if "j < ?j" for j
    using s(4) i(8) [OF that] assms(2) nth_mem [OF that] by (auto simp: heap_nodes_def)
  then have "heap_base ops st_ok ?h"
    using i(5,6) assms(2,4) s(2,3) by (auto simp: heap_base_def heap_nodes_def nth_append less_Suc_eq)
  note final = heap_inv_sifted [OF this, of hp' ins']
  have keys: "heap_keys ?h = (heap_keys h)(n \<mapsto> w)" "heap_data ?h = (heap_data h)(n \<mapsto> d)"
    using assms(2) by (auto simp: heap_keys_def heap_data_def heap_nodes_def fun_eq_iff map_add_def
        split: option.splits dest!: map_of_SomeD)
  have queue: "heap_queue ?h = insert n (heap_queue h)"
    using k by (auto simp: heap_queue_def)
  show ?thesis
    using up s(1,5) final sift keys queue i(1) \<open>W ?hp 0 = INT_MIN\<close>
    by (simp add: Insert_def)
qed

lemma SetData_law:
  assumes "inv h" and "n \<in> heap_nodes h"
  shows "\<exists>h'. SetData ops h n d = Some h' \<and> inv h' \<and> heap_keys h' = heap_keys h
    \<and> heap_data h' = (heap_data h)(n \<mapsto> d) \<and> heap_queue h' = heap_queue h
    \<and> node_index h' = node_index h"
proof -
  note i = heap_invD [OF assms(1)]
  obtain j where j: "j < length (inserted_nodes h)" "hn_node (inserted_nodes h ! j) = n"
    "st_peek ops (node_index h) n = Some j"
    using peek_inserted [OF assms] by blast
  let ?x = "(inserted_nodes h ! j)\<lparr>hn_data := d\<rparr>"
  let ?h = "h\<lparr>inserted_nodes := (inserted_nodes h)[j := ?x]\<rparr>"
  note upd = record_update [OF i(6) j(1,2), of ?x ?h]
  have "heap_base ops st_ok ?h"
    using i(5) j by (intro heap_base_update [OF i(9) j(1), of ?x]) auto
  moreover have "linked (heap h) (inserted_nodes ?h) {}"
    using i(4) j(1) by (auto simp: linked_def nth_list_update)
  ultimately have "inv ?h"
    using i(1-3) by (simp add: heap_inv_def)
  moreover have "heap_keys ?h = heap_keys h" "heap_queue ?h = heap_queue h"
    using upd j heap_keys_nth(1) [OF i(6) j(1)] heap_queue_nth [OF i(6) j(1)]
    by (auto simp: fun_upd_idem)
  ultimately show ?thesis
    using j upd by (simp add: SetData_def)
qed

lemma DeleteMin_law:
  assumes "inv h" and "heap_queue h \<noteq> {}"
  shows "\<exists>n h'. DeleteMin h = Some (n, h') \<and> Min_node h = Some n \<and> inv h'
    \<and> heap_keys h' = heap_keys h \<and> heap_data h' = heap_data h
    \<and> heap_queue h' = heap_queue h - {n} \<and> node_index h' = node_index h"
proof -
  note i = heap_invD [OF assms(1)]
  from assms Empty_queue [OF assms(1)] have len: "1 < length (heap h)"
    by (auto simp: Empty_def Size_def)
  let ?hp = "heap h" and ?r = "X (heap h) 1"
  define hp1 where "hp1 = butlast (?hp[1 := ?hp ! (length ?hp - 1)])"
  have r: "?r < length (inserted_nodes h)"
    using linkedD(1) [OF i(4), of 1] len by simp
  have min: "Min_node h = Some (hn_node (inserted_nodes h ! ?r))"
    using len r by (simp add: Min_node_def)
  obtain hp2 ins2 where
    mid: "(if length hp1 > 1 then Downheap 1 (h\<lparr>heap := hp1\<rparr>) else Some (h\<lparr>heap := hp1\<rparr>))
        = Some (h\<lparr>heap := hp2, inserted_nodes := ins2\<rparr>)"
    and fin: "linked hp2 ins2 {?r}" "ordered hp2" "hp2 \<noteq> []" "W hp2 0 = INT_MIN"
      "map record_view ins2 = map record_view (inserted_nodes h)"
  proof (cases "length ?hp = 2")
    case True
    then have hp1: "hp1 = [?hp ! 0]"
      by (auto simp: hp1_def length_Suc_conv numeral_2_eq_2)
    have "linked [?hp ! 0] (inserted_nodes h) {?r}"
      using drop_only_root [OF i(4) True] by (simp only: hp1 [symmetric] hp1_def)
    with True hp1 i(2) that [of "inserted_nodes h" hp1] show thesis
      by (simp add: ordered_def)
  next
    case False
    with len have len2: "2 < length ?hp" by simp
    note root = drop_root [OF i(4,3) len2, folded hp1_def]
    from len2 root(4) have len1: "1 < length hp1" by simp
    with root(1,2) obtain hp2 ins2 where
      "Downheap 1 (h\<lparr>heap := hp1\<rparr>) = Some (h\<lparr>heap := hp1, heap := hp2, inserted_nodes := ins2\<rparr>)"
      "sifted hp1 (key_upd (inserted_nodes h) (X hp1 1) 1) {?r} hp2 ins2"
      using Downheap_correct [of "h\<lparr>heap := hp1\<rparr>" 1 "{?r}"] by auto
    with len1 root(3,5) i(2) that [of ins2 hp2] show thesis
      by (cases "hp2 = []") (auto simp: sifted_def)
  qed
  let ?h2 = "h\<lparr>heap := hp2, inserted_nodes := ins2\<rparr>"
  have v: "map record_view (inserted_nodes ?h2) = map record_view (inserted_nodes h)"
    using fin(5) by simp
  have r2: "?r < length (inserted_nodes ?h2)"
    using r arg_cong [OF v, of length] by simp
  have node: "hn_node (ins2 ! ?r) = hn_node (inserted_nodes h ! ?r)"
    using arg_cong [OF v, of "\<lambda>xs. xs ! ?r"] r r2 by (simp add: record_view_def)
  have base: "heap_base ops st_ok ?h2"
    by (rule heap_base_view [OF i(9) v]) simp
  note det = heap_inv_detach [OF base _ _ _ _ r2]
  have "DeleteMin h = do {
      h2 \<leftarrow> (if length hp1 > 1 then Downheap 1 (h\<lparr>heap := hp1\<rparr>) else Some (h\<lparr>heap := hp1\<rparr>));
      ins \<leftarrow> set_key (inserted_nodes h2) ?r 0;
      CheckHeap (h2\<lparr>inserted_nodes := ins\<rparr>);
      x \<leftarrow> nth_opt ins ?r;
      Some (hn_node x, h2\<lparr>inserted_nodes := ins\<rparr>)
    }"
    using len by (simp add: DeleteMin_def Let_def hp1_def)
  also have "\<dots> = Some (hn_node (inserted_nodes h ! ?r), ?h2\<lparr>inserted_nodes := key_upd ins2 ?r 0\<rparr>)"
    unfolding mid using det(5) fin r2 node by simp
  finally show ?thesis
    using min det(1-4) fin same_view [OF v] node by simp
qed

lemma DecreaseKey_law:
  assumes "inv h" and "n \<in> heap_queue h" and "INT_MIN \<le> w" and "w \<le> the (heap_keys h n)" and "n \<noteq> UINT_MAX"
  shows "\<exists>h'. DecreaseKey ops n w h = Some h' \<and> inv h' \<and> heap_keys h' = (heap_keys h)(n \<mapsto> w)
    \<and> heap_data h' = heap_data h \<and> heap_queue h' = heap_queue h \<and> node_index h' = node_index h"
proof -
  note i = heap_invD [OF assms(1)]
  obtain j where j: "j < length (inserted_nodes h)" "hn_node (inserted_nodes h ! j) = n"
    "st_peek ops (node_index h) n = Some j" "heap_keys h n = Some (hn_weight (inserted_nodes h ! j))"
    and key: "hn_key (inserted_nodes h ! j) \<noteq> 0"
    using peek_inserted [OF assms(1), of n] heap_queue_subset [of h] assms(2) by blast
  let ?k = "hn_key (inserted_nodes h ! j)" and ?x = "(inserted_nodes h ! j)\<lparr>hn_weight := w\<rparr>"
  let ?hp = "(heap h)[?k := (heap h ! ?k)\<lparr>he_weight := w\<rparr>]"
  let ?h = "h\<lparr>inserted_nodes := (inserted_nodes h)[j := ?x], heap := ?hp\<rparr>"
  have k: "1 \<le> ?k" "?k < length (heap h)" "X (heap h) ?k = j"
    using linked_backD [OF i(4) j(1)] key by auto
  have wk: "w \<le> W (heap h) ?k"
    using assms(4) j(4) k linkedD(4) [OF i(4) k(1,2)] by simp
  have nth: "?hp ! m = (if m = ?k then (heap h ! ?k)\<lparr>he_weight := w\<rparr> else heap h ! m)" if "m < length (heap h)" for m
    using that by (auto simp: nth_list_update)
  have "X (heap h) m = j \<longleftrightarrow> m = ?k" if "1 \<le> m" "m < length (heap h)" for m
    using linked_inj [OF i(4) that k(1,2)] k(3) by auto
  then have "linked ?hp (inserted_nodes ?h) {}"
    using i(4) j(1) k unfolding linked_def by (auto simp: nth nth_list_update)
  moreover have "ordered_up ?hp ?k"
    using decreased_ordered_up [OF i(3) k(1,2) wk] .
  moreover have sent: "W ?hp 0 = INT_MIN"
    using i(1,2) k(1) by simp
  ultimately obtain hp' ins' where
    up: "Upheap ?k ?h = Some (?h\<lparr>heap := hp', inserted_nodes := ins'\<rparr>)"
    and sift: "sifted ?hp (inserted_nodes ?h) {} hp' ins'"
    using Upheap_correct [of ?h ?k] k assms(3) by auto
  have base: "heap_base ops st_ok ?h"
    using j assms(3) by (intro heap_base_update [OF i(9) j(1), of ?x]) auto
  note final = heap_inv_sifted [OF base, of hp' ins']
  have "heap_keys ?h = (heap_keys h)(n \<mapsto> w)" "heap_data ?h = heap_data h" "heap_queue ?h = heap_queue h"
    using record_update [OF i(6) j(1,2), of ?x ?h] j(2) key assms(2) heap_keys_nth(2) [OF i(6) j(1)]
    by (simp_all add: fun_upd_idem insert_absorb)
  then show ?thesis
    using up final sift sent i(1) j(1,3) k(2) assms(5) by (simp add: DecreaseKey_def Let_def)
qed

lemma DeleteAll_law:
  assumes "inv h"
  shows "\<exists>h'. DeleteAll h = Some h' \<and> inv h' \<and> heap_keys h' = heap_keys h \<and> heap_data h' = heap_data h
    \<and> heap_queue h' = {} \<and> node_index h' = node_index h"
proof -
  note i = heap_invD [OF assms]
  let ?h = "h\<lparr>inserted_nodes := map (\<lambda>x. x\<lparr>hn_key := 0\<rparr>) (inserted_nodes h),
      heap := [(heap h ! 0)\<lparr>he_weight := INT_MIN\<rparr>]\<rparr>"
  have "DeleteAll h = Some ?h"
    using reset_all [OF i(4)] i(1) by (simp add: DeleteAll_def)
  moreover have "heap_base ops st_ok ?h"
    using i(9) by (simp add: heap_base_def heap_nodes_def comp_def image_image)
  then have "inv ?h"
    by (simp add: heap_inv_def ordered_def linked_def)
  moreover have "heap_keys ?h = heap_keys h" "heap_data ?h = heap_data h" "heap_queue ?h = {}"
    by (auto simp: heap_keys_def heap_data_def heap_queue_def comp_def filter_map)
  ultimately show ?thesis
    by simp
qed

end

end
