(* ===== verification/Routing_Base.thy ===== *)
theory Routing_Base
  imports Heap_Laws Static_Graph "HOL-Library.Product_Lexorder"
begin

text \<open>
  \<^verbatim>\<open>routing_algorithms/routing_base.hpp\<close>: the bidirectional search on the contracted
  graph. The facade's graph interface forwards to a \<^verbatim>\<open>StaticGraph\<close> of
  \<^verbatim>\<open>QueryEdge::EdgeData\<close>; the heaps are \<^verbatim>\<open>SearchEngineData::QueryHeap\<close>. Reference
  arguments of the C++ functions are returned. Loops whose end is a theorem and not obvious
  from the text are partial functions into \<open>option\<close>.
\<close>

section \<open>Data\<close>

record query_edge_data =
  qe_id :: NodeID
  qe_shortcut :: bool
  qe_distance :: EdgeWeight
  qe_forward :: bool
  qe_backward :: bool

type_synonym query_graph = "query_edge_data static_graph"

text \<open>
  \<^verbatim>\<open>HeapData\<close> has the single field \<^verbatim>\<open>parent\<close>, so that the data of a heap node is a node.
  The keys of the index storage are of type \<^verbatim>\<open>int\<close>.
\<close>

type_synonym query_heap = "(NodeID, NodeID \<rightharpoonup> nat) binary_heap"

definition query_storage :: "(NodeID \<rightharpoonup> nat) storage_ops" where
  "query_storage = UnorderedMapStorage (nat INT_MAX)"

section \<open>One step of the search\<close>

text \<open>The bound after node \<open>node\<close> was settled at \<open>distance\<close>.\<close>

definition meet_update ::
  "query_heap \<Rightarrow> NodeID \<Rightarrow> int \<Rightarrow> NodeID \<Rightarrow> int \<Rightarrow> (query_heap \<times> NodeID \<times> int) option" where
  "meet_update reverse_heap node distance middle_node_id upper_bound = do {
     inserted \<leftarrow> WasInserted query_storage reverse_heap node;
     (if inserted then do {
        (key, reverse_heap) \<leftarrow> GetKey query_storage reverse_heap node;
        let new_distance = key + distance;
        Some (if new_distance < upper_bound \<and> new_distance \<ge> 0
              then (reverse_heap, node, new_distance)
              else (reverse_heap, middle_node_id, upper_bound))
      }
      else Some (reverse_heap, middle_node_id, upper_bound))
   }"

text \<open>Stalling: is \<open>node\<close> reached cheaper through a node that was seen already?\<close>

primrec stall_loop ::
  "query_graph \<Rightarrow> bool \<Rightarrow> int \<Rightarrow> EdgeID list \<Rightarrow> query_heap \<Rightarrow> (bool \<times> query_heap) option" where
  "stall_loop g forward_direction distance [] forward_heap = Some (False, forward_heap)"
| "stall_loop g forward_direction distance (edge # edges) forward_heap = do {
     data \<leftarrow> sg_GetEdgeData g edge;
     let reverse_flag = (if \<not> forward_direction then qe_forward data else qe_backward data);
     (if reverse_flag then do {
        to \<leftarrow> sg_GetTarget g edge;
        let edge_weight = qe_distance data;
        assert_opt (edge_weight > 0);
        inserted \<leftarrow> WasInserted query_storage forward_heap to;
        (if inserted then do {
           (key, forward_heap) \<leftarrow> GetKey query_storage forward_heap to;
           (if key + edge_weight < distance then Some (True, forward_heap)
            else stall_loop g forward_direction distance edges forward_heap)
         }
         else stall_loop g forward_direction distance edges forward_heap)
      }
      else stall_loop g forward_direction distance edges forward_heap)
   }"

definition relax_edge ::
  "query_graph \<Rightarrow> bool \<Rightarrow> NodeID \<Rightarrow> int \<Rightarrow> EdgeID \<Rightarrow> query_heap \<Rightarrow> query_heap option" where
  "relax_edge g forward_direction node distance edge forward_heap = do {
     data \<leftarrow> sg_GetEdgeData g edge;
     (if (if forward_direction then qe_forward data else qe_backward data) then do {
        to \<leftarrow> sg_GetTarget g edge;
        let edge_weight = qe_distance data;
        assert_opt (edge_weight > 0);
        let to_distance = distance + edge_weight;
        inserted \<leftarrow> WasInserted query_storage forward_heap to;
        (if \<not> inserted then Insert query_storage to to_distance node forward_heap
         else do {
           (key, forward_heap) \<leftarrow> GetKey query_storage forward_heap to;
           (if to_distance < key then do {
              forward_heap \<leftarrow> SetData query_storage forward_heap to node;
              DecreaseKey query_storage to to_distance forward_heap
            }
            else Some forward_heap)
         })
      }
      else Some forward_heap)
   }"

definition RoutingStep ::
  "query_graph \<Rightarrow> query_heap \<Rightarrow> query_heap \<Rightarrow> NodeID \<Rightarrow> int \<Rightarrow> int \<Rightarrow> bool \<Rightarrow> bool
   \<Rightarrow> (query_heap \<times> query_heap \<times> NodeID \<times> int) option" where
  "RoutingStep g forward_heap reverse_heap middle_node_id upper_bound min_edge_offset
      forward_direction stalling = do {
     (node, forward_heap) \<leftarrow> DeleteMin forward_heap;
     (distance, forward_heap) \<leftarrow> GetKey query_storage forward_heap node;
     (reverse_heap, middle_node_id, upper_bound) \<leftarrow>
       meet_update reverse_heap node distance middle_node_id upper_bound;
     assert_opt (min_edge_offset \<le> 0);
     (if distance + min_edge_offset > upper_bound then do {
        forward_heap \<leftarrow> DeleteAll forward_heap;
        Some (forward_heap, reverse_heap, middle_node_id, upper_bound)
      }
      else do {
        (stalled, forward_heap) \<leftarrow>
          (if stalling then do {
             edges \<leftarrow> sg_GetAdjacentEdgeRange g node;
             stall_loop g forward_direction distance edges forward_heap
           }
           else Some (False, forward_heap));
        (if stalled then Some (forward_heap, reverse_heap, middle_node_id, upper_bound)
         else do {
           edges \<leftarrow> sg_GetAdjacentEdgeRange g node;
           forward_heap \<leftarrow> foldM (relax_edge g forward_direction node distance) edges forward_heap;
           Some (forward_heap, reverse_heap, middle_node_id, upper_bound)
         })
      })
   }"

section \<open>Paths from the heaps\<close>

partial_function (option) packed_path_loop :: "query_heap \<Rightarrow> NodeID \<Rightarrow> NodeID list \<Rightarrow> NodeID list option" where
  "packed_path_loop search_heap current_node_id packed_path = do {
     p \<leftarrow> GetData query_storage search_heap current_node_id;
     (if current_node_id \<noteq> p then packed_path_loop search_heap p (packed_path @ [p])
      else Some packed_path)
   }"

definition RetrievePackedPathFromSingleHeap ::
  "query_heap \<Rightarrow> NodeID \<Rightarrow> NodeID list \<Rightarrow> NodeID list option" where
  "RetrievePackedPathFromSingleHeap search_heap middle_node_id packed_path =
     packed_path_loop search_heap middle_node_id packed_path"

definition RetrievePackedPathFromHeap ::
  "query_heap \<Rightarrow> query_heap \<Rightarrow> NodeID \<Rightarrow> NodeID list \<Rightarrow> NodeID list option" where
  "RetrievePackedPathFromHeap forward_heap reverse_heap middle_node_id packed_path = do {
     packed_path \<leftarrow> RetrievePackedPathFromSingleHeap forward_heap middle_node_id packed_path;
     let packed_path = rev packed_path @ [middle_node_id];
     RetrievePackedPathFromSingleHeap reverse_heap middle_node_id packed_path
   }"

section \<open>Unpacking\<close>

text \<open>
  The cheapest edge between two nodes that is usable from the first to the second: among
  the edges at \<open>s\<close> the forward ones, and only if there is none among the edges at
  \<open>t\<close> the backward ones.
\<close>

primrec smaller_edge_loop ::
  "query_graph \<Rightarrow> NodeID \<Rightarrow> (query_edge_data \<Rightarrow> bool) \<Rightarrow> EdgeID list \<Rightarrow> EdgeID \<times> EdgeWeight
   \<Rightarrow> (EdgeID \<times> EdgeWeight) option" where
  "smaller_edge_loop g t flag [] s = Some s"
| "smaller_edge_loop g t flag (edge_id # edges) s = do {
     data \<leftarrow> sg_GetEdgeData g edge_id;
     target \<leftarrow> sg_GetTarget g edge_id;
     smaller_edge_loop g t flag edges
       (if target = t \<and> qe_distance data < snd s \<and> flag data then (edge_id, qe_distance data) else s)
   }"

definition find_smaller_edge :: "query_graph \<Rightarrow> NodeID \<Rightarrow> NodeID \<Rightarrow> (EdgeID \<times> EdgeWeight) option" where
  "find_smaller_edge g s t = do {
     edges \<leftarrow> sg_GetAdjacentEdgeRange g s;
     (smaller_edge_id, edge_weight) \<leftarrow> smaller_edge_loop g t qe_forward edges (SPECIAL_EDGEID, INT_MAX);
     (if SPECIAL_EDGEID = smaller_edge_id then do {
        edges \<leftarrow> sg_GetAdjacentEdgeRange g t;
        smaller_edge_loop g s qe_backward edges (smaller_edge_id, edge_weight)
      }
      else Some (smaller_edge_id, edge_weight))
   }"

text \<open>The explicit recursion stack; its top is the head of the list.\<close>

partial_function (option) unpack_edge_loop ::
  "query_graph \<Rightarrow> (NodeID \<times> NodeID) list \<Rightarrow> NodeID list \<Rightarrow> NodeID list option" where
  "unpack_edge_loop g recursion_stack unpacked_path =
     (case recursion_stack of
        [] \<Rightarrow> Some unpacked_path
      | edge # recursion_stack \<Rightarrow> do {
          (smaller_edge_id, edge_weight) \<leftarrow> find_smaller_edge g (fst edge) (snd edge);
          assert_opt (edge_weight \<noteq> INT_MAX);
          ed \<leftarrow> sg_GetEdgeData g smaller_edge_id;
          (if qe_shortcut ed
           then unpack_edge_loop g ((fst edge, qe_id ed) # (qe_id ed, snd edge) # recursion_stack) unpacked_path
           else unpack_edge_loop g recursion_stack (unpacked_path @ [fst edge]))
        })"

definition UnpackEdge :: "query_graph \<Rightarrow> NodeID \<Rightarrow> NodeID \<Rightarrow> NodeID list \<Rightarrow> NodeID list option" where
  "UnpackEdge g s t unpacked_path = do {
     unpacked_path \<leftarrow> unpack_edge_loop g [(s, t)] unpacked_path;
     Some (unpacked_path @ [t])
   }"

section \<open>The searches\<close>

type_synonym search_state = "query_heap \<times> query_heap \<times> NodeID \<times> int"

definition search_round :: "query_graph \<Rightarrow> int \<Rightarrow> bool \<Rightarrow> search_state \<Rightarrow> search_state option" where
  "search_round g min_edge_offset stalling = (\<lambda>(forward_heap, reverse_heap, middle, distance). do {
     (forward_heap, reverse_heap, middle, distance) \<leftarrow>
       (if \<not> Empty forward_heap
        then RoutingStep g forward_heap reverse_heap middle distance min_edge_offset True stalling
        else Some (forward_heap, reverse_heap, middle, distance));
     (if \<not> Empty reverse_heap then do {
        (reverse_heap, forward_heap, middle, distance) \<leftarrow>
          RoutingStep g reverse_heap forward_heap middle distance min_edge_offset False stalling;
        Some (forward_heap, reverse_heap, middle, distance)
      }
      else Some (forward_heap, reverse_heap, middle, distance))
   })"

partial_function (option) search_loop :: "query_graph \<Rightarrow> int \<Rightarrow> search_state \<Rightarrow> search_state option" where
  "search_loop g min_edge_offset s =
     (if 0 < Size (fst s) + Size (fst (snd s))
      then search_round g min_edge_offset True s \<bind> search_loop g min_edge_offset
      else Some s)"

definition Search ::
  "query_graph \<Rightarrow> query_heap \<Rightarrow> query_heap \<Rightarrow> int \<Rightarrow> NodeID list
   \<Rightarrow> (query_heap \<times> query_heap \<times> int \<times> NodeID list) option" where
  "Search g forward_heap reverse_heap distance packed_leg = do {
     fmin \<leftarrow> MinKey forward_heap;
     let min_edge_offset = min 0 fmin;
     assert_opt (min_edge_offset \<le> 0);
     rmin \<leftarrow> MinKey reverse_heap;
     assert_opt (rmin \<ge> 0);
     (forward_heap, reverse_heap, middle, distance) \<leftarrow>
       search_loop g min_edge_offset (forward_heap, reverse_heap, SPECIAL_NODEID, distance);
     (if INVALID_EDGE_WEIGHT = distance \<or> SPECIAL_NODEID = middle
      then Some (forward_heap, reverse_heap, distance, packed_leg)
      else do {
        packed_leg \<leftarrow> RetrievePackedPathFromHeap forward_heap reverse_heap middle packed_leg;
        Some (forward_heap, reverse_heap, distance, packed_leg)
      })
   }"

text \<open>
  \<^verbatim>\<open>SearchWithCore\<close>. The nodes that were not contracted form the core; a search that
  meets a core node parks it as an entry point, and the core is searched afterwards.
\<close>

type_synonym entry_points = "(NodeID \<times> EdgeWeight) list"

definition park_core_node :: "query_heap \<Rightarrow> entry_points \<Rightarrow> (query_heap \<times> entry_points) option" where
  "park_core_node h entry_points = do {
     (node, h) \<leftarrow> DeleteMin h;
     (key, h) \<leftarrow> GetKey query_storage h node;
     Some (h, entry_points @ [(node, key)])
   }"

definition core_round ::
  "query_graph \<Rightarrow> (NodeID \<Rightarrow> bool) \<Rightarrow> int \<Rightarrow> search_state \<times> entry_points \<times> entry_points
   \<Rightarrow> (search_state \<times> entry_points \<times> entry_points) option" where
  "core_round g IsCoreNode min_edge_offset =
    (\<lambda>((forward_heap, reverse_heap, middle, distance), forward_entry_points, reverse_entry_points). do {
     ((forward_heap, reverse_heap, middle, distance), forward_entry_points) \<leftarrow>
       (if \<not> Empty forward_heap then do {
          n \<leftarrow> Min_node forward_heap;
          (if IsCoreNode n then do {
             (forward_heap, forward_entry_points) \<leftarrow> park_core_node forward_heap forward_entry_points;
             Some ((forward_heap, reverse_heap, middle, distance), forward_entry_points)
           }
           else do {
             s \<leftarrow> RoutingStep g forward_heap reverse_heap middle distance min_edge_offset True True;
             Some (s, forward_entry_points)
           })
        }
        else Some ((forward_heap, reverse_heap, middle, distance), forward_entry_points));
     (if \<not> Empty reverse_heap then do {
        n \<leftarrow> Min_node reverse_heap;
        (if IsCoreNode n then do {
           (reverse_heap, reverse_entry_points) \<leftarrow> park_core_node reverse_heap reverse_entry_points;
           Some ((forward_heap, reverse_heap, middle, distance), forward_entry_points, reverse_entry_points)
         }
         else do {
           (reverse_heap, forward_heap, middle, distance) \<leftarrow>
             RoutingStep g reverse_heap forward_heap middle distance min_edge_offset False True;
           Some ((forward_heap, reverse_heap, middle, distance), forward_entry_points, reverse_entry_points)
         })
      }
      else Some ((forward_heap, reverse_heap, middle, distance), forward_entry_points, reverse_entry_points))
   })"

partial_function (option) core_loop ::
  "query_graph \<Rightarrow> (NodeID \<Rightarrow> bool) \<Rightarrow> int \<Rightarrow> search_state \<times> entry_points \<times> entry_points
   \<Rightarrow> (search_state \<times> entry_points \<times> entry_points) option" where
  "core_loop g IsCoreNode min_edge_offset s =
     (if 0 < Size (fst (fst s)) + Size (fst (snd (fst s)))
      then core_round g IsCoreNode min_edge_offset s \<bind> core_loop g IsCoreNode min_edge_offset
      else Some s)"

text \<open>Inserting the sorted entry points, the cheapest one of every node.\<close>

primrec insert_entry_points :: "entry_points \<Rightarrow> NodeID \<Rightarrow> query_heap \<Rightarrow> query_heap option" where
  "insert_entry_points [] last_id h = Some h"
| "insert_entry_points (p # ps) last_id h =
     (if fst p = last_id then insert_entry_points ps last_id h
      else do {
        h \<leftarrow> Insert query_storage (fst p) (snd p) (fst p) h;
        insert_entry_points ps (fst p) h
      })"

definition core_edge_offset :: "query_heap \<Rightarrow> query_heap \<Rightarrow> int option" where
  "core_edge_offset forward_core_heap reverse_core_heap = do {
     let offset = 0;
     offset \<leftarrow> (if Size forward_core_heap > 0 then do {
         k \<leftarrow> MinKey forward_core_heap; Some (min offset k) } else Some offset);
     (if Size reverse_core_heap > 0 then do {
        k \<leftarrow> MinKey reverse_core_heap;
        Some (if k < 0 then min offset k else offset)
      }
      else Some offset)
   }"

partial_function (option) search_core_loop :: "query_graph \<Rightarrow> int \<Rightarrow> search_state \<Rightarrow> search_state option" where
  "search_core_loop g min_edge_offset s = do {
     more \<leftarrow>
       (if 0 < Size (fst s) + Size (fst (snd s)) then do {
          f \<leftarrow> MinKey (fst s);
          r \<leftarrow> MinKey (fst (snd s));
          Some (snd (snd (snd s)) > f + r)
        }
        else Some False);
     (if more then search_round g min_edge_offset False s \<bind> search_core_loop g min_edge_offset
      else Some s)
   }"

definition retrieve_core_path ::
  "(NodeID \<Rightarrow> bool) \<Rightarrow> query_heap \<Rightarrow> query_heap \<Rightarrow> query_heap \<Rightarrow> query_heap \<Rightarrow> NodeID
   \<Rightarrow> NodeID list \<Rightarrow> NodeID list option" where
  "retrieve_core_path IsCoreNode forward_heap reverse_heap forward_core_heap reverse_core_heap middle packed_leg =
     (if IsCoreNode middle then do {
        packed_core_leg \<leftarrow> RetrievePackedPathFromHeap forward_core_heap reverse_core_heap middle [];
        assert_opt (packed_core_leg \<noteq> []);
        packed_leg \<leftarrow> RetrievePackedPathFromSingleHeap forward_heap (hd packed_core_leg) packed_leg;
        let packed_leg = rev packed_leg @ packed_core_leg;
        RetrievePackedPathFromSingleHeap reverse_heap (last packed_core_leg) packed_leg
      }
      else RetrievePackedPathFromHeap forward_heap reverse_heap middle packed_leg)"

definition SearchWithCore ::
  "query_graph \<Rightarrow> (NodeID \<Rightarrow> bool) \<Rightarrow> query_heap \<Rightarrow> query_heap \<Rightarrow> query_heap \<Rightarrow> query_heap \<Rightarrow> int
   \<Rightarrow> NodeID list \<Rightarrow> (int \<times> NodeID list) option" where
  "SearchWithCore g IsCoreNode forward_heap reverse_heap forward_core_heap reverse_core_heap distance packed_leg = do {
     fmin \<leftarrow> MinKey forward_heap;
     let min_edge_offset = min 0 fmin;
     rmin \<leftarrow> MinKey reverse_heap;
     assert_opt (rmin \<ge> 0);
     ((forward_heap, reverse_heap, middle, distance), forward_entry_points, reverse_entry_points) \<leftarrow>
       core_loop g IsCoreNode min_edge_offset ((forward_heap, reverse_heap, SPECIAL_NODEID, distance), [], []);
     forward_core_heap \<leftarrow> insert_entry_points (sort forward_entry_points) SPECIAL_NODEID forward_core_heap;
     reverse_core_heap \<leftarrow> insert_entry_points (sort reverse_entry_points) SPECIAL_NODEID reverse_core_heap;
     min_core_edge_offset \<leftarrow> core_edge_offset forward_core_heap reverse_core_heap;
     assert_opt (min_core_edge_offset \<le> 0);
     (forward_core_heap, reverse_core_heap, middle, distance) \<leftarrow>
       search_core_loop g min_core_edge_offset (forward_core_heap, reverse_core_heap, middle, distance);
     (if INVALID_EDGE_WEIGHT = distance \<or> SPECIAL_NODEID = middle then Some (distance, packed_leg)
      else do {
        packed_leg \<leftarrow> retrieve_core_path IsCoreNode forward_heap reverse_heap
          forward_core_heap reverse_core_heap middle packed_leg;
        Some (distance, packed_leg)
      })
   }"

end
