(* ===== verification/Heap_Instances.thy ===== *)
theory Heap_Instances
  imports Heap_Laws
begin

text \<open>
  The heap laws at the storages the program uses: \<^verbatim>\<open>UnorderedMapStorage\<close> is the storage
  of the query heaps (\<^verbatim>\<open>SearchEngineData::QueryHeap\<close>), \<^verbatim>\<open>XORFastHashStorage\<close> the
  one of the contractor's heap. The theorems restate the laws of the locale
  \<open>index_storage\<close> over the definitions of the model.
\<close>

section \<open>A heap to evaluate the theorems at\<close>

definition sample_heap :: "(unit, NodeID \<rightharpoonup> nat) binary_heap" where
  "sample_heap = \<lparr>
     inserted_nodes = [\<lparr>hn_node = 7, hn_key = 2, hn_weight = 5, hn_data = ()\<rparr>,
       \<lparr>hn_node = 9, hn_key = 1, hn_weight = 3, hn_data = ()\<rparr>,
       \<lparr>hn_node = 4, hn_key = 0, hn_weight = 1, hn_data = ()\<rparr>],
     heap = [\<lparr>he_index = 0, he_weight = INT_MIN\<rparr>, \<lparr>he_index = 1, he_weight = 3\<rparr>,
       \<lparr>he_index = 0, he_weight = 5\<rparr>],
     node_index = [7 \<mapsto> 0, 9 \<mapsto> 1, 4 \<mapsto> 2]\<rparr>"

lemma sample_heap_simps:
  "heap_nodes sample_heap = {7, 9, 4}" "heap_queue sample_heap = {7, 9}"
  "heap_keys sample_heap = [7 \<mapsto> 5, 9 \<mapsto> 3, 4 \<mapsto> 1]"
  by (auto simp: sample_heap_def heap_nodes_def heap_queue_def heap_keys_def fun_eq_iff)

lemma sample_heap_inv: "heap_inv (UnorderedMapStorage km) map_ok sample_heap"
  by (auto simp: sample_heap_def heap_inv_def heap_base_def heap_nodes_def ordered_def linked_def
      map_ok_def UnorderedMapStorage_def INT_MIN_def less_Suc_eq nth_Cons split: nat.splits)

section \<open>The query heaps\<close>

text \<open>
  C1: \<^verbatim>\<open>Insert\<close> of a node that is not yet in the heap succeeds (no access out of range,
  the loop of \<^verbatim>\<open>Upheap\<close> ends, the debug check passes), keeps the invariant, and adds
  exactly this node with its weight and data to the queue.
\<close>

theorem Insert_correct:
  assumes "heap_inv (UnorderedMapStorage km) map_ok h" and "n \<notin> heap_nodes h" and "INT_MIN \<le> w"
  shows "\<exists>h'. Insert (UnorderedMapStorage km) n w d h = Some h'
    \<and> heap_inv (UnorderedMapStorage km) map_ok h'
    \<and> heap_keys h' = (heap_keys h)(n \<mapsto> w) \<and> heap_data h' = (heap_data h)(n \<mapsto> d)
    \<and> heap_queue h' = insert n (heap_queue h)"
  using umap.Insert_law [OF assms(1,2) TrueI assms(3), of d] by blast

theorem Insert_correct_witness:
  "\<exists>h'. Insert (UnorderedMapStorage 0) 3 4 () sample_heap = Some h'
    \<and> heap_inv (UnorderedMapStorage 0) map_ok h'
    \<and> heap_keys h' = (heap_keys sample_heap)(3 \<mapsto> 4) \<and> heap_data h' = (heap_data sample_heap)(3 \<mapsto> ())
    \<and> heap_queue h' = insert 3 (heap_queue sample_heap)"
  by (rule Insert_correct [OF sample_heap_inv]) (simp_all add: sample_heap_simps INT_MIN_def)

text \<open>
  C2: \<^verbatim>\<open>DeleteMin\<close> on a non-empty heap succeeds and returns a queued node of least
  weight, the one that \<^verbatim>\<open>Min\<close> and \<^verbatim>\<open>MinKey\<close> announce; it removes this node from the
  queue, keeps every recorded weight and datum, and keeps the invariant.
\<close>

theorem DeleteMin_correct:
  assumes "heap_inv (UnorderedMapStorage km) map_ok h" and "\<not> Empty h"
  shows "\<exists>n h'. DeleteMin h = Some (n, h') \<and> Min_node h = Some n \<and> MinKey h = heap_keys h n
    \<and> n \<in> heap_queue h \<and> (\<forall>m \<in> heap_queue h. the (heap_keys h n) \<le> the (heap_keys h m))
    \<and> heap_inv (UnorderedMapStorage km) map_ok h' \<and> heap_keys h' = heap_keys h
    \<and> heap_data h' = heap_data h \<and> heap_queue h' = heap_queue h - {n}"
proof -
  have "heap_queue h \<noteq> {}"
    using assms(2) Empty_queue [OF assms(1)] by simp
  from umap.DeleteMin_law [OF assms(1) this] umap.Min_law [OF assms(1) this] show ?thesis
    by auto
qed

theorem DeleteMin_correct_witness:
  "\<exists>n h'. DeleteMin sample_heap = Some (n, h') \<and> Min_node sample_heap = Some n
    \<and> MinKey sample_heap = heap_keys sample_heap n \<and> n \<in> heap_queue sample_heap
    \<and> (\<forall>m \<in> heap_queue sample_heap. the (heap_keys sample_heap n) \<le> the (heap_keys sample_heap m))
    \<and> heap_inv (UnorderedMapStorage 0) map_ok h' \<and> heap_keys h' = heap_keys sample_heap
    \<and> heap_data h' = heap_data sample_heap \<and> heap_queue h' = heap_queue sample_heap - {n}"
  by (rule DeleteMin_correct [OF sample_heap_inv]) (simp add: sample_heap_def Empty_def Size_def)

text \<open>
  C3: \<^verbatim>\<open>DecreaseKey\<close> of a queued node to a weight that is not larger succeeds, changes
  the weight of this node only and keeps the invariant.
\<close>

theorem DecreaseKey_correct:
  assumes "heap_inv (UnorderedMapStorage km) map_ok h" and "n \<in> heap_queue h"
    and "INT_MIN \<le> w" and "w \<le> the (heap_keys h n)" and "n \<noteq> UINT_MAX"
  shows "\<exists>h'. DecreaseKey (UnorderedMapStorage km) n w h = Some h'
    \<and> heap_inv (UnorderedMapStorage km) map_ok h' \<and> heap_keys h' = (heap_keys h)(n \<mapsto> w)
    \<and> heap_data h' = heap_data h \<and> heap_queue h' = heap_queue h"
  using umap.DecreaseKey_law [OF assms] by blast

theorem DecreaseKey_correct_witness:
  "\<exists>h'. DecreaseKey (UnorderedMapStorage 0) 7 2 sample_heap = Some h'
    \<and> heap_inv (UnorderedMapStorage 0) map_ok h' \<and> heap_keys h' = (heap_keys sample_heap)(7 \<mapsto> 2)
    \<and> heap_data h' = heap_data sample_heap \<and> heap_queue h' = heap_queue sample_heap"
  by (rule DecreaseKey_correct [OF sample_heap_inv])
     (simp_all add: sample_heap_simps INT_MIN_def UINT_MAX_def)

text \<open>
  C4: \<^verbatim>\<open>WasInserted\<close>, \<^verbatim>\<open>WasRemoved\<close>, \<^verbatim>\<open>GetKey\<close> and \<^verbatim>\<open>GetData\<close> answer
  according to the history of the heap; \<^verbatim>\<open>WasInserted\<close> is right for every node, also
  for one whose index in the storage is stale.
\<close>

theorem heap_queries_correct:
  assumes "heap_inv (UnorderedMapStorage km) map_ok h"
  shows "WasInserted (UnorderedMapStorage km) h n = Some (n \<in> heap_nodes h)
    \<and> (n \<in> heap_nodes h \<longrightarrow> WasRemoved (UnorderedMapStorage km) h n = Some (n \<notin> heap_queue h)
        \<and> GetKey (UnorderedMapStorage km) h n = Some (the (heap_keys h n), h)
        \<and> GetData (UnorderedMapStorage km) h n = heap_data h n)"
  using umap.WasInserted_law [OF assms TrueI] umap.WasRemoved_law [OF assms _ TrueI]
    umap.GetKey_law [OF assms] umap.GetData_law [OF assms] by blast

theorem heap_queries_correct_witness:
  "WasInserted (UnorderedMapStorage 0) sample_heap 4 = Some True
    \<and> WasRemoved (UnorderedMapStorage 0) sample_heap 4 = Some True
    \<and> GetKey (UnorderedMapStorage 0) sample_heap 4 = Some (1, sample_heap)"
  using heap_queries_correct [OF sample_heap_inv, of 0 4] by (simp add: sample_heap_simps)

section \<open>The heap of the contractor\<close>

text \<open>
  C5: on the hashed storage, \<^verbatim>\<open>Insert\<close> succeeds as long as at most 65536 distinct nodes
  were inserted since the last \<^verbatim>\<open>Clear\<close>: every probe sequence ends at a free cell or
  at the cell of the node, whatever the two shuffled tables are.
\<close>

theorem Insert_xor_correct:
  assumes "heap_inv (XORFastHashStorage fh) (xor_ok fh) h" and "n \<notin> heap_nodes h"
    and "card (heap_nodes h) < 65536" and "INT_MIN \<le> w"
  shows "\<exists>h'. Insert (XORFastHashStorage fh) n w d h = Some h'
    \<and> heap_inv (XORFastHashStorage fh) (xor_ok fh) h'
    \<and> heap_keys h' = (heap_keys h)(n \<mapsto> w) \<and> heap_data h' = (heap_data h)(n \<mapsto> d)
    \<and> heap_queue h' = insert n (heap_queue h)"
proof -
  have "finite (heap_nodes h)"
    by (simp add: heap_nodes_def)
  with assms(2,3) have "xor_limit (insert n (heap_nodes h))"
    by (simp add: xor_limit_def)
  from xor_st.Insert_law [OF assms(1,2) this assms(4), of d] show ?thesis by blast
qed

lemma xor_ok_new: "xor_ok fh xor_storage_new {}"
  by (rule xor_okI) (auto simp: xor_storage_new_def HashCell_def occupied_def UINT_MAX_def)

lemma xor_new_heap:
  "heap_inv (XORFastHashStorage fh) (xor_ok fh) (BinaryHeap (XORFastHashStorage fh) sz)"
  "heap_nodes (BinaryHeap (XORFastHashStorage fh) sz) = {}"
proof -
  have "xor_ok fh (st_new (XORFastHashStorage fh) sz) {}"
    "xs_current_timestamp (st_new (XORFastHashStorage fh) sz) + Suc 0 < UINT_MAX"
    by (simp_all add: XORFastHashStorage_def xor_ok_new) (simp add: xor_storage_new_def UINT_MAX_def)
  from xor_st.new_law [OF this]
  show "heap_inv (XORFastHashStorage fh) (xor_ok fh) (BinaryHeap (XORFastHashStorage fh) sz)" by blast
  show "heap_nodes (BinaryHeap (XORFastHashStorage fh) sz) = {}"
    by (simp add: heap_nodes_def BinaryHeap_def Clear_def)
qed

theorem Insert_xor_correct_witness:
  "\<exists>h'. Insert (XORFastHashStorage (XORFastHash id id)) 3 4 ()
      (BinaryHeap (XORFastHashStorage (XORFastHash id id)) 0) = Some h'
    \<and> heap_inv (XORFastHashStorage (XORFastHash id id)) (xor_ok (XORFastHash id id)) h'
    \<and> heap_keys h' = (heap_keys (BinaryHeap (XORFastHashStorage (XORFastHash id id)) 0 :: (unit, xor_storage) binary_heap))(3 \<mapsto> 4)
    \<and> heap_data h' = (heap_data (BinaryHeap (XORFastHashStorage (XORFastHash id id)) 0))(3 \<mapsto> ())
    \<and> heap_queue h' = insert 3 (heap_queue (BinaryHeap (XORFastHashStorage (XORFastHash id id)) 0 :: (unit, xor_storage) binary_heap))"
  by (rule Insert_xor_correct [OF xor_new_heap(1)]) (simp_all add: xor_new_heap INT_MIN_def)

text \<open>
  C6: the 32-bit time stamp of the hashed storage is not handled at its maximum. The
  \<^verbatim>\<open>Clear\<close> that reaches it resets every cell to this very time stamp, so that every
  cell counts as occupied, and from then on every lookup of a node other than
  \<^verbatim>\<open>UINT_MAX\<close> probes forever.
\<close>

theorem xor_Clear_wraparound:
  assumes "xs_current_timestamp s + 1 = UINT_MAX" and "n \<noteq> UINT_MAX"
  shows "xor_peek_index fh (xor_Clear s) n = None \<and> xor_ref fh (xor_Clear s) n = None"
proof -
  have "xor_Clear s = \<lparr>xs_positions = (\<lambda>_. HashCell), xs_current_timestamp = UINT_MAX\<rparr>"
    using assms(1) by (simp add: xor_Clear_def UINT_MAX_def)
  moreover have "find_cell fh \<lparr>xs_positions = (\<lambda>_. HashCell), xs_current_timestamp = UINT_MAX\<rparr> n = None"
    unfolding find_cell_def using assms(2) by (intro probe_all_busy) (simp add: cell_busy_def HashCell_def)
  ultimately show ?thesis
    by (simp add: xor_peek_index_def xor_ref_def)
qed

theorem xor_Clear_wraparound_witness:
  "xor_peek_index (XORFastHash id id) (xor_Clear (xor_storage_new\<lparr>xs_current_timestamp := 4294967294\<rparr>)) 0 = None"
  using xor_Clear_wraparound [of "xor_storage_new\<lparr>xs_current_timestamp := 4294967294\<rparr>" 0]
  by (simp add: UINT_MAX_def)

end
