(* ===== verification/Routing_Laws.thy ===== *)
theory Routing_Laws
  imports Routing_Base Heap_Instances
begin

text \<open>
  What one step of the search does. A search heap records, for every node it has seen, the
  length of a real path from one of its start nodes; settled nodes never get a smaller key
  again, and parents are always settled. All of it is an invariant of \<^verbatim>\<open>RoutingStep\<close>.
\<close>

section \<open>The heap laws for query heaps\<close>

abbreviation qinv :: "query_heap \<Rightarrow> bool" where
  "qinv h \<equiv> heap_inv query_storage map_ok h"

lemmas q_WasInserted = umap.WasInserted_law [where key_max = "nat INT_MAX", OF _ TrueI, folded query_storage_def]
lemmas q_GetKey = umap.GetKey_law [where key_max = "nat INT_MAX", folded query_storage_def]
lemmas q_GetData = umap.GetData_law [where key_max = "nat INT_MAX", folded query_storage_def]
lemmas q_Insert = umap.Insert_law [where key_max = "nat INT_MAX", OF _ _ TrueI, folded query_storage_def]
lemmas q_SetData = umap.SetData_law [where key_max = "nat INT_MAX", folded query_storage_def]
lemmas q_DecreaseKey = umap.DecreaseKey_law [where key_max = "nat INT_MAX", folded query_storage_def]
lemmas q_DeleteMin = umap.DeleteMin_law [where key_max = "nat INT_MAX", folded query_storage_def]
lemmas q_Min = umap.Min_law [where key_max = "nat INT_MAX", folded query_storage_def]
lemmas q_DeleteAll = umap.DeleteAll_law [where key_max = "nat INT_MAX", folded query_storage_def]

abbreviation key :: "query_heap \<Rightarrow> NodeID \<Rightarrow> int" where
  "key h v \<equiv> the (heap_keys h v)"

abbreviation par :: "query_heap \<Rightarrow> NodeID \<Rightarrow> NodeID" where
  "par h v \<equiv> the (heap_data h v)"

abbreviation removed :: "query_heap \<Rightarrow> NodeID set" where
  "removed h \<equiv> heap_nodes h - heap_queue h"

lemma heap_nodes_keys: "heap_nodes h = dom (heap_keys h)"
  by simp

lemma key_lower: "heap_inv ops ok h \<Longrightarrow> v \<in> heap_nodes h \<Longrightarrow> INT_MIN \<le> the (heap_keys h v)"
proof -
  assume inv: "heap_inv ops ok h" and v: "v \<in> heap_nodes h"
  obtain j where j: "j < length (inserted_nodes h)" "hn_node (inserted_nodes h ! j) = v"
    using heap_node_index [OF v] .
  with heap_keys_nth(1) [OF heap_invD(6) [OF inv] j(1)] heap_invD(5) [OF inv] show ?thesis
    by auto
qed

section \<open>The query graph\<close>

definition query_graph_ok :: "query_graph \<Rightarrow> bool" where
  "query_graph_ok g \<longleftrightarrow> sg_ok g \<and> sg_number_of_nodes g \<le> UINT_MAX
     \<and> length (sg_edge_array g) \<le> SPECIAL_EDGEID
     \<and> (\<forall>x \<in> set (sg_edge_array g). ee_target x < sg_number_of_nodes g
          \<and> (qe_forward (ee_data x) \<or> qe_backward (ee_data x) \<longrightarrow> 0 < qe_distance (ee_data x)))"

text \<open>
  \<open>qedge g dir u v w\<close>: at \<open>u\<close> an edge to \<open>v\<close> of weight \<open>w\<close> is stored that
  the search in direction \<open>dir\<close> relaxes. A backward search relaxes the edges that can be
  travelled from \<open>v\<close> to \<open>u\<close>.
\<close>

definition qedge :: "query_graph \<Rightarrow> bool \<Rightarrow> NodeID \<Rightarrow> NodeID \<Rightarrow> int \<Rightarrow> bool" where
  "qedge g dir u v w \<longleftrightarrow> u < sg_number_of_nodes g \<and>
     (\<exists>i \<in> set (sg_range g u). ee_target (sg_edge_array g ! i) = v
        \<and> (if dir then qe_forward (ee_data (sg_edge_array g ! i)) else qe_backward (ee_data (sg_edge_array g ! i)))
        \<and> qe_distance (ee_data (sg_edge_array g ! i)) = w)"

lemma query_graph_range:
  assumes "query_graph_ok g" and "u < sg_number_of_nodes g"
  shows "sg_GetAdjacentEdgeRange g u = Some (sg_range g u)"
    and "i \<in> set (sg_range g u) \<Longrightarrow> sg_GetEdgeData g i = Some (ee_data (sg_edge_array g ! i))"
    and "i \<in> set (sg_range g u) \<Longrightarrow> sg_GetTarget g i = Some (ee_target (sg_edge_array g ! i))"
    and "i \<in> set (sg_range g u) \<Longrightarrow> ee_target (sg_edge_array g ! i) < sg_number_of_nodes g"
    and "i \<in> set (sg_range g u) \<Longrightarrow>
      qe_forward (ee_data (sg_edge_array g ! i)) \<or> qe_backward (ee_data (sg_edge_array g ! i)) \<Longrightarrow>
      0 < qe_distance (ee_data (sg_edge_array g ! i))"
proof -
  have ok: "sg_ok g"
    using assms(1) by (simp add: query_graph_ok_def)
  note r = sg_ok_range [OF ok assms(2)]
  show "sg_GetAdjacentEdgeRange g u = Some (sg_range g u)"
    by (rule r(1))
  assume "i \<in> set (sg_range g u)"
  note i = r(2) [OF this]
  show "sg_GetEdgeData g i = Some (ee_data (sg_edge_array g ! i))"
    "sg_GetTarget g i = Some (ee_target (sg_edge_array g ! i))"
    using i by (simp_all add: sg_GetEdgeData_def sg_GetTarget_def)
  show "ee_target (sg_edge_array g ! i) < sg_number_of_nodes g"
    "qe_forward (ee_data (sg_edge_array g ! i)) \<or> qe_backward (ee_data (sg_edge_array g ! i)) \<Longrightarrow>
      0 < qe_distance (ee_data (sg_edge_array g ! i))"
    using assms(1) i by (auto simp: query_graph_ok_def)
qed

lemma qedgeD:
  assumes "query_graph_ok g" and "qedge g dir u v w"
  shows "u < sg_number_of_nodes g" and "v < sg_number_of_nodes g" and "0 < w"
  using assms query_graph_range(4,5) [OF assms(1)] by (auto simp: qedge_def split: if_splits)

section \<open>The search invariant\<close>

text \<open>
  \<open>S\<close> gives the start nodes with their initial keys. Every node is either a start node
  with its initial key or reached by an edge from its parent, which is settled.
\<close>

definition search_inv :: "query_graph \<Rightarrow> bool \<Rightarrow> (NodeID \<rightharpoonup> int) \<Rightarrow> query_heap \<Rightarrow> bool" where
  "search_inv g dir S h \<longleftrightarrow> qinv h \<and> heap_nodes h \<subseteq> {..<sg_number_of_nodes g}
     \<and> (\<forall>v \<in> dom S. v \<in> heap_nodes h \<and> key h v \<le> the (S v))
     \<and> (\<forall>v \<in> heap_nodes h. par h v = v \<and> S v = Some (key h v)
          \<or> par h v \<in> removed h \<and> (\<exists>w. qedge g dir (par h v) v w \<and> key h v = key h (par h v) + w))
     \<and> (\<forall>r \<in> removed h. \<forall>q \<in> heap_queue h. key h r \<le> key h q)"

lemma search_invD:
  assumes "search_inv g dir S h"
  shows "qinv h" and "heap_nodes h \<subseteq> {..<sg_number_of_nodes g}"
    and "S v = Some s \<Longrightarrow> v \<in> heap_nodes h \<and> key h v \<le> s"
    and "v \<in> heap_nodes h \<Longrightarrow> par h v = v \<and> S v = Some (key h v)
          \<or> par h v \<in> removed h \<and> (\<exists>w. qedge g dir (par h v) v w \<and> key h v = key h (par h v) + w)"
    and "r \<in> removed h \<Longrightarrow> q \<in> heap_queue h \<Longrightarrow> key h r \<le> key h q"
proof -
  show "S v = Some s \<Longrightarrow> v \<in> heap_nodes h \<and> key h v \<le> s"
    using assms unfolding search_inv_def by (metis domI option.sel)
qed (use assms in \<open>simp_all add: search_inv_def\<close>)

lemma search_invI:
  assumes "qinv h" and "heap_nodes h \<subseteq> {..<sg_number_of_nodes g}"
    and "\<And>v s. S v = Some s \<Longrightarrow> v \<in> heap_nodes h \<and> key h v \<le> s"
    and "\<And>v. v \<in> heap_nodes h \<Longrightarrow> par h v = v \<and> S v = Some (key h v)
          \<or> par h v \<in> removed h \<and> (\<exists>w. qedge g dir (par h v) v w \<and> key h v = key h (par h v) + w)"
    and "\<And>r q. r \<in> removed h \<Longrightarrow> q \<in> heap_queue h \<Longrightarrow> key h r \<le> key h q"
  shows "search_inv g dir S h"
  unfolding search_inv_def using assms by fastforce

text \<open>
  While \<open>node\<close> is being relaxed: it is settled at \<open>dist\<close>, the other settled nodes are
  not farther away and the queued ones not nearer.
\<close>

definition relaxing :: "query_graph \<Rightarrow> bool \<Rightarrow> (NodeID \<rightharpoonup> int) \<Rightarrow> NodeID \<Rightarrow> int \<Rightarrow> query_heap \<Rightarrow> bool" where
  "relaxing g dir S node dist h \<longleftrightarrow> search_inv g dir S h \<and> node \<in> removed h \<and> key h node = dist
     \<and> (\<forall>r \<in> removed h. key h r \<le> dist) \<and> (\<forall>q \<in> heap_queue h. dist \<le> key h q)"

lemma relaxingD:
  assumes "relaxing g dir S node dist h"
  shows "search_inv g dir S h" and "node \<in> removed h" and "key h node = dist"
    and "r \<in> removed h \<Longrightarrow> key h r \<le> dist" and "q \<in> heap_queue h \<Longrightarrow> dist \<le> key h q"
  using assms by (simp_all add: relaxing_def)

text \<open>The heap only learns: more nodes, smaller keys, and nothing new about settled nodes.\<close>

definition grows :: "query_heap \<Rightarrow> query_heap \<Rightarrow> bool" where
  "grows h h' \<longleftrightarrow> heap_nodes h \<subseteq> heap_nodes h' \<and> removed h' = removed h
     \<and> (\<forall>v \<in> heap_nodes h. key h' v \<le> key h v) \<and> (\<forall>r \<in> removed h. key h' r = key h r)"

lemma grows_refl [simp]: "grows h h"
  by (simp add: grows_def)

lemma grows_trans: "grows h h1 \<Longrightarrow> grows h1 h2 \<Longrightarrow> grows h h2"
  unfolding grows_def by (metis order_trans subset_eq)

section \<open>Relaxation\<close>

text \<open>A new or improved label of \<open>t\<close> through \<open>node\<close>.\<close>

lemma relabel:
  assumes rel: "relaxing g dir S node dist h" and ok: "query_graph_ok g" and edge: "qedge g dir node t w"
    and h': "qinv h'" "heap_keys h' = (heap_keys h)(t \<mapsto> dist + w)" "heap_data h' = (heap_data h)(t \<mapsto> node)"
      "heap_queue h' = insert t (heap_queue h)"
    and t: "t \<notin> removed h" and better: "t \<in> heap_nodes h \<Longrightarrow> dist + w < key h t"
  shows "relaxing g dir S node dist h'" and "grows h h'"
proof -
  note D = relaxingD [OF rel] and I = search_invD [OF relaxingD(1) [OF rel]] and E = qedgeD [OF ok edge]
  have nodes: "heap_nodes h' = insert t (heap_nodes h)"
    unfolding heap_nodes_keys h'(2) by auto
  have rem: "removed h' = removed h"
    using t unfolding nodes h'(4) by auto
  have key': "key h' v = (if v = t then dist + w else key h v)" and par': "par h' v = (if v = t then node else par h v)" for v
    by (simp_all add: h'(2,3))
  have tn: "t \<noteq> node"
    using t D(2) by auto
  show "grows h h'"
  proof -
    have "heap_nodes h \<subseteq> heap_nodes h'" "\<forall>v \<in> heap_nodes h. key h' v \<le> key h v" "\<forall>r \<in> removed h. key h' r = key h r"
      using better t by (auto simp: nodes key')
    with rem show ?thesis unfolding grows_def by blast
  qed
  have "search_inv g dir S h'"
  proof (rule search_invI)
    show "qinv h'" by fact
    show "heap_nodes h' \<subseteq> {..<sg_number_of_nodes g}"
      using I(2) E(2) by (simp add: nodes)
    show "v \<in> heap_nodes h' \<and> key h' v \<le> s" if "S v = Some s" for v s
      using I(3) [OF that] better by (auto simp: nodes key')
    show "par h' v = v \<and> S v = Some (key h' v) \<or>
        par h' v \<in> removed h' \<and> (\<exists>w. qedge g dir (par h' v) v w \<and> key h' v = key h' (par h' v) + w)"
      if "v \<in> heap_nodes h'" for v
    proof (cases "v = t")
      case True
      then show ?thesis
        using edge D(2,3) tn by (auto simp: rem key' par')
    next
      case False
      with that have "v \<in> heap_nodes h" by (simp add: nodes)
      from I(4) [OF this] False t show ?thesis
        unfolding rem by (auto simp: key' par')
    qed
    show "key h' r \<le> key h' q" if "r \<in> removed h'" "q \<in> heap_queue h'" for r q
      using that I(5) [of r q] D(4) [of r] E(3) t unfolding rem by (auto simp: key' h'(4))
  qed
  then show "relaxing g dir S node dist h'"
    using D tn t E(3) unfolding relaxing_def rem by (auto simp: key' h'(4))
qed

lemma relax_edge_law:
  assumes rel: "relaxing g dir S node dist h" and ok: "query_graph_ok g" and i: "i \<in> set (sg_range g node)"
  shows "\<exists>h'. relax_edge g dir node dist i h = Some h' \<and> relaxing g dir S node dist h' \<and> grows h h'
    \<and> ((if dir then qe_forward (ee_data (sg_edge_array g ! i)) else qe_backward (ee_data (sg_edge_array g ! i))) \<longrightarrow>
        ee_target (sg_edge_array g ! i) \<in> heap_nodes h'
        \<and> key h' (ee_target (sg_edge_array g ! i)) \<le> dist + qe_distance (ee_data (sg_edge_array g ! i)))"
proof -
  note D = relaxingD [OF rel] and I = search_invD [OF relaxingD(1) [OF rel]]
  let ?x = "sg_edge_array g ! i"
  let ?t = "ee_target ?x" and ?w = "qe_distance (ee_data ?x)"
  let ?flag = "if dir then qe_forward (ee_data ?x) else qe_backward (ee_data ?x)"
  have node: "node < sg_number_of_nodes g"
    using D(2) I(2) by auto
  note G = query_graph_range [OF ok node]
  show ?thesis
  proof (cases ?flag)
    case False
    then show ?thesis
      using rel G(2) [OF i] by (simp add: relax_edge_def)
  next
    case True
    have edge: "qedge g dir node ?t ?w"
      using True i node unfolding qedge_def by blast
    note E = qedgeD [OF ok edge]
    have low: "INT_MIN \<le> dist + ?w"
      using key_lower [OF I(1), of node] D(2,3) E(3) by simp
    have run: "relax_edge g dir node dist i h =
        (if ?t \<notin> heap_nodes h then Insert query_storage ?t (dist + ?w) node h
         else if dist + ?w < key h ?t then SetData query_storage h ?t node \<bind> DecreaseKey query_storage ?t (dist + ?w)
         else Some h)"
      using G(2,3) [OF i] True E(3) q_WasInserted [OF I(1)] q_GetKey [OF I(1), of ?t]
      by (simp add: relax_edge_def Let_def)
    consider "?t \<notin> heap_nodes h" | "?t \<in> heap_nodes h" "dist + ?w < key h ?t"
      | "?t \<in> heap_nodes h" "key h ?t \<le> dist + ?w"
      by linarith
    then show ?thesis
    proof cases
      case 1
      then obtain h' where "Insert query_storage ?t (dist + ?w) node h = Some h'"
        and h': "qinv h'" "heap_keys h' = (heap_keys h)(?t \<mapsto> dist + ?w)" "heap_data h' = (heap_data h)(?t \<mapsto> node)"
          "heap_queue h' = insert ?t (heap_queue h)"
        using q_Insert [OF I(1) 1 low, of node] by blast
      moreover have "?t \<in> heap_nodes h'" "key h' ?t \<le> dist + ?w"
        unfolding heap_nodes_keys h'(2) by auto
      ultimately show ?thesis
        using relabel [OF rel ok edge h'] 1 run by auto
    next
      case 2
      have tq: "?t \<in> heap_queue h"
        using 2 D(4) [of ?t] E(3) by (cases "?t \<in> heap_queue h") auto
      obtain h1 where h1: "SetData query_storage h ?t node = Some h1" "qinv h1" "heap_keys h1 = heap_keys h"
        "heap_data h1 = (heap_data h)(?t \<mapsto> node)" "heap_queue h1 = heap_queue h"
        using q_SetData [OF I(1) 2(1), of node] by blast
      have "?t \<noteq> UINT_MAX"
        using E(2) ok by (auto simp: query_graph_ok_def)
      then obtain h' where "DecreaseKey query_storage ?t (dist + ?w) h1 = Some h'"
        and h': "qinv h'" "heap_keys h' = (heap_keys h)(?t \<mapsto> dist + ?w)" "heap_data h' = (heap_data h)(?t \<mapsto> node)"
          "heap_queue h' = insert ?t (heap_queue h)"
        using q_DecreaseKey [OF h1(2), of ?t "dist + ?w"] h1 tq 2(2) low by (auto simp: insert_absorb)
      moreover have "?t \<in> heap_nodes h'" "key h' ?t \<le> dist + ?w"
        unfolding heap_nodes_keys h'(2) by auto
      ultimately show ?thesis
        using relabel [OF rel ok edge h'] 2 tq run h1(1) by auto
    next
      case 3
      then show ?thesis
        using rel run by auto
    qed
  qed
qed

lemma relax_all:
  assumes rel: "relaxing g dir S node dist h" and ok: "query_graph_ok g"
  shows "\<exists>h'. foldM (relax_edge g dir node dist) (sg_range g node) h = Some h' \<and> relaxing g dir S node dist h'
    \<and> grows h h' \<and> (\<forall>v w. qedge g dir node v w \<longrightarrow> v \<in> heap_nodes h' \<and> key h' v \<le> dist + w)"
proof -
  let ?flag = "\<lambda>i. if dir then qe_forward (ee_data (sg_edge_array g ! i)) else qe_backward (ee_data (sg_edge_array g ! i))"
  let ?I = "\<lambda>done h'. relaxing g dir S node dist h' \<and> grows h h'
    \<and> (\<forall>i \<in> set done. ?flag i \<longrightarrow> ee_target (sg_edge_array g ! i) \<in> heap_nodes h'
        \<and> key h' (ee_target (sg_edge_array g ! i)) \<le> dist + qe_distance (ee_data (sg_edge_array g ! i)))"
  have "\<exists>h'. foldM (relax_edge g dir node dist) (sg_range g node) h = Some h' \<and> ?I (sg_range g node) h'"
  proof (rule foldM_invariant [where I = ?I])
    fix i "done" todo h1
    assume "sg_range g node = done @ i # todo" and I1: "?I done h1"
    then have "i \<in> set (sg_range g node)" by simp
    from relax_edge_law [OF _ ok this, of dir S dist h1] I1
    obtain h2 where h2: "relax_edge g dir node dist i h1 = Some h2" "relaxing g dir S node dist h2" "grows h1 h2"
      "?flag i \<longrightarrow> ee_target (sg_edge_array g ! i) \<in> heap_nodes h2
        \<and> key h2 (ee_target (sg_edge_array g ! i)) \<le> dist + qe_distance (ee_data (sg_edge_array g ! i))"
      by blast
    moreover have "v \<in> heap_nodes h2 \<and> key h2 v \<le> d" if "v \<in> heap_nodes h1" "key h1 v \<le> d" for v d
      using h2(3) that unfolding grows_def by (metis order_trans subsetD)
    ultimately show "\<exists>h'. relax_edge g dir node dist i h1 = Some h' \<and> ?I (done @ [i]) h'"
      using I1 grows_trans [of h h1 h2] by auto
  qed (use rel in simp)
  then obtain h' where h': "foldM (relax_edge g dir node dist) (sg_range g node) h = Some h'" "?I (sg_range g node) h'"
    by blast
  then have "\<forall>v w. qedge g dir node v w \<longrightarrow> v \<in> heap_nodes h' \<and> key h' v \<le> dist + w"
    unfolding qedge_def by blast
  with h' show ?thesis by blast
qed

section \<open>Stalling, meeting and settling\<close>

lemma stall_loop_law:
  assumes inv: "search_inv g dir S h" and ok: "query_graph_ok g" and node: "node < sg_number_of_nodes g"
    and "set edges \<subseteq> set (sg_range g node)"
  shows "\<exists>b. stall_loop g dir dist edges h = Some (b, h)
    \<and> (b \<longrightarrow> (\<exists>u w. qedge g (\<not> dir) node u w \<and> u \<in> heap_nodes h \<and> key h u + w < dist))"
  using assms(4)
proof (induction edges)
  case Nil
  then show ?case by (intro exI [of _ False]) simp
next
  case (Cons i edges)
  let ?x = "sg_edge_array g ! i"
  let ?t = "ee_target ?x" and ?w = "qe_distance (ee_data ?x)"
  let ?flag = "if \<not> dir then qe_forward (ee_data ?x) else qe_backward (ee_data ?x)"
  have i: "i \<in> set (sg_range g node)"
    using Cons.prems by auto
  note G = query_graph_range [OF ok node] and qi = search_invD(1) [OF inv]
  obtain b where b: "stall_loop g dir dist edges h = Some (b, h)"
    "b \<longrightarrow> (\<exists>u w. qedge g (\<not> dir) node u w \<and> u \<in> heap_nodes h \<and> key h u + w < dist)"
    using Cons by auto
  have edge: "qedge g (\<not> dir) node ?t ?w \<and> 0 < ?w" if ?flag
    using that i node G(5) [OF i] unfolding qedge_def by (auto split: if_splits)
  obtain flag where flag: "?flag = flag"
    by simp
  note edge = edge [unfolded flag]
  note steps = stall_loop.simps(2) Let_def Option.bind.bind_lunit flag G(2) [OF i] G(3) [OF i] q_WasInserted [OF qi]
  consider "flag" "?t \<in> heap_nodes h" "key h ?t + ?w < dist" | "flag" "?t \<in> heap_nodes h" "\<not> key h ?t + ?w < dist"
    | "flag" "?t \<notin> heap_nodes h" | "\<not> flag"
    by blast
  then show ?case
  proof cases
    case 1
    then have "stall_loop g dir dist (i # edges) h = Some (True, h)"
      using edge by (simp only: steps q_GetKey [OF qi] if_True assert_opt_True prod.case)
    with edge 1 show ?thesis by blast
  next
    case 2
    then have "stall_loop g dir dist (i # edges) h = Some (b, h)"
      using edge b(1) by (simp only: steps q_GetKey [OF qi] if_True if_False assert_opt_True prod.case)
    with b(2) show ?thesis by blast
  next
    case 3
    then have "stall_loop g dir dist (i # edges) h = Some (b, h)"
      using edge b(1) by (simp only: steps if_True if_False assert_opt_True)
    with b(2) show ?thesis by blast
  next
    case 4
    then have "stall_loop g dir dist (i # edges) h = Some (b, h)"
      using b(1) by (simp only: steps if_False)
    with b(2) show ?thesis by blast
  qed
qed

definition meet :: "query_heap \<Rightarrow> NodeID \<Rightarrow> int \<Rightarrow> NodeID \<times> int \<Rightarrow> NodeID \<times> int" where
  "meet rh node dist mu =
     (if node \<in> heap_nodes rh \<and> key rh node + dist < snd mu \<and> 0 \<le> key rh node + dist
      then (node, key rh node + dist) else mu)"

lemma meet_update_law:
  assumes "qinv rh"
  shows "meet_update rh node dist m ub = Some (rh, meet rh node dist (m, ub))"
  using q_WasInserted [OF assms] q_GetKey [OF assms, of node] by (simp add: meet_update_def meet_def Let_def)

text \<open>Settling the minimum: the relaxation of the node may begin.\<close>

lemma settle:
  assumes inv: "search_inv g dir S h" and ne: "heap_queue h \<noteq> {}"
  shows "\<exists>node h1. DeleteMin h = Some (node, h1) \<and> node \<in> heap_queue h
    \<and> (\<forall>q \<in> heap_queue h. key h node \<le> key h q) \<and> relaxing g dir S node (key h node) h1
    \<and> heap_keys h1 = heap_keys h \<and> heap_nodes h1 = heap_nodes h \<and> removed h1 = insert node (removed h)"
proof -
  note I = search_invD [OF inv]
  obtain node h1 where del: "DeleteMin h = Some (node, h1)" "Min_node h = Some node" "qinv h1"
    and h1: "heap_keys h1 = heap_keys h" "heap_data h1 = heap_data h" "heap_queue h1 = heap_queue h - {node}"
    using q_DeleteMin [OF I(1) ne] by blast
  have min: "node \<in> heap_queue h" "\<forall>q \<in> heap_queue h. key h node \<le> key h q"
    using q_Min [OF I(1) ne] del(2) by auto
  have nodes: "heap_nodes h1 = heap_nodes h"
    by (simp only: heap_nodes_keys h1(1))
  have node: "node \<in> heap_nodes h"
    using min(1) heap_queue_subset by blast
  then have rem: "removed h1 = insert node (removed h)"
    unfolding nodes h1(3) using min(1) by auto
  have "search_inv g dir S h1"
  proof (rule search_invI)
    show "par h1 v = v \<and> S v = Some (key h1 v) \<or>
        par h1 v \<in> removed h1 \<and> (\<exists>w. qedge g dir (par h1 v) v w \<and> key h1 v = key h1 (par h1 v) + w)"
      if "v \<in> heap_nodes h1" for v
      using I(4) [of v] that by (auto simp: h1 nodes)
    show "key h1 r \<le> key h1 q" if "r \<in> removed h1" "q \<in> heap_queue h1" for r q
      using that I(5) [of r q] min(2) by (auto simp: h1 nodes)
  qed (use del(3) I(2,3) nodes h1(1) in auto)
  moreover have "key h r \<le> key h node" if "r \<in> removed h" for r
    using I(5) [OF that min(1)] .
  ultimately have "relaxing g dir S node (key h node) h1"
    unfolding relaxing_def rem using min(2) h1(1,3) by auto
  with del(1) min h1(1) nodes rem show ?thesis by blast
qed

lemma search_inv_DeleteAll:
  assumes inv: "search_inv g dir S h"
  shows "\<exists>h'. DeleteAll h = Some h' \<and> search_inv g dir S h' \<and> heap_keys h' = heap_keys h
    \<and> heap_nodes h' = heap_nodes h \<and> heap_queue h' = {}"
proof -
  note I = search_invD [OF inv]
  obtain h' where h': "DeleteAll h = Some h'" "qinv h'" "heap_keys h' = heap_keys h"
    "heap_data h' = heap_data h" "heap_queue h' = {}"
    using q_DeleteAll [OF I(1)] by blast
  have nodes: "heap_nodes h' = heap_nodes h"
    by (simp only: heap_nodes_keys h'(3))
  have "search_inv g dir S h'"
  proof (rule search_invI)
    show "par h' v = v \<and> S v = Some (key h' v) \<or>
        par h' v \<in> removed h' \<and> (\<exists>w. qedge g dir (par h' v) v w \<and> key h' v = key h' (par h' v) + w)"
      if "v \<in> heap_nodes h'" for v
      using I(4) [of v] that by (auto simp: h' nodes)
  qed (use h' nodes I(2,3) in auto)
  with h' nodes show ?thesis by blast
qed

section \<open>The whole step\<close>

text \<open>
  The step settles a queued node of least key, updates the bound if the other search has
  seen the node, and then either empties the queue because no remaining node can improve
  the bound, or stalls, or relaxes every edge at the node.
\<close>

definition pruned :: "query_heap \<Rightarrow> NodeID \<Rightarrow> int \<Rightarrow> int \<Rightarrow> query_heap \<Rightarrow> bool" where
  "pruned fh node off ub fh' \<longleftrightarrow> ub < key fh node + off \<and> heap_queue fh' = {}
     \<and> heap_nodes fh' = heap_nodes fh \<and> heap_keys fh' = heap_keys fh"

definition expanded :: "query_graph \<Rightarrow> bool \<Rightarrow> bool \<Rightarrow> query_heap \<Rightarrow> NodeID \<Rightarrow> query_heap \<Rightarrow> bool" where
  "expanded g dir stalling fh node fh' \<longleftrightarrow>
     heap_nodes fh \<subseteq> heap_nodes fh' \<and> removed fh' = insert node (removed fh)
     \<and> (\<forall>v \<in> heap_nodes fh. key fh' v \<le> key fh v)
     \<and> (\<forall>r \<in> insert node (removed fh). key fh' r = key fh r)
     \<and> (stalling \<and> (\<exists>u w. qedge g (\<not> dir) node u w \<and> u \<in> heap_nodes fh \<and> key fh u + w < key fh node)
        \<or> (\<forall>v w. qedge g dir node v w \<longrightarrow> v \<in> heap_nodes fh' \<and> key fh' v \<le> key fh node + w))"

lemma RoutingStep_law:
  assumes ok: "query_graph_ok g" and inv: "search_inv g dir S fh" and rinv: "search_inv g (\<not> dir) T rh"
    and ne: "heap_queue fh \<noteq> {}" and off: "off \<le> 0"
  shows "\<exists>node fh' m' ub'. RoutingStep g fh rh m ub off dir stalling = Some (fh', rh, m', ub')
    \<and> search_inv g dir S fh' \<and> node \<in> heap_queue fh \<and> (\<forall>q \<in> heap_queue fh. key fh node \<le> key fh q)
    \<and> (m', ub') = meet rh node (key fh node) (m, ub)
    \<and> (pruned fh node off ub' fh' \<or> expanded g dir stalling fh node fh')"
proof -
  obtain node h1 where del: "DeleteMin fh = Some (node, h1)" and min: "node \<in> heap_queue fh"
    "\<forall>q \<in> heap_queue fh. key fh node \<le> key fh q" and rel: "relaxing g dir S node (key fh node) h1"
    and h1: "heap_keys h1 = heap_keys fh" "heap_nodes h1 = heap_nodes fh" "removed h1 = insert node (removed fh)"
    using settle [OF inv ne] by blast
  note inv1 = relaxingD(1) [OF rel]
  note I1 = search_invD [OF inv1]
  have node1: "node \<in> heap_nodes h1"
    using relaxingD(2) [OF rel] by simp
  then have node: "node < sg_number_of_nodes g"
    using I1(2) by auto
  obtain m' ub' where meet: "meet rh node (key fh node) (m, ub) = (m', ub')"
    by fastforce
  have fin: ?thesis
    if "RoutingStep g fh rh m ub off dir stalling = Some (fh', rh, m', ub')" "search_inv g dir S fh'"
      "pruned fh node off ub' fh' \<or> expanded g dir stalling fh node fh'" for fh'
    using that min meet by (intro exI [of _ node] exI [of _ fh'] exI [of _ m'] exI [of _ ub']) simp
  let ?rest = "do {
      (stalled, h) \<leftarrow> (if stalling then do {
             edges \<leftarrow> sg_GetAdjacentEdgeRange g node;
             stall_loop g dir (key fh node) edges h1 } else Some (False, h1));
      (if stalled then Some (h, rh, m', ub')
       else do {
         edges \<leftarrow> sg_GetAdjacentEdgeRange g node;
         h \<leftarrow> foldM (relax_edge g dir node (key fh node)) edges h;
         Some (h, rh, m', ub') })
    }"
  have run: "RoutingStep g fh rh m ub off dir stalling =
      (if ub' < key fh node + off then do { h \<leftarrow> DeleteAll h1; Some (h, rh, m', ub') } else ?rest)"
    by (simp only: RoutingStep_def del Option.bind.bind_lunit prod.case q_GetKey [OF I1(1) node1] h1(1)
        meet_update_law [OF search_invD(1) [OF rinv]] meet off assert_opt_True)
  show ?thesis
  proof (cases "ub' < key fh node + off")
    case True
    obtain h2 where "DeleteAll h1 = Some h2" "search_inv g dir S h2" "heap_keys h2 = heap_keys h1"
      "heap_nodes h2 = heap_nodes h1" "heap_queue h2 = {}"
      using search_inv_DeleteAll [OF inv1] by blast
    with True h1 show ?thesis
      by (intro fin [of h2]) (simp_all add: run pruned_def)
  next
    case False
    note range = query_graph_range(1) [OF ok node]
    obtain b where stall: "(if stalling then do {
             edges \<leftarrow> sg_GetAdjacentEdgeRange g node;
             stall_loop g dir (key fh node) edges h1 } else Some (False, h1)) = Some (b, h1)"
      and b: "b \<longrightarrow> stalling \<and> (\<exists>u w. qedge g (\<not> dir) node u w \<and> u \<in> heap_nodes h1 \<and> key h1 u + w < key fh node)"
    proof (cases stalling)
      case True
      with stall_loop_law [OF inv1 ok node order.refl, of "key fh node"] range that show thesis
        by (auto simp del: set_upt)
    qed (use that [of False] in simp)
    show ?thesis
    proof (cases b)
      case True
      then have "expanded g dir stalling fh node h1"
        using b h1 unfolding expanded_def by auto
      moreover have "RoutingStep g fh rh m ub off dir stalling = Some (h1, rh, m', ub')"
        using run False stall True by simp
      ultimately show ?thesis
        using inv1 by (intro fin [of h1]) simp_all
    next
      case nostall: False
      obtain h2 where h2: "foldM (relax_edge g dir node (key fh node)) (sg_range g node) h1 = Some h2"
        "relaxing g dir S node (key fh node) h2" "grows h1 h2"
        "\<forall>v w. qedge g dir node v w \<longrightarrow> v \<in> heap_nodes h2 \<and> key h2 v \<le> key fh node + w"
        using relax_all [OF rel ok] by blast
      have "expanded g dir stalling fh node h2"
        unfolding expanded_def
        using h2(3) [unfolded grows_def, unfolded h1(3), unfolded h1(1,2)] h2(4) by (intro conjI disjI2) argo+
      moreover have "RoutingStep g fh rh m ub off dir stalling = Some (h2, rh, m', ub')"
        using run False stall nostall range h2(1) by simp
      ultimately show ?thesis
        using relaxingD(1) [OF h2(2)] by (intro fin [of h2]) simp_all
    qed
  qed
qed

end
