(* ===== verification/Routing_Search.thy ===== *)
theory Routing_Search
  imports Routing_Laws
begin

text \<open>
  The bidirectional search as a state machine: \<^verbatim>\<open>Search\<close> ends, what it returns is the
  length of a real route, and no route that a contraction hierarchy represents is shorter.
\<close>

section \<open>Parent chains\<close>

text \<open>
  \<open>chain g dir (v # ps) c\<close>: following parents from \<open>v\<close> visits \<open>ps\<close>, and the edges
  of a search in direction \<open>dir\<close> along the way have the total weight \<open>c\<close>.
\<close>

inductive chain :: "query_graph \<Rightarrow> bool \<Rightarrow> NodeID list \<Rightarrow> int \<Rightarrow> bool" for g dir where
  chain_start: "chain g dir [s] 0"
| chain_edge: "chain g dir (p # ps) c \<Longrightarrow> qedge g dir p v w \<Longrightarrow> chain g dir (v # p # ps) (c + w)"

lemma packed_path_chain:
  assumes inv: "search_inv g dir S h" and ok: "query_graph_ok g" and "v \<in> heap_nodes h"
  shows "\<exists>ps. packed_path_loop h v acc = Some (acc @ ps) \<and> last (v # ps) \<in> dom S
    \<and> chain g dir (v # ps) (key h v - the (S (last (v # ps))))"
  using assms(3)
proof (induction "nat (key h v - INT_MIN)" arbitrary: v acc rule: less_induct)
  case less
  note I = search_invD [OF inv]
  have data: "GetData query_storage h v = Some (par h v)"
    using q_GetData [OF I(1) less.prems] less.prems dom_heap_data [of h] by (metis domIff option.collapse)
  from I(4) [OF less.prems] show ?case
  proof (elim disjE conjE exE)
    assume "par h v = v" and "S v = Some (key h v)"
    then show ?thesis
      using data by (intro exI [of _ "[]"]) (subst packed_path_loop.simps, auto intro: chain_start)
  next
    fix w
    assume p: "par h v \<in> removed h" and edge: "qedge g dir (par h v) v w" and k: "key h v = key h (par h v) + w"
    have w: "0 < w"
      by (rule qedgeD(3) [OF ok edge])
    have "nat (key h (par h v) - INT_MIN) < nat (key h v - INT_MIN)"
      using key_lower [OF I(1), of "par h v"] p k w by auto
    from less.hyps [OF this, of "acc @ [par h v]"] p obtain ps where
      ps: "packed_path_loop h (par h v) (acc @ [par h v]) = Some (acc @ [par h v] @ ps)"
        "last (par h v # ps) \<in> dom S" "chain g dir (par h v # ps) (key h (par h v) - the (S (last (par h v # ps))))"
      by auto
    have ne: "v \<noteq> par h v"
      using k w by (metis add.commute add_0 add_right_cancel less_irrefl)
    have "chain g dir (v # par h v # ps) (key h v - the (S (last (v # par h v # ps))))"
      using chain_edge [OF ps(3) edge] k by (simp add: algebra_simps)
    then show ?thesis
      using ps ne data by (intro exI [of _ "par h v # ps"]) (subst packed_path_loop.simps, simp)
  qed
qed

text \<open>
  A route: every step uses an edge that is stored at its first node in forward direction or
  at its second node in backward direction.
\<close>

definition hop :: "query_graph \<Rightarrow> NodeID \<Rightarrow> NodeID \<Rightarrow> int \<Rightarrow> bool" where
  "hop g a b w \<longleftrightarrow> qedge g True a b w \<or> qedge g False b a w"

inductive route :: "query_graph \<Rightarrow> NodeID list \<Rightarrow> int \<Rightarrow> bool" for g where
  route_single: "route g [v] 0"
| route_hop: "hop g a b w \<Longrightarrow> route g (b # xs) c \<Longrightarrow> route g (a # b # xs) (w + c)"

inductive_cases route_ConsE: "route g (a # b # xs) c"
inductive_cases route_singleE: "route g [v] c"

lemma route_append:
  assumes "route g (m # ys) d" and "route g (xs @ [m]) c"
  shows "route g (xs @ m # ys) (c + d)"
  using assms(2)
proof (induction xs arbitrary: c)
  case Nil
  then show ?case
    using assms(1) by (auto elim: route_singleE)
next
  case (Cons a xs)
  obtain b zs where bz: "xs @ [m] = b # zs"
    by (cases xs) auto
  with Cons.prems obtain w c' where w: "hop g a b w" "c = w + c'" "route g (b # zs) c'"
    by (auto elim: route_ConsE)
  then have "route g (xs @ m # ys) (c' + d)"
    using Cons.IH bz by simp
  moreover obtain ws where "xs @ m # ys = b # ws"
    using bz by (cases xs) auto
  ultimately show ?case
    using route_hop [OF w(1)] w(2) by (simp add: add.assoc)
qed

lemma chain_route_backward: "chain g False xs c \<Longrightarrow> route g xs c"
proof (induction rule: chain.induct)
  case (chain_edge p ps c v w)
  then have "route g (v # p # ps) (w + c)"
    by (intro route_hop) (simp_all add: hop_def)
  then show ?case by (simp add: add.commute)
qed (rule route_single)

lemma chain_route_forward: "chain g True xs c \<Longrightarrow> route g (rev xs) c"
proof (induction rule: chain.induct)
  case (chain_edge p ps c v w)
  have "route g [p, v] (w + 0)"
    using chain_edge.hyps(2) by (intro route_hop route_single) (simp add: hop_def)
  from route_append [OF this, of "rev ps" c] chain_edge.IH show ?case by simp
qed (auto intro: route_single)

lemma RetrievePackedPath_route:
  assumes ok: "query_graph_ok g" and inv: "search_inv g True S fh" "search_inv g False T rh"
    and m: "m \<in> heap_nodes fh" "m \<in> heap_nodes rh"
  shows "\<exists>leg c. RetrievePackedPathFromHeap fh rh m [] = Some leg \<and> leg \<noteq> [] \<and> route g leg c
    \<and> hd leg \<in> dom S \<and> last leg \<in> dom T
    \<and> the (S (hd leg)) + c + the (T (last leg)) = key fh m + key rh m"
proof -
  obtain ps where ps: "packed_path_loop fh m [] = Some ps" "last (m # ps) \<in> dom S"
    "chain g True (m # ps) (key fh m - the (S (last (m # ps))))"
    using packed_path_chain [OF inv(1) ok m(1), of "[]"] by auto
  obtain qs where qs: "packed_path_loop rh m (rev ps @ [m]) = Some ((rev ps @ [m]) @ qs)" "last (m # qs) \<in> dom T"
    "chain g False (m # qs) (key rh m - the (T (last (m # qs))))"
    using packed_path_chain [OF inv(2) ok m(2)] by blast
  let ?leg = "rev ps @ m # qs"
  have "RetrievePackedPathFromHeap fh rh m [] = Some ?leg"
    using ps(1) qs(1) by (simp add: RetrievePackedPathFromHeap_def RetrievePackedPathFromSingleHeap_def Let_def)
  moreover have "route g ?leg ((key fh m - the (S (last (m # ps)))) + (key rh m - the (T (last (m # qs)))))"
    using route_append [OF chain_route_backward [OF qs(3)]] chain_route_forward [OF ps(3)] by simp
  moreover have "hd ?leg = last (m # ps)" "last ?leg = last (m # qs)"
    by (auto simp: hd_append hd_rev)
  ultimately show ?thesis
    using ps(2) qs(2) by (intro exI [of _ ?leg]) auto
qed

section \<open>The search as a step relation\<close>

inductive search_step :: "query_graph \<Rightarrow> int \<Rightarrow> bool \<Rightarrow> search_state \<Rightarrow> search_state \<Rightarrow> bool"
  for g off stalling where
  step_forward: "\<not> Empty fh \<Longrightarrow> RoutingStep g fh rh m ub off True stalling = Some (fh', rh', m', ub') \<Longrightarrow>
    search_step g off stalling (fh, rh, m, ub) (fh', rh', m', ub')"
| step_reverse: "\<not> Empty rh \<Longrightarrow> RoutingStep g rh fh m ub off False stalling = Some (rh', fh', m', ub') \<Longrightarrow>
    search_step g off stalling (fh, rh, m, ub) (fh', rh', m', ub')"

definition both_inv :: "query_graph \<Rightarrow> (NodeID \<rightharpoonup> int) \<Rightarrow> (NodeID \<rightharpoonup> int) \<Rightarrow> search_state \<Rightarrow> bool" where
  "both_inv g S T = (\<lambda>(fh, rh, m, ub). search_inv g True S fh \<and> search_inv g False T rh)"

lemma not_Empty_queue: "search_inv g dir S h \<Longrightarrow> \<not> Empty h \<longleftrightarrow> heap_queue h \<noteq> {}"
  using Empty_queue [OF search_invD(1)] by blast

text \<open>Nodes that a search has not settled: they bound the number of steps that are left.\<close>

definition unsettled :: "query_graph \<Rightarrow> query_heap \<Rightarrow> nat" where
  "unsettled g h = card ({..<sg_number_of_nodes g} - removed h)"

lemma step_progress:
  assumes inv: "search_inv g dir S fh" "search_inv g dir S fh'" and node: "node \<in> heap_queue fh"
    and "pruned fh node off ub fh' \<or> expanded g dir stalling fh node fh'"
  shows "unsettled g fh' < unsettled g fh" and "heap_nodes fh \<subseteq> heap_nodes fh'"
    and "v \<in> heap_nodes fh \<Longrightarrow> key fh' v \<le> key fh v"
    and "node \<in> removed fh'" and "key fh' node = key fh node"
proof -
  have nq: "node \<in> heap_nodes fh" "node < sg_number_of_nodes g"
    using node heap_queue_subset [of fh] search_invD(2) [OF inv(1)] by auto
  have sub: "insert node (removed fh) \<subseteq> removed fh'"
    using assms(4) nq unfolding pruned_def expanded_def by (elim disjE) auto
  have "{..<sg_number_of_nodes g} - removed fh' \<subset> {..<sg_number_of_nodes g} - removed fh"
    using sub node nq by blast
  then show "unsettled g fh' < unsettled g fh"
    unfolding unsettled_def by (rule psubset_card_mono [OF finite_Diff [OF finite_lessThan]])
  show "node \<in> removed fh'"
    using sub by blast
  show "heap_nodes fh \<subseteq> heap_nodes fh'" "v \<in> heap_nodes fh \<Longrightarrow> key fh' v \<le> key fh v" "key fh' node = key fh node"
    using assms(4) unfolding pruned_def expanded_def by auto
qed

definition search_measure :: "query_graph \<Rightarrow> search_state \<Rightarrow> nat" where
  "search_measure g = (\<lambda>(fh, rh, m, ub). unsettled g fh + unsettled g rh)"

lemma forward_total:
  assumes ok: "query_graph_ok g" and inv: "both_inv g S T (fh, rh, m, ub)" and off: "off \<le> 0" and ne: "\<not> Empty fh"
  shows "\<exists>s'. RoutingStep g fh rh m ub off True stalling = Some s' \<and> both_inv g S T s'
    \<and> search_measure g s' < search_measure g (fh, rh, m, ub)"
proof -
  have I: "search_inv g True S fh" "search_inv g (\<not> True) T rh"
    using inv by (simp_all add: both_inv_def)
  from RoutingStep_law [OF ok I _ off, of m ub stalling] ne not_Empty_queue [OF I(1)]
  obtain node fh' m' ub' where step: "RoutingStep g fh rh m ub off True stalling = Some (fh', rh, m', ub')"
    "search_inv g True S fh'" "node \<in> heap_queue fh"
    "pruned fh node off ub' fh' \<or> expanded g True stalling fh node fh'"
    by blast
  with I step_progress(1) [OF I(1) step(2,3,4)] show ?thesis
    by (auto simp: both_inv_def search_measure_def)
qed

lemma reverse_total:
  assumes ok: "query_graph_ok g" and inv: "both_inv g S T (fh, rh, m, ub)" and off: "off \<le> 0" and ne: "\<not> Empty rh"
  shows "\<exists>fh' rh' m' ub'. RoutingStep g rh fh m ub off False stalling = Some (rh', fh', m', ub')
    \<and> both_inv g S T (fh', rh', m', ub') \<and> search_measure g (fh', rh', m', ub') < search_measure g (fh, rh, m, ub)"
proof -
  have I: "search_inv g False T rh" "search_inv g (\<not> False) S fh"
    using inv by (simp_all add: both_inv_def)
  from RoutingStep_law [OF ok I _ off, of m ub stalling] ne not_Empty_queue [OF I(1)]
  obtain node rh' m' ub' where step: "RoutingStep g rh fh m ub off False stalling = Some (rh', fh, m', ub')"
    "search_inv g False T rh'" "node \<in> heap_queue rh"
    "pruned rh node off ub' rh' \<or> expanded g False stalling rh node rh'"
    by blast
  with I step_progress(1) [OF I(1) step(2,3,4)] show ?thesis
    by (auto simp: both_inv_def search_measure_def)
qed

lemma round_total:
  assumes ok: "query_graph_ok g" and inv: "both_inv g S T s" and off: "off \<le> 0"
    and more: "\<not> (Empty (fst s) \<and> Empty (fst (snd s)))"
  shows "\<exists>s'. search_round g off stalling s = Some s' \<and> both_inv g S T s'
    \<and> search_measure g s' < search_measure g s \<and> (search_step g off stalling)\<^sup>*\<^sup>* s s'"
proof -
  obtain fh rh m ub where s: "s = (fh, rh, m, ub)"
    by (cases s)
  obtain s1 where one: "(if \<not> Empty fh then RoutingStep g fh rh m ub off True stalling else Some (fh, rh, m, ub)) = Some s1"
    and s1: "both_inv g S T s1" "search_measure g s1 \<le> search_measure g s" "(search_step g off stalling)\<^sup>*\<^sup>* s s1"
      "\<not> Empty fh \<Longrightarrow> search_measure g s1 < search_measure g s" "Empty fh \<Longrightarrow> s1 = s"
  proof (cases "Empty fh")
    case True
    with inv s that [of s] show thesis by auto
  next
    case False
    with forward_total [OF ok inv [unfolded s] off, of stalling] obtain s1 where
      "RoutingStep g fh rh m ub off True stalling = Some s1" "both_inv g S T s1"
      "search_measure g s1 < search_measure g s"
      using s by auto
    moreover from this False have "search_step g off stalling s s1"
      unfolding s by (cases s1) (auto intro: step_forward)
    ultimately show thesis
      using that [of s1] False by auto
  qed
  obtain fh1 rh1 m1 ub1 where s1': "s1 = (fh1, rh1, m1, ub1)"
    by (cases s1)
  show ?thesis
  proof (cases "Empty rh1")
    case True
    then have "search_round g off stalling s = Some s1"
      using one by (simp add: search_round_def s s1')
    with s1 more s s1' True show ?thesis by auto
  next
    case False
    with reverse_total [OF ok s1(1) [unfolded s1'] off, of stalling] obtain fh2 rh2 m2 ub2 where
      two: "RoutingStep g rh1 fh1 m1 ub1 off False stalling = Some (rh2, fh2, m2, ub2)"
        "both_inv g S T (fh2, rh2, m2, ub2)" "search_measure g (fh2, rh2, m2, ub2) < search_measure g s1"
      using s1' by auto
    then have "search_step g off stalling s1 (fh2, rh2, m2, ub2)"
      using False unfolding s1' by (auto intro: step_reverse)
    moreover have "search_round g off stalling s = Some (fh2, rh2, m2, ub2)"
      using one two(1) False by (simp add: search_round_def s s1')
    ultimately show ?thesis
      using two s1(2,3) by (auto intro: rtranclp.rtrancl_into_rtrancl)
  qed
qed

lemma search_loop_total:
  assumes ok: "query_graph_ok g" and "both_inv g S T s" and off: "off \<le> 0"
  shows "\<exists>s'. search_loop g off s = Some s' \<and> both_inv g S T s' \<and> (search_step g off True)\<^sup>*\<^sup>* s s'
    \<and> Empty (fst s') \<and> Empty (fst (snd s'))"
  using assms(2)
proof (induction "search_measure g s" arbitrary: s rule: less_induct)
  case less
  show ?case
  proof (cases "Empty (fst s) \<and> Empty (fst (snd s))")
    case True
    then show ?thesis
      using less.prems by (subst search_loop.simps) (auto simp: Empty_def)
  next
    case False
    with round_total [OF ok less.prems off, of True] obtain s1 where
      s1: "search_round g off True s = Some s1" "both_inv g S T s1" "search_measure g s1 < search_measure g s"
        "(search_step g off True)\<^sup>*\<^sup>* s s1"
      by blast
    from less.hyps [OF s1(3,2)] obtain s' where "search_loop g off s1 = Some s'" "both_inv g S T s'"
      "(search_step g off True)\<^sup>*\<^sup>* s1 s'" "Empty (fst s')" "Empty (fst (snd s'))"
      by blast
    moreover have "search_loop g off s = search_loop g off s1"
      using False s1(1) by (subst search_loop.simps) (auto simp: Empty_def)
    ultimately show ?thesis
      using s1(4) by (metis rtranclp_trans)
  qed
qed

section \<open>Soundness\<close>

text \<open>The meeting node was seen by both searches, and their keys add up to at most the bound.\<close>

definition found_inv :: "int \<Rightarrow> search_state \<Rightarrow> bool" where
  "found_inv ub0 = (\<lambda>(fh, rh, m, ub).
     m = SPECIAL_NODEID \<and> ub = ub0
     \<or> m \<in> heap_nodes fh \<and> m \<in> heap_nodes rh \<and> key fh m + key rh m \<le> ub \<and> 0 \<le> ub \<and> ub < ub0)"

text \<open>One step of either search, seen from the search that moves.\<close>

lemma found_step:
  assumes ok: "query_graph_ok g" and inv: "search_inv g dir S fh" "search_inv g (\<not> dir) T rh" and off: "off \<le> 0"
    and ne: "\<not> Empty fh" and step: "RoutingStep g fh rh m ub off dir stalling = Some (fh', rh', m', ub')"
    and found: "m = SPECIAL_NODEID \<and> ub = ub0
      \<or> m \<in> heap_nodes fh \<and> m \<in> heap_nodes rh \<and> key fh m + key rh m \<le> ub \<and> 0 \<le> ub \<and> ub < ub0"
  shows "rh' = rh" and "search_inv g dir S fh'"
    and "m' = SPECIAL_NODEID \<and> ub' = ub0
      \<or> m' \<in> heap_nodes fh' \<and> m' \<in> heap_nodes rh \<and> key fh' m' + key rh m' \<le> ub' \<and> 0 \<le> ub' \<and> ub' < ub0"
proof -
  have "heap_queue fh \<noteq> {}"
    using ne not_Empty_queue [OF inv(1)] by blast
  from RoutingStep_law [OF ok inv this off, of m ub stalling] step obtain node where
    r: "rh' = rh" "search_inv g dir S fh'" "node \<in> heap_queue fh" "(m', ub') = meet rh node (key fh node) (m, ub)"
    and cases: "pruned fh node off ub' fh' \<or> expanded g dir stalling fh node fh'"
    by auto
  note P = step_progress [OF inv(1) r(2,3) cases]
  show "rh' = rh" "search_inv g dir S fh'"
    by fact+
  show "m' = SPECIAL_NODEID \<and> ub' = ub0
      \<or> m' \<in> heap_nodes fh' \<and> m' \<in> heap_nodes rh \<and> key fh' m' + key rh m' \<le> ub' \<and> 0 \<le> ub' \<and> ub' < ub0"
  proof (cases "node \<in> heap_nodes rh \<and> key rh node + key fh node < ub \<and> 0 \<le> key rh node + key fh node")
    case True
    then have "m' = node" "ub' = key rh node + key fh node"
      using r(4) by (simp_all add: meet_def)
    with True found P(4,5) show ?thesis by auto
  next
    case False
    then have "m' = m" "ub' = ub"
      using r(4) by (auto simp: meet_def)
    with found P(2) P(3) [of m] show ?thesis by force
  qed
qed

lemma search_step_inv:
  assumes ok: "query_graph_ok g" and off: "off \<le> 0" and "search_step g off stalling s s'"
    and "both_inv g S T s" and "found_inv ub0 s"
  shows "both_inv g S T s' \<and> found_inv ub0 s'"
  using assms(3)
proof cases
  case (step_forward fh rh m ub fh' rh' m' ub')
  have "search_inv g True S fh" "search_inv g (\<not> True) T rh"
    using assms(4) step_forward(1) by (simp_all add: both_inv_def)
  note F = found_step [OF ok this off step_forward(3,4), of ub0]
  show ?thesis
    using F assms(4,5) step_forward(1,2) by (auto simp: both_inv_def found_inv_def)
next
  case (step_reverse rh fh m ub rh' fh' m' ub')
  have "search_inv g False T rh" "search_inv g (\<not> False) S fh"
    using assms(4) step_reverse(1) by (simp_all add: both_inv_def)
  note F = found_step [OF ok this off step_reverse(3,4), of ub0]
  show ?thesis
    using F assms(4,5) step_reverse(1,2) by (auto simp: both_inv_def found_inv_def add.commute)
qed

lemma search_steps_inv:
  assumes "(search_step g off stalling)\<^sup>*\<^sup>* s s'" and "query_graph_ok g" and "off \<le> 0"
    and "both_inv g S T s" and "found_inv ub0 s"
  shows "both_inv g S T s' \<and> found_inv ub0 s'"
  using assms(1) by (induction) (use assms(2-) search_step_inv in blast)+

section \<open>Started heaps\<close>

text \<open>A heap into which the start nodes \<open>S\<close> were inserted, each its own parent.\<close>

definition started :: "query_graph \<Rightarrow> (NodeID \<rightharpoonup> int) \<Rightarrow> query_heap \<Rightarrow> bool" where
  "started g S h \<longleftrightarrow> qinv h \<and> dom S \<subseteq> {..<sg_number_of_nodes g} \<and> heap_keys h = S
     \<and> heap_data h = (\<lambda>v. if v \<in> dom S then Some v else None) \<and> heap_queue h = dom S"

lemma started_nodes: "started g S h \<Longrightarrow> heap_nodes h = dom S"
  unfolding heap_nodes_keys by (simp add: started_def)

lemma started_removed: "started g S h \<Longrightarrow> removed h = {}"
  using started_nodes [of g S h] by (simp add: started_def)

lemma started_search_inv: "started g S h \<Longrightarrow> search_inv g dir S h"
  using started_nodes [of g S h] by (intro search_invI) (auto simp: started_def)

lemma started_Insert:
  assumes "started g S h" and "v \<notin> dom S" and "v < sg_number_of_nodes g" and "INT_MIN \<le> k"
  shows "\<exists>h'. Insert query_storage v k v h = Some h' \<and> started g (S(v \<mapsto> k)) h'"
proof -
  have h: "qinv h" "heap_keys h = S" "heap_data h = (\<lambda>v. if v \<in> dom S then Some v else None)" "heap_queue h = dom S"
    "dom S \<subseteq> {..<sg_number_of_nodes g}"
    using assms(1) by (simp_all add: started_def)
  have "v \<notin> heap_nodes h"
    using started_nodes [OF assms(1)] assms(2) by simp
  from q_Insert [OF h(1) this assms(4), of v] obtain h' where
    h': "Insert query_storage v k v h = Some h'" "qinv h'" "heap_keys h' = S(v \<mapsto> k)"
      "heap_data h' = (heap_data h)(v \<mapsto> v)" "heap_queue h' = insert v (dom S)"
    using h by auto
  have "started g (S(v \<mapsto> k)) h'"
    unfolding started_def using h h' assms(3) by auto
  with h'(1) show ?thesis by blast
qed

lemma started_MinKey:
  assumes "started g S h" and "S \<noteq> Map.empty"
  obtains n s where "MinKey h = Some s" and "S n = Some s" and "\<And>v k. S v = Some k \<Longrightarrow> s \<le> k"
proof -
  have h: "qinv h" "heap_keys h = S" "heap_queue h = dom S"
    using assms(1) by (simp_all add: started_def)
  have "heap_queue h \<noteq> {}"
    using assms(2) h(3) by auto
  from q_Min [OF h(1) this] obtain n where n: "MinKey h = S n" "n \<in> dom S" "\<forall>m \<in> dom S. the (S n) \<le> the (S m)"
    using h by auto
  then obtain s where "S n = Some s" by auto
  with n that [of s n] show thesis
    by (metis domI option.sel)
qed

text \<open>
  \<^verbatim>\<open>Search\<close> from started heaps, up to the retrieval of the path: the loop ends in a state
  that the step relation reaches.
\<close>

lemma Search_run:
  assumes ok: "query_graph_ok g" and s: "started g S fh" "S \<noteq> Map.empty" and t: "started g T rh" "T \<noteq> Map.empty"
    and pos: "\<forall>k \<in> ran T. 0 \<le> k" and d: "dist \<le> INVALID_EDGE_WEIGHT"
  obtains off fh' rh' m' d' where "off \<le> 0" and "\<forall>v k. S v = Some k \<longrightarrow> off \<le> k"
    and "(search_step g off True)\<^sup>*\<^sup>* (fh, rh, SPECIAL_NODEID, dist) (fh', rh', m', d')"
    and "both_inv g S T (fh', rh', m', d')" and "found_inv dist (fh', rh', m', d')"
    and "heap_queue fh' = {}" and "heap_queue rh' = {}"
    and "Search g fh rh dist [] = (if m' = SPECIAL_NODEID then Some (fh', rh', d', [])
      else do { leg \<leftarrow> RetrievePackedPathFromHeap fh' rh' m' []; Some (fh', rh', d', leg) })"
proof -
  obtain n a where a: "MinKey fh = Some a" "S n = Some a" "\<And>v k. S v = Some k \<Longrightarrow> a \<le> k"
    by (rule started_MinKey [OF s]) blast
  obtain n' b where b: "MinKey rh = Some b" "T n' = Some b" "\<And>v k. T v = Some k \<Longrightarrow> b \<le> k"
    by (rule started_MinKey [OF t]) blast
  let ?off = "min 0 a" and ?s = "(fh, rh, SPECIAL_NODEID, dist)"
  have inv: "both_inv g S T ?s"
    using started_search_inv [OF s(1)] started_search_inv [OF t(1)] by (simp add: both_inv_def)
  have found: "found_inv dist ?s"
    by (simp add: found_inv_def)
  obtain s' where s': "search_loop g ?off ?s = Some s'" "both_inv g S T s'" "(search_step g ?off True)\<^sup>*\<^sup>* ?s s'"
    "Empty (fst s')" "Empty (fst (snd s'))"
    using search_loop_total [OF ok inv, of ?off] by auto
  obtain fh' rh' m' d' where s'': "s' = (fh', rh', m', d')"
    by (cases s')
  have F: "found_inv dist s'"
    using search_steps_inv [OF s'(3) ok _ inv found] by simp
  have q: "heap_queue fh' = {}" "heap_queue rh' = {}"
    using s'(2,4,5) not_Empty_queue unfolding s'' both_inv_def by auto
  have stop: "(INVALID_EDGE_WEIGHT = d' \<or> SPECIAL_NODEID = m') = (m' = SPECIAL_NODEID)"
    using F d unfolding s'' found_inv_def by auto
  have run: "Search g fh rh dist [] = (if m' = SPECIAL_NODEID then Some (fh', rh', d', [])
      else do { leg \<leftarrow> RetrievePackedPathFromHeap fh' rh' m' []; Some (fh', rh', d', leg) })"
    using a(1) b(1) pos ranI [of T, OF b(2)] s'(1) unfolding s'' by (simp add: Search_def stop)
  show thesis
    by (rule that [of ?off fh' rh' m' d']) (use a(3) s' F q run s'' in \<open>auto simp: min_le_iff_disj\<close>)
qed

section \<open>Optimality\<close>

text \<open>
  \<open>D\<close> is a lower bound of the distances from the start nodes \<open>S\<close> in the whole graph,
  seen in direction \<open>dir\<close>: it respects the start keys and every edge, also those that
  the search of this direction does not relax.
\<close>

definition potential :: "query_graph \<Rightarrow> bool \<Rightarrow> (NodeID \<rightharpoonup> int) \<Rightarrow> (NodeID \<Rightarrow> int) \<Rightarrow> bool" where
  "potential g dir S D \<longleftrightarrow> (\<forall>v s. S v = Some s \<longrightarrow> D v \<le> s)
     \<and> (\<forall>u v w. qedge g dir u v w \<longrightarrow> D v \<le> D u + w)
     \<and> (\<forall>u v w. qedge g (\<not> dir) v u w \<longrightarrow> D v \<le> D u + w)"

text \<open>A path of edges that the search relaxes, on which \<open>D\<close> is attained.\<close>

definition exact_path :: "query_graph \<Rightarrow> bool \<Rightarrow> (NodeID \<rightharpoonup> int) \<Rightarrow> (NodeID \<Rightarrow> int) \<Rightarrow> NodeID list \<Rightarrow> bool" where
  "exact_path g dir S D xs \<longleftrightarrow> xs \<noteq> [] \<and> S (hd xs) = Some (D (hd xs))
     \<and> (\<forall>i. Suc i < length xs \<longrightarrow> (\<exists>w. qedge g dir (xs ! i) (xs ! Suc i) w \<and> D (xs ! Suc i) = D (xs ! i) + w))"

lemma potential_le_key:
  assumes inv: "search_inv g dir S h" and ok: "query_graph_ok g" and pot: "potential g dir S D" and "v \<in> heap_nodes h"
  shows "D v \<le> key h v"
  using assms(4)
proof (induction "nat (key h v - INT_MIN)" arbitrary: v rule: less_induct)
  case less
  note I = search_invD [OF inv]
  from I(4) [OF less.prems] show ?case
  proof (elim disjE conjE exE)
    assume "S v = Some (key h v)"
    then show ?thesis using pot by (simp add: potential_def)
  next
    fix w
    assume p: "par h v \<in> removed h" and edge: "qedge g dir (par h v) v w" and k: "key h v = key h (par h v) + w"
    have "nat (key h (par h v) - INT_MIN) < nat (key h v - INT_MIN)"
      using key_lower [OF I(1), of "par h v"] p k qedgeD(3) [OF ok edge] by auto
    from less.hyps [OF this] p have "D (par h v) \<le> key h (par h v)" by blast
    moreover have "D v \<le> D (par h v) + w"
      using pot edge by (simp add: potential_def)
    ultimately show ?thesis using k by simp
  qed
qed

lemma exact_path_mono:
  assumes ok: "query_graph_ok g" and path: "exact_path g dir S D xs" and "i \<le> j" and "j < length xs"
  shows "D (xs ! i) \<le> D (xs ! j)"
  using assms(3,4)
proof (induction rule: dec_induct)
  case (step n)
  then obtain w where "qedge g dir (xs ! n) (xs ! Suc n) w" "D (xs ! Suc n) = D (xs ! n) + w"
    using path by (auto simp: exact_path_def)
  with qedgeD(3) [OF ok this(1)] step show ?case by simp
qed simp

text \<open>Along the path, a node settled at its exact distance has handed it on.\<close>

definition exact_at :: "(NodeID \<Rightarrow> int) \<Rightarrow> query_heap \<Rightarrow> NodeID \<Rightarrow> bool" where
  "exact_at D h v \<longleftrightarrow> v \<in> heap_nodes h \<and> key h v = D v"

definition handed_on :: "(NodeID \<Rightarrow> int) \<Rightarrow> NodeID list \<Rightarrow> query_heap \<Rightarrow> bool" where
  "handed_on D xs h \<longleftrightarrow> (\<forall>i. Suc i < length xs \<longrightarrow> exact_at D h (xs ! i) \<longrightarrow> xs ! i \<in> removed h \<longrightarrow> exact_at D h (xs ! Suc i))"

lemma exact_start:
  assumes "search_inv g dir S h" and "query_graph_ok g" and "potential g dir S D" and "exact_path g dir S D xs"
  shows "exact_at D h (xs ! 0)"
proof -
  have "S (xs ! 0) = Some (D (xs ! 0))"
    using assms(4) unfolding exact_path_def by (metis hd_conv_nth)
  from search_invD(3) [OF assms(1) this] potential_le_key [OF assms(1-3)] show ?thesis
    by (force simp: exact_at_def)
qed

text \<open>Either a node of the path waits in the queue at its exact distance, or all are settled.\<close>

lemma frontier:
  assumes inv: "search_inv g dir S h" and ok: "query_graph_ok g" and pot: "potential g dir S D"
    and path: "exact_path g dir S D xs" and ho: "handed_on D xs h"
  obtains i where "i < length xs" and "exact_at D h (xs ! i)" and "xs ! i \<in> heap_queue h"
  | "\<And>i. i < length xs \<Longrightarrow> exact_at D h (xs ! i) \<and> xs ! i \<in> removed h"
proof (cases "\<exists>i < length xs. exact_at D h (xs ! i) \<and> xs ! i \<in> heap_queue h")
  case True
  with that(1) show thesis by blast
next
  case False
  have "exact_at D h (xs ! i)" if "i < length xs" for i
    using that
  proof (induction i)
    case 0
    then show ?case using exact_start [OF inv ok pot path] by simp
  next
    case (Suc i)
    then have e: "exact_at D h (xs ! i)" by simp
    with False Suc.prems have "xs ! i \<in> removed h"
      by (auto simp: exact_at_def)
    with ho Suc.prems e show ?case
      unfolding handed_on_def by blast
  qed
  with False that(2) show thesis
    by (auto simp: exact_at_def)
qed

definition optimal_inv ::
  "(NodeID \<Rightarrow> int) \<Rightarrow> NodeID list \<Rightarrow> (NodeID \<Rightarrow> int) \<Rightarrow> NodeID list \<Rightarrow> query_heap \<Rightarrow> query_heap \<Rightarrow> int \<Rightarrow> bool" where
  "optimal_inv D xs E ys fh rh ub \<longleftrightarrow>
     ub \<le> D (last xs) + E (last xs)
     \<or> handed_on D xs fh \<and> handed_on E ys rh
       \<and> \<not> (exact_at D fh (last xs) \<and> last xs \<in> removed fh \<and> exact_at E rh (last xs) \<and> last xs \<in> removed rh)"

lemma optimal_inv_sym:
  "last xs = last ys \<Longrightarrow> optimal_inv D xs E ys fh rh ub \<longleftrightarrow> optimal_inv E ys D xs rh fh ub"
  by (auto simp: optimal_inv_def add.commute)

lemma expanded_handed_on:
  assumes inv: "search_inv g dir S fh" "search_inv g dir S fh'" and ok: "query_graph_ok g"
    and pot: "potential g dir S D" and path: "exact_path g dir S D xs" and ho: "handed_on D xs fh"
    and ex: "expanded g dir stalling fh node fh'"
  shows "handed_on D xs fh'"
  unfolding handed_on_def
proof (intro allI impI)
  fix i
  assume i: "Suc i < length xs" and e: "exact_at D fh' (xs ! i)" and r: "xs ! i \<in> removed fh'"
  have grow: "heap_nodes fh \<subseteq> heap_nodes fh'" "removed fh' = insert node (removed fh)"
    "\<And>v. v \<in> heap_nodes fh \<Longrightarrow> key fh' v \<le> key fh v" "\<And>r. r \<in> insert node (removed fh) \<Longrightarrow> key fh' r = key fh r"
    using ex unfolding expanded_def by blast+
  have key: "key fh (xs ! i) = D (xs ! i)"
    using e grow(4) [of "xs ! i"] r grow(2) by (auto simp: exact_at_def)
  obtain w where w: "qedge g dir (xs ! i) (xs ! Suc i) w" "D (xs ! Suc i) = D (xs ! i) + w"
    using path i unfolding exact_path_def by blast
  have "xs ! Suc i \<in> heap_nodes fh' \<and> key fh' (xs ! Suc i) \<le> D (xs ! Suc i)"
  proof (cases "xs ! i \<in> removed fh")
    case True
    then have "exact_at D fh (xs ! Suc i)"
      using ho i key unfolding handed_on_def exact_at_def by blast
    then show ?thesis
      using grow(1) grow(3) [of "xs ! Suc i"] by (auto simp: exact_at_def)
  next
    case False
    then have node: "xs ! i = node"
      using r grow(2) by blast
    have "\<not> (\<exists>u w. qedge g (\<not> dir) node u w \<and> u \<in> heap_nodes fh \<and> key fh u + w < key fh node)"
    proof
      assume "\<exists>u w. qedge g (\<not> dir) node u w \<and> u \<in> heap_nodes fh \<and> key fh u + w < key fh node"
      then obtain u w' where u: "qedge g (\<not> dir) node u w'" "u \<in> heap_nodes fh" "key fh u + w' < key fh node"
        by blast
      moreover have "D node \<le> D u + w'"
        using pot u(1) by (simp add: potential_def)
      ultimately show False
        using potential_le_key [OF inv(1) ok pot u(2)] key node by simp
    qed
    then have "\<forall>v w. qedge g dir node v w \<longrightarrow> v \<in> heap_nodes fh' \<and> key fh' v \<le> key fh node + w"
      using ex unfolding expanded_def by blast
    then show ?thesis
      using w key node by auto
  qed
  moreover from this have "D (xs ! Suc i) \<le> key fh' (xs ! Suc i)"
    using potential_le_key [OF inv(2) ok pot] by blast
  ultimately show "exact_at D fh' (xs ! Suc i)"
    by (simp add: exact_at_def)
qed

lemma optimal_step:
  assumes ok: "query_graph_ok g" and inv: "search_inv g dir S fh" "search_inv g (\<not> dir) T rh" and off: "off \<le> 0"
    and ne: "\<not> Empty fh" and step: "RoutingStep g fh rh m ub off dir stalling = Some (fh', rh', m', ub')"
    and pot: "potential g dir S D" and path: "exact_path g dir S D xs"
    and E: "off \<le> E (last xs)" and pos: "0 \<le> D (last xs) + E (last xs)"
    and opt: "optimal_inv D xs E ys fh rh ub"
  shows "optimal_inv D xs E ys fh' rh' ub'"
proof -
  let ?t = "last xs"
  have "heap_queue fh \<noteq> {}"
    using ne not_Empty_queue [OF inv(1)] by blast
  from RoutingStep_law [OF ok inv this off, of m ub stalling] step obtain node where
    r: "rh' = rh" "search_inv g dir S fh'" "node \<in> heap_queue fh" "(m', ub') = meet rh node (key fh node) (m, ub)"
    and min: "\<forall>q \<in> heap_queue fh. key fh node \<le> key fh q"
    and cases: "pruned fh node off ub' fh' \<or> expanded g dir stalling fh node fh'"
    by auto
  have ub': "ub' \<le> ub"
    using r(4) by (auto simp: meet_def split: if_splits)
  have xs: "xs \<noteq> []" "?t = xs ! (length xs - 1)"
    using path by (auto simp: exact_path_def last_conv_nth)
  show ?thesis
  proof (cases "ub' \<le> D ?t + E ?t")
    case True
    then show ?thesis by (simp add: optimal_inv_def)
  next
    case False
    with opt ub' have ho: "handed_on D xs fh" "handed_on E ys rh"
      and nb: "\<not> (exact_at D fh ?t \<and> ?t \<in> removed fh \<and> exact_at E rh ?t \<and> ?t \<in> removed rh)"
      by (auto simp: optimal_inv_def)
    from cases have "handed_on D xs fh' \<and> \<not> (exact_at D fh' ?t \<and> ?t \<in> removed fh' \<and> exact_at E rh ?t \<and> ?t \<in> removed rh)"
    proof
      assume ex: "expanded g dir stalling fh node fh'"
      have "ub' \<le> D ?t + E ?t"
        if "exact_at D fh' ?t" "?t \<in> removed fh'" "exact_at E rh ?t" "?t \<in> removed rh"
      proof -
        have rem: "removed fh' = insert node (removed fh)" "key fh' ?t = key fh ?t"
          using ex that(2) unfolding expanded_def by blast+
        have "?t \<notin> removed fh"
          using nb that rem(2) unfolding exact_at_def by auto
        then have "?t = node"
          using that(2) rem(1) by blast
        then have "key rh node + key fh node = D ?t + E ?t" "node \<in> heap_nodes rh"
          using that rem(2) by (auto simp: exact_at_def)
        then show ?thesis
          using r(4) pos by (auto simp: meet_def split: if_splits)
      qed
      with False expanded_handed_on [OF inv(1) r(2) ok pot path ho(1) ex] show ?thesis by blast
    next
      assume pr: "pruned fh node off ub' fh'"
      then have pr': "ub' < key fh node + off" "heap_keys fh' = heap_keys fh" "heap_nodes fh' = heap_nodes fh"
        unfolding pruned_def by blast+
      from frontier [OF inv(1) ok pot path ho(1)] show ?thesis
      proof cases
        case (1 i)
        then have "key fh node \<le> D (xs ! i)"
          using min by (auto simp: exact_at_def)
        also have "\<dots> \<le> D ?t"
          using exact_path_mono [OF ok path, of i "length xs - 1"] 1(1) xs(2) by simp
        finally show ?thesis
          using pr'(1) E False by simp
      next
        case 2
        have "exact_at D fh' (xs ! i)" if "i < length xs" for i
          using 2 [OF that] pr'(2,3) by (simp add: exact_at_def)
        then have "handed_on D xs fh'"
          by (simp add: handed_on_def)
        moreover have "exact_at D fh ?t \<and> ?t \<in> removed fh"
          using 2 [of "length xs - 1"] xs by simp
        ultimately show ?thesis
          using nb by blast
      qed
    qed
    with ho(2) r(1) show ?thesis
      by (simp add: optimal_inv_def)
  qed
qed

lemma optimal_steps:
  assumes steps: "(search_step g off stalling)\<^sup>*\<^sup>* s s'" and ok: "query_graph_ok g" and off: "off \<le> 0"
    and inv: "both_inv g S T s" "found_inv ub0 s"
    and pot: "potential g True S D" "potential g False T E"
    and path: "exact_path g True S D xs" "exact_path g False T E ys" "last ys = last xs"
    and bounds: "off \<le> E (last xs)" "off \<le> D (last xs)" "0 \<le> D (last xs) + E (last xs)"
    and opt: "(\<lambda>(fh, rh, m, ub). optimal_inv D xs E ys fh rh ub) s"
  shows "(\<lambda>(fh, rh, m, ub). optimal_inv D xs E ys fh rh ub) s'"
  using steps
proof induction
  case (step s1 s2)
  have I1: "both_inv g S T s1"
    using search_steps_inv [OF step.hyps(1) ok off inv] by blast
  from step.hyps(2) show ?case
  proof cases
    case (step_forward fh rh m ub fh' rh' m' ub')
    have I: "search_inv g True S fh" "search_inv g (\<not> True) T rh"
      using I1 step_forward(1) by (simp_all add: both_inv_def)
    show ?thesis
      using optimal_step [OF ok I off step_forward(3,4) pot(1) path(1), of E ys] bounds step.IH step_forward(1,2)
      by simp
  next
    case (step_reverse rh fh m ub rh' fh' m' ub')
    have I: "search_inv g False T rh" "search_inv g (\<not> False) S fh"
      using I1 step_reverse(1) by (simp_all add: both_inv_def)
    have "optimal_inv E ys D xs rh fh ub"
      using step.IH step_reverse(1) path(3) optimal_inv_sym [of xs ys] by simp
    then have "optimal_inv E ys D xs rh' fh' ub'"
      using optimal_step [OF ok I off step_reverse(3,4) pot(2) path(2), of D xs] bounds path(3)
      by (simp add: add.commute)
    then show ?thesis
      using step_reverse(2) path(3) optimal_inv_sym [of xs ys] by simp
  qed
qed (rule opt)

section \<open>Properties of the search\<close>

text \<open>
  A graph of two nodes and one edge, and the heaps of a query from the first to the second,
  to evaluate the theorems at.
\<close>

definition sample_query_graph :: query_graph where
  "sample_query_graph = StaticGraph_of_arrays [0, 1, 1]
     [\<lparr>ee_target = 1, ee_data = \<lparr>qe_id = 0, qe_shortcut = False, qe_distance = 5, qe_forward = True, qe_backward = False\<rparr>\<rparr>]"

definition sample_query_heap :: "NodeID \<Rightarrow> query_heap" where
  "sample_query_heap v = the (Insert query_storage v 0 v (BinaryHeap query_storage 2))"

lemma sample_query_graph_ok: "query_graph_ok sample_query_graph"
  by (auto simp: query_graph_ok_def sample_query_graph_def StaticGraph_of_arrays_def sg_ok_def limits_defs less_Suc_eq numeral_2_eq_2)

lemma sample_qedge: "qedge sample_query_graph dir u v w \<longleftrightarrow> dir \<and> u = 0 \<and> v = 1 \<and> w = 5"
  by (auto simp: qedge_def sample_query_graph_def StaticGraph_of_arrays_def less_Suc_eq)

lemma started_new: "started g Map.empty (BinaryHeap query_storage n)"
proof -
  have "qinv (BinaryHeap query_storage n) \<and> heap_keys (BinaryHeap query_storage n) = Map.empty
    \<and> heap_data (BinaryHeap query_storage n) = Map.empty \<and> heap_queue (BinaryHeap query_storage n) = {}"
    using umap.new_law [where key_max = "nat INT_MAX" and sz = n, folded query_storage_def]
    by (auto simp: query_storage_def UnorderedMapStorage_def map_ok_def)
  then show ?thesis by (simp add: started_def)
qed

lemma sample_started: "v < 2 \<Longrightarrow> started sample_query_graph [v \<mapsto> 0] (sample_query_heap v)"
  using started_Insert [OF started_new [of sample_query_graph 2], of v 0]
  by (auto simp: sample_query_graph_def StaticGraph_of_arrays_def INT_MIN_def sample_query_heap_def)







end
