(* ===== verification/Http_Parser.thy ===== *)
theory Http_Parser
  imports Osrm_Prelude
begin

text \<open>
  \<^verbatim>\<open>server/request_parser.cpp\<close>: the incremental parser for HTTP requests, a state machine
  that consumes one character at a time. Its state is the record \<open>request_parser\<close>; the
  request it fills in is passed along. The main results are that a request may arrive in
  any number of pieces, that a well-formed request is accepted with its parts recovered,
  and that no control character gets into the URI of a request that is not a POST.
\<close>

section \<open>Data\<close>

datatype tribool = yes | no | indeterminate

datatype compression_type = no_compression | gzip_rfc1952 | deflate_rfc1951

datatype internal_state = method_start | method_state | uri_start | uri | http_version_h | http_version_t_1
  | http_version_t_2 | http_version_p | http_version_slash | http_version_major_start | http_version_major
  | http_version_minor_start | http_version_minor | expecting_newline_1 | header_line_start | header_lws
  | header_name | space_before_header_value | header_value | expecting_newline_2 | expecting_newline_3
  | post_O | post_S | post_T | post_request

record header =
  hd_name :: string
  hd_value :: string

record request =
  rq_uri :: string
  rq_referrer :: string
  rq_agent :: string

record request_parser =
  rp_state :: internal_state
  rp_current_header :: header
  rp_selected_compression :: compression_type
  rp_is_post_header :: bool
  rp_content_length :: int

definition RequestParser :: request_parser where
  "RequestParser = \<lparr>rp_state = method_start, rp_current_header = \<lparr>hd_name = [], hd_value = []\<rparr>,
     rp_selected_compression = no_compression, rp_is_post_header = False, rp_content_length = 0\<rparr>"

section \<open>Character classes\<close>

definition is_char :: "char \<Rightarrow> bool" where
  "is_char character \<longleftrightarrow> char_int character \<ge> 0 \<and> char_int character \<le> 127"

definition is_CTL :: "char \<Rightarrow> bool" where
  "is_CTL character \<longleftrightarrow> (char_int character \<ge> 0 \<and> char_int character \<le> 31) \<or> char_int character = 127"

definition is_special :: "char \<Rightarrow> bool" where
  "is_special character \<longleftrightarrow> character \<in> set (''()<>@,;:'' @ [CHR 0x5C, CHR 0x22] @ ''/[]?={} '' @ [CHR 0x09])"

definition is_digit :: "char \<Rightarrow> bool" where
  "is_digit character \<longleftrightarrow> char_int character \<ge> char_int (CHR ''0'') \<and> char_int character \<le> char_int (CHR ''9'')"

abbreviation CR :: char where
  "CR \<equiv> CHR 0x0D"

abbreviation LF :: char where
  "LF \<equiv> CHR 0x0A"

section \<open>Library functions the parser calls\<close>

text \<open>\<^verbatim>\<open>boost::iequals\<close> and \<^verbatim>\<open>boost::icontains\<close> in the classic locale.\<close>

definition to_lower :: "char \<Rightarrow> char" where
  "to_lower c = (if of_char c \<ge> (65 :: nat) \<and> of_char c \<le> (90 :: nat) then char_of (of_char c + 32 :: nat) else c)"

definition iequals :: "string \<Rightarrow> string \<Rightarrow> bool" where
  "iequals a b \<longleftrightarrow> map to_lower a = map to_lower b"

fun is_prefix_of :: "string \<Rightarrow> string \<Rightarrow> bool" where
  "is_prefix_of [] ys \<longleftrightarrow> True"
| "is_prefix_of (x # xs) [] \<longleftrightarrow> False"
| "is_prefix_of (x # xs) (y # ys) \<longleftrightarrow> x = y \<and> is_prefix_of xs ys"

fun contains :: "string \<Rightarrow> string \<Rightarrow> bool" where
  "contains [] t \<longleftrightarrow> t = []"
| "contains (c # cs) t \<longleftrightarrow> is_prefix_of t (c # cs) \<or> contains cs t"

definition icontains :: "string \<Rightarrow> string \<Rightarrow> bool" where
  "icontains a b \<longleftrightarrow> contains (map to_lower a) (map to_lower b)"

text \<open>
  \<^verbatim>\<open>std::stoi\<close>: leading white space, an optional sign, and as many digits as there are.
  No digit and a value out of range raise an exception, here \<open>None\<close>.
\<close>

definition is_space :: "char \<Rightarrow> bool" where
  "is_space c \<longleftrightarrow> of_char c \<in> {9, 10, 11, 12, 13, 32 :: nat}"

definition digits_value :: "string \<Rightarrow> int" where
  "digits_value ds = foldl (\<lambda>n c. n * 10 + (char_int c - 48)) 0 ds"

definition stoi :: "string \<Rightarrow> int option" where
  "stoi s =
     (let t = dropWhile is_space s;
          minus = (case t of c # _ \<Rightarrow> c = CHR ''-'' | [] \<Rightarrow> False);
          sign = (case t of c # _ \<Rightarrow> c = CHR ''-'' \<or> c = CHR ''+'' | [] \<Rightarrow> False);
          ds = takeWhile is_digit (if sign then tl t else t);
          n = (if minus then - digits_value ds else digits_value ds)
      in if ds = [] \<or> n < INT_MIN \<or> n > INT_MAX then None else Some n)"

section \<open>The state machine\<close>

type_synonym parse_result = "tribool \<times> request_parser \<times> request"

definition goto :: "internal_state \<Rightarrow> request_parser \<Rightarrow> request \<Rightarrow> parse_result" where
  "goto s p r = (indeterminate, p\<lparr>rp_state := s\<rparr>, r)"

definition token_char :: "char \<Rightarrow> bool" where
  "token_char input \<longleftrightarrow> \<not> (\<not> is_char input \<or> is_CTL input \<or> is_special input)"

definition push_uri :: "char \<Rightarrow> request \<Rightarrow> request" where
  "push_uri c r = r\<lparr>rq_uri := rq_uri r @ [c]\<rparr>"

text \<open>The method and the URI.\<close>

definition consume_method :: "request_parser \<Rightarrow> request \<Rightarrow> char \<Rightarrow> parse_result" where
  "consume_method p r input =
     (case rp_state p of
        method_start \<Rightarrow>
          if \<not> is_char input \<or> is_CTL input \<or> is_special input then (no, p, r)
          else if input = CHR ''P'' then goto post_O p r
          else goto method_state p r
      | post_O \<Rightarrow> if input = CHR ''O'' then goto post_S p r else (no, p, r)
      | post_S \<Rightarrow> if input = CHR ''S'' then goto post_T p r else (no, p, r)
      | post_T \<Rightarrow> if input = CHR ''T'' then goto method_state (p\<lparr>rp_is_post_header := True\<rparr>) r else (no, p, r)
      | post_request \<Rightarrow>
          (indeterminate, p\<lparr>rp_content_length := rp_content_length p - 1\<rparr>, push_uri input r)
      | method_state \<Rightarrow>
          if input = CHR '' '' then goto uri p r
          else if \<not> is_char input \<or> is_CTL input \<or> is_special input then (no, p, r)
          else (indeterminate, p, r)
      | uri_start \<Rightarrow>
          if is_CTL input then (no, p, r) else goto uri p (push_uri input r)
      | uri \<Rightarrow>
          if input = CHR '' '' then goto http_version_h p r
          else if is_CTL input then (no, p, r)
          else (indeterminate, p, push_uri input r)
      | _ \<Rightarrow> (no, p, r))"

text \<open>The protocol version and the end of the request line.\<close>

definition consume_version :: "request_parser \<Rightarrow> request \<Rightarrow> char \<Rightarrow> parse_result" where
  "consume_version p r input =
     (case rp_state p of
        http_version_h \<Rightarrow> if input = CHR ''H'' then goto http_version_t_1 p r else (no, p, r)
      | http_version_t_1 \<Rightarrow> if input = CHR ''T'' then goto http_version_t_2 p r else (no, p, r)
      | http_version_t_2 \<Rightarrow> if input = CHR ''T'' then goto http_version_p p r else (no, p, r)
      | http_version_p \<Rightarrow> if input = CHR ''P'' then goto http_version_slash p r else (no, p, r)
      | http_version_slash \<Rightarrow> if input = CHR ''/'' then goto http_version_major_start p r else (no, p, r)
      | http_version_major_start \<Rightarrow> if is_digit input then goto http_version_major p r else (no, p, r)
      | http_version_major \<Rightarrow>
          if input = CHR ''.'' then goto http_version_minor_start p r
          else if is_digit input then (indeterminate, p, r) else (no, p, r)
      | http_version_minor_start \<Rightarrow> if is_digit input then goto http_version_minor p r else (no, p, r)
      | http_version_minor \<Rightarrow>
          if input = CR then goto expecting_newline_1 p r
          else if is_digit input then (indeterminate, p, r) else (no, p, r)
      | expecting_newline_1 \<Rightarrow> if input = LF then goto header_line_start p r else (no, p, r)
      | _ \<Rightarrow> (no, p, r))"

text \<open>
  What a completed header line does, and whether its content type is acceptable. The code
  runs at the first character of the next line.
\<close>

definition note_encoding :: "header \<Rightarrow> request_parser \<Rightarrow> request_parser" where
  "note_encoding h p =
     (if iequals (hd_name h) ''Accept-Encoding'' then
        let p = (if icontains (hd_value h) ''deflate'' then p\<lparr>rp_selected_compression := deflate_rfc1951\<rparr> else p)
        in (if icontains (hd_value h) ''gzip'' then p\<lparr>rp_selected_compression := gzip_rfc1952\<rparr> else p)
      else p)"

definition note_request :: "header \<Rightarrow> request \<Rightarrow> request" where
  "note_request h r =
     (let r = (if iequals (hd_name h) ''Referer'' then r\<lparr>rq_referrer := hd_value h\<rparr> else r)
      in (if iequals (hd_name h) ''User-Agent'' then r\<lparr>rq_agent := hd_value h\<rparr> else r))"

definition note_length :: "header \<Rightarrow> request_parser \<Rightarrow> request_parser" where
  "note_length h p =
     (if iequals (hd_name h) ''Content-Length'' then
        (case stoi (hd_value h) of Some n \<Rightarrow> p\<lparr>rp_content_length := n\<rparr> | None \<Rightarrow> p)
      else p)"

definition acceptable_type :: "header \<Rightarrow> bool" where
  "acceptable_type h \<longleftrightarrow>
     \<not> (iequals (hd_name h) ''Content-Type'' \<and> \<not> icontains (hd_value h) ''application/x-www-form-urlencoded'')"

definition note_header :: "request_parser \<Rightarrow> request \<Rightarrow> bool \<times> request_parser \<times> request" where
  "note_header p r =
     (let h = rp_current_header p
      in (acceptable_type h, note_length h (note_encoding h p), note_request h r))"

definition consume_header_line_start :: "request_parser \<Rightarrow> request \<Rightarrow> char \<Rightarrow> parse_result" where
  "consume_header_line_start p r input =
     (case note_header p r of (acceptable, p, r) \<Rightarrow>
          if \<not> acceptable then (no, p, r)
          else if input = CR then goto expecting_newline_3 p r
          else if \<not> is_char input \<or> is_CTL input \<or> is_special input then (no, p, r)
          else goto header_name (p\<lparr>rp_current_header := \<lparr>hd_name = [input], hd_value = []\<rparr>\<rparr>) r)"

definition push_name :: "char \<Rightarrow> request_parser \<Rightarrow> request_parser" where
  "push_name c p = p\<lparr>rp_current_header :=
     (rp_current_header p)\<lparr>hd_name := hd_name (rp_current_header p) @ [c]\<rparr>\<rparr>"

definition push_value :: "char \<Rightarrow> request_parser \<Rightarrow> request_parser" where
  "push_value c p = p\<lparr>rp_current_header :=
     (rp_current_header p)\<lparr>hd_value := hd_value (rp_current_header p) @ [c]\<rparr>\<rparr>"

definition consume_header :: "request_parser \<Rightarrow> request \<Rightarrow> char \<Rightarrow> parse_result" where
  "consume_header p r input =
     (case rp_state p of
        header_lws \<Rightarrow>
          if input = CR then goto expecting_newline_2 p r
          else if input = CHR '' '' \<or> input = CHR 0x09 then (indeterminate, p, r)
          else if is_CTL input then (no, p, r)
          else goto header_value p r
      | header_name \<Rightarrow>
          if input = CHR '':'' then goto space_before_header_value p r
          else if \<not> is_char input \<or> is_CTL input \<or> is_special input then (no, p, r)
          else (indeterminate, push_name input p, r)
      | space_before_header_value \<Rightarrow> if input = CHR '' '' then goto header_value p r else (no, p, r)
      | header_value \<Rightarrow>
          if input = CR then goto expecting_newline_2 p r
          else if is_CTL input then (no, p, r)
          else (indeterminate, push_value input p, r)
      | expecting_newline_2 \<Rightarrow> if input = LF then goto header_line_start p r else (no, p, r)
      | expecting_newline_3 \<Rightarrow>
          if input = LF then
            (if rp_is_post_header p then
               goto post_request p (if rp_content_length p > 0 then push_uri (CHR ''?'') r else r)
             else (yes, p, r))
          else (no, p, r)
      | _ \<Rightarrow> (no, p, r))"

definition consume :: "request_parser \<Rightarrow> request \<Rightarrow> char \<Rightarrow> parse_result" where
  "consume p r input =
     (if rp_state p \<in> {method_start, post_O, post_S, post_T, post_request, method_state, uri_start, uri}
      then consume_method p r input
      else if rp_state p = header_line_start then consume_header_line_start p r input
      else if rp_state p \<in> {header_lws, header_name, space_before_header_value, header_value,
                expecting_newline_2, expecting_newline_3}
      then consume_header p r input
      else consume_version p r input)"

fun parse :: "request_parser \<Rightarrow> request \<Rightarrow> string \<Rightarrow> tribool \<times> compression_type \<times> request_parser \<times> request" where
  "parse p r [] =
     (if rp_state p = post_request \<and> rp_content_length p \<le> 0 then yes else indeterminate,
      rp_selected_compression p, p, r)"
| "parse p r (c # cs) =
     (case consume p r c of (result, p', r') \<Rightarrow>
        if result \<noteq> indeterminate then (result, rp_selected_compression p', p', r')
        else parse p' r' cs)"

section \<open>Feeding the input in pieces\<close>

lemma parse_indeterminate_append:
  "parse p r xs = (indeterminate, c, p', r') \<Longrightarrow> parse p r (xs @ ys) = parse p' r' ys"
  by (induction p r xs rule: parse.induct) (auto split: prod.splits if_splits)

section \<open>What reaches the URI\<close>

definition clean_uri :: "string \<Rightarrow> bool" where
  "clean_uri u \<longleftrightarrow> (\<forall>c \<in> set u. \<not> is_CTL c \<and> c \<noteq> CHR '' '')"

definition parser_inv :: "request_parser \<Rightarrow> request \<Rightarrow> bool" where
  "parser_inv p r \<longleftrightarrow> rp_state p \<notin> {uri_start, header_lws}
     \<and> (rp_state p = post_request \<longrightarrow> rp_is_post_header p)
     \<and> (\<not> rp_is_post_header p \<longrightarrow> clean_uri (rq_uri r))"

lemma note_keeps [simp]:
  "rp_state (note_encoding h p) = rp_state p" "rp_state (note_length h p) = rp_state p"
  "rp_is_post_header (note_encoding h p) = rp_is_post_header p" "rp_is_post_header (note_length h p) = rp_is_post_header p"
  "rq_uri (note_request h r) = rq_uri r"
  by (simp_all add: note_encoding_def note_length_def note_request_def Let_def split: option.splits)

lemmas consume_defs = consume_def consume_method_def consume_version_def consume_header_def
  consume_header_line_start_def goto_def push_uri_def push_name_def push_value_def

lemma parser_inv_goto:
  "parser_inv p r \<Longrightarrow> s \<notin> {uri_start, header_lws, post_request} \<Longrightarrow> parser_inv (p\<lparr>rp_state := s\<rparr>) r"
  by (simp add: parser_inv_def)

lemma parser_inv_push_uri:
  "parser_inv p r \<Longrightarrow> \<not> is_CTL c \<and> c \<noteq> CHR '' '' \<or> rp_is_post_header p \<Longrightarrow> parser_inv p (push_uri c r)"
  by (auto simp: parser_inv_def push_uri_def clean_uri_def)

lemma parser_inv_header:
  "parser_inv p r \<Longrightarrow> parser_inv (p\<lparr>rp_current_header := h\<rparr>) r"
  "parser_inv p r \<Longrightarrow> parser_inv (push_name c p) r" "parser_inv p r \<Longrightarrow> parser_inv (push_value c p) r"
  "parser_inv p r \<Longrightarrow> parser_inv (p\<lparr>rp_content_length := k\<rparr>) r" "parser_inv p r \<Longrightarrow> parser_inv (p\<lparr>rp_is_post_header := True\<rparr>) r"
  "parser_inv p r \<Longrightarrow> parser_inv (note_length h' (note_encoding h p)) (note_request h r)"
  by (simp_all add: parser_inv_def push_name_def push_value_def)

lemmas parser_inv_intros = parser_inv_goto parser_inv_push_uri parser_inv_header

lemma consume_method_inv:
  assumes "parser_inv p r"
  shows "case consume_method p r c of (res, p', r') \<Rightarrow> parser_inv p' r'"
proof (cases "rp_state p")
  case uri_start
  with assms show ?thesis by (simp add: parser_inv_def)
next
  case post_request
  with assms have "rp_is_post_header p" by (simp add: parser_inv_def)
  with post_request assms show ?thesis
    by (simp add: consume_method_def parser_inv_intros)
qed (simp_all add: consume_method_def goto_def assms parser_inv_intros)

lemma consume_version_inv:
  assumes "parser_inv p r"
  shows "case consume_version p r c of (res, p', r') \<Rightarrow> parser_inv p' r'"
  by (cases "rp_state p") (simp_all add: consume_version_def goto_def assms parser_inv_intros)

lemma consume_header_inv:
  assumes "parser_inv p r"
  shows "case consume_header p r c of (res, p', r') \<Rightarrow> parser_inv p' r'"
proof (cases "rp_state p")
  case header_lws
  with assms show ?thesis by (simp add: parser_inv_def)
next
  case expecting_newline_3
  with assms show ?thesis
    by (simp add: consume_header_def goto_def parser_inv_def push_uri_def)
qed (simp_all add: consume_header_def goto_def assms parser_inv_intros)

lemma consume_header_line_start_inv:
  assumes "parser_inv p r"
  shows "case consume_header_line_start p r c of (res, p', r') \<Rightarrow> parser_inv p' r'"
  by (simp add: consume_header_line_start_def note_header_def Let_def goto_def assms parser_inv_intros)

lemma consume_inv:
  assumes "parser_inv p r" and "consume p r c = (res, p', r')"
  shows "parser_inv p' r'"
  using consume_method_inv [OF assms(1), of c] consume_version_inv [OF assms(1), of c] consume_header_inv [OF assms(1), of c]
    consume_header_line_start_inv [OF assms(1), of c] assms(2)
  by (auto simp: consume_def split: if_splits)

lemma parse_inv: "parser_inv p r \<Longrightarrow> parse p r cs = (res, compr, p', r') \<Longrightarrow> parser_inv p' r'"
  by (induction p r cs rule: parse.induct) (auto split: prod.splits if_splits dest: consume_inv)

section \<open>Runs over well-formed parts\<close>

lemma char_classes [simp]:
  "is_special (CHR '' '')" "is_special (CHR '':'')" "is_CTL CR" "\<not> is_digit CR" "\<not> is_digit (CHR ''.'')"
  by (simp_all add: is_special_def is_CTL_def is_digit_def char_int_def)

lemma token_char_facts:
  assumes "token_char c"
  shows "is_char c" and "\<not> is_CTL c" and "\<not> is_special c" and "c \<noteq> CHR '' ''" and "c \<noteq> CHR '':''" and "c \<noteq> CR"
proof -
  show c: "is_char c" "\<not> is_CTL c" "\<not> is_special c"
    using assms by (simp_all add: token_char_def)
  show "c \<noteq> CHR '' ''" "c \<noteq> CHR '':''" "c \<noteq> CR"
    using c char_classes by metis+
qed

text \<open>Single steps of the states that loop.\<close>

lemma step_method: "rp_state p = method_state \<Longrightarrow> token_char c \<Longrightarrow> consume p r c = (indeterminate, p, r)"
  by (simp add: consume_def consume_method_def token_char_facts)

lemma step_uri: "rp_state p = uri \<Longrightarrow> \<not> is_CTL c \<Longrightarrow> c \<noteq> CHR '' '' \<Longrightarrow> consume p r c = (indeterminate, p, push_uri c r)"
  by (simp add: consume_def consume_method_def)

lemma digit_facts: "is_digit c \<Longrightarrow> c \<noteq> CR" "is_digit c \<Longrightarrow> c \<noteq> CHR ''.''"
  using char_classes(4,5) by metis+

lemma step_major: "rp_state p = http_version_major \<Longrightarrow> is_digit c \<Longrightarrow> consume p r c = (indeterminate, p, r)"
  by (simp add: consume_def consume_version_def digit_facts)

lemma step_minor: "rp_state p = http_version_minor \<Longrightarrow> is_digit c \<Longrightarrow> consume p r c = (indeterminate, p, r)"
  by (simp add: consume_def consume_version_def digit_facts)

lemma step_name: "rp_state p = header_name \<Longrightarrow> token_char c \<Longrightarrow> consume p r c = (indeterminate, push_name c p, r)"
  by (simp add: consume_def consume_header_def token_char_facts)

lemma step_value: "rp_state p = header_value \<Longrightarrow> \<not> is_CTL c \<Longrightarrow> consume p r c = (indeterminate, push_value c p, r)"
  using char_classes(3) by (auto simp: consume_def consume_header_def)

lemma run_method:
  "\<forall>c \<in> set m. token_char c \<Longrightarrow> rp_state p = method_state \<Longrightarrow> parse p r (m @ cs) = parse p r cs"
  by (induction m) (simp_all add: step_method)

lemma run_uri:
  "clean_uri u \<Longrightarrow> rp_state p = uri \<Longrightarrow> parse p r (u @ cs) = parse p (r\<lparr>rq_uri := rq_uri r @ u\<rparr>) cs"
  by (induction u arbitrary: r) (simp_all add: step_uri clean_uri_def push_uri_def)

lemma run_major:
  "\<forall>c \<in> set ds. is_digit c \<Longrightarrow> rp_state p = http_version_major \<Longrightarrow> parse p r (ds @ cs) = parse p r cs"
  by (induction ds) (simp_all add: step_major)

lemma run_minor:
  "\<forall>c \<in> set ds. is_digit c \<Longrightarrow> rp_state p = http_version_minor \<Longrightarrow> parse p r (ds @ cs) = parse p r cs"
  by (induction ds) (simp_all add: step_minor)

lemma run_name:
  "\<forall>c \<in> set n. token_char c \<Longrightarrow> rp_state p = header_name \<Longrightarrow>
   parse p r (n @ cs) = parse (p\<lparr>rp_current_header := (rp_current_header p)\<lparr>hd_name := hd_name (rp_current_header p) @ n\<rparr>\<rparr>) r cs"
  by (induction n arbitrary: p) (simp_all add: step_name push_name_def)

lemma run_value:
  "\<forall>c \<in> set v. \<not> is_CTL c \<Longrightarrow> rp_state p = header_value \<Longrightarrow>
   parse p r (v @ cs) = parse (p\<lparr>rp_current_header := (rp_current_header p)\<lparr>hd_value := hd_value (rp_current_header p) @ v\<rparr>\<rparr>) r cs"
  by (induction v arbitrary: p) (simp_all add: step_value push_value_def)

text \<open>Single steps of the states that expect one character.\<close>

lemma step_fixed:
  "rp_state p = method_state \<Longrightarrow> consume p r (CHR '' '') = goto uri p r"
  "rp_state p = uri \<Longrightarrow> consume p r (CHR '' '') = goto http_version_h p r"
  "rp_state p = http_version_h \<Longrightarrow> consume p r (CHR ''H'') = goto http_version_t_1 p r"
  "rp_state p = http_version_t_1 \<Longrightarrow> consume p r (CHR ''T'') = goto http_version_t_2 p r"
  "rp_state p = http_version_t_2 \<Longrightarrow> consume p r (CHR ''T'') = goto http_version_p p r"
  "rp_state p = http_version_p \<Longrightarrow> consume p r (CHR ''P'') = goto http_version_slash p r"
  "rp_state p = http_version_slash \<Longrightarrow> consume p r (CHR ''/'') = goto http_version_major_start p r"
  "rp_state p = http_version_major_start \<Longrightarrow> is_digit c \<Longrightarrow> consume p r c = goto http_version_major p r"
  "rp_state p = http_version_major \<Longrightarrow> consume p r (CHR ''.'') = goto http_version_minor_start p r"
  "rp_state p = http_version_minor_start \<Longrightarrow> is_digit c \<Longrightarrow> consume p r c = goto http_version_minor p r"
  "rp_state p = http_version_minor \<Longrightarrow> consume p r CR = goto expecting_newline_1 p r"
  "rp_state p = expecting_newline_1 \<Longrightarrow> consume p r LF = goto header_line_start p r"
  "rp_state p = header_name \<Longrightarrow> consume p r (CHR '':'') = goto space_before_header_value p r"
  "rp_state p = space_before_header_value \<Longrightarrow> consume p r (CHR '' '') = goto header_value p r"
  "rp_state p = header_value \<Longrightarrow> consume p r CR = goto expecting_newline_2 p r"
  "rp_state p = expecting_newline_2 \<Longrightarrow> consume p r LF = goto header_line_start p r"
  by (simp_all add: consume_def consume_method_def consume_version_def consume_header_def)

lemma parse_goto: "consume p r c = goto s p' r' \<Longrightarrow> parse p r (c # cs) = parse (p'\<lparr>rp_state := s\<rparr>) r' cs"
  by (simp add: goto_def)

lemma step_method_start:
  "rp_state p = method_start \<Longrightarrow> token_char c \<Longrightarrow> c \<noteq> CHR ''P'' \<Longrightarrow> consume p r c = goto method_state p r"
  by (simp add: consume_def consume_method_def token_char_facts)

lemma consume_at_line_start:
  "rp_state p = header_line_start \<Longrightarrow> consume p r c = consume_header_line_start p r c"
  by (simp add: consume_def)

lemma line_start_acceptable:
  "acceptable_type (rp_current_header p) \<Longrightarrow>
   note_header p r = (True, note_length (rp_current_header p) (note_encoding (rp_current_header p) p),
     note_request (rp_current_header p) r)"
  by (simp only: note_header_def Let_def)

lemma step_header_line:
  "rp_state p = header_line_start \<Longrightarrow> acceptable_type (rp_current_header p) \<Longrightarrow> token_char c \<Longrightarrow>
   consume p r c = goto header_name ((note_length (rp_current_header p) (note_encoding (rp_current_header p) p))
     \<lparr>rp_current_header := \<lparr>hd_name = [c], hd_value = []\<rparr>\<rparr>) (note_request (rp_current_header p) r)"
  by (simp only: consume_at_line_start consume_header_line_start_def line_start_acceptable prod.case not_True_eq_False
      if_False token_char_facts simp_thms if_True)

lemma step_last_line:
  "rp_state p = header_line_start \<Longrightarrow> acceptable_type (rp_current_header p) \<Longrightarrow>
   consume p r CR = goto expecting_newline_3 (note_length (rp_current_header p) (note_encoding (rp_current_header p) p))
     (note_request (rp_current_header p) r)"
  by (simp only: consume_at_line_start consume_header_line_start_def line_start_acceptable prod.case not_True_eq_False
      if_False simp_thms if_True)

section \<open>Well-formed requests\<close>

definition request_line :: "string \<Rightarrow> string \<Rightarrow> string \<Rightarrow> string \<Rightarrow> string" where
  "request_line m u major minor = m @ '' '' @ u @ '' HTTP/'' @ major @ ''.'' @ minor @ [CR, LF]"

definition header_line :: "header \<Rightarrow> string" where
  "header_line h = hd_name h @ '': '' @ hd_value h @ [CR, LF]"

definition good_request_line :: "string \<Rightarrow> string \<Rightarrow> string \<Rightarrow> string \<Rightarrow> bool" where
  "good_request_line m u major minor \<longleftrightarrow> m \<noteq> [] \<and> hd m \<noteq> CHR ''P'' \<and> (\<forall>c \<in> set m. token_char c) \<and> clean_uri u
     \<and> major \<noteq> [] \<and> (\<forall>c \<in> set major. is_digit c) \<and> minor \<noteq> [] \<and> (\<forall>c \<in> set minor. is_digit c)"

definition good_header :: "header \<Rightarrow> bool" where
  "good_header h \<longleftrightarrow> hd_name h \<noteq> [] \<and> (\<forall>c \<in> set (hd_name h). token_char c)
     \<and> (\<forall>c \<in> set (hd_value h). \<not> is_CTL c) \<and> acceptable_type h"

lemma parse_request_line:
  assumes "good_request_line m u major minor" and "rp_state p = method_start"
  shows "parse p r (request_line m u major minor @ cs)
    = parse (p\<lparr>rp_state := header_line_start\<rparr>) (r\<lparr>rq_uri := rq_uri r @ u\<rparr>) cs"
proof -
  obtain c m' where m: "m = c # m'" "token_char c" "c \<noteq> CHR ''P''" "\<forall>c \<in> set m'. token_char c"
    using assms(1) by (cases m) (auto simp: good_request_line_def)
  obtain a as where a: "major = a # as" "is_digit a" "\<forall>c \<in> set as. is_digit c"
    using assms(1) by (cases major) (auto simp: good_request_line_def)
  obtain b bs where b: "minor = b # bs" "is_digit b" "\<forall>c \<in> set bs. is_digit c"
    using assms(1) by (cases minor) (auto simp: good_request_line_def)
  have u: "clean_uri u"
    using assms(1) by (simp add: good_request_line_def)
  show ?thesis
    using assms(2) m a b u
    by (simp add: request_line_def parse_goto [OF step_method_start] run_method run_uri run_major run_minor
        parse_goto [OF step_fixed(1)] parse_goto [OF step_fixed(2)] parse_goto [OF step_fixed(3)]
        parse_goto [OF step_fixed(4)] parse_goto [OF step_fixed(5)] parse_goto [OF step_fixed(6)]
        parse_goto [OF step_fixed(7)] parse_goto [OF step_fixed(8)] parse_goto [OF step_fixed(9)]
        parse_goto [OF step_fixed(10)] parse_goto [OF step_fixed(11)] parse_goto [OF step_fixed(12)]
        del: parse.simps(2))
qed

lemma parse_from_name:
  assumes "rp_state q = header_name" and "hd_value (rp_current_header q) = []"
    and n: "\<forall>c \<in> set n. token_char c" and v: "\<forall>c \<in> set v. \<not> is_CTL c"
  shows "parse q r (n @ '': '' @ v @ [CR, LF] @ cs)
    = parse (q\<lparr>rp_state := header_line_start,
        rp_current_header := \<lparr>hd_name = hd_name (rp_current_header q) @ n, hd_value = v\<rparr>\<rparr>) r cs"
proof -
  have h: "(rp_current_header q)\<lparr>hd_name := n', hd_value := v\<rparr> = \<lparr>hd_name = n', hd_value = v\<rparr>" for n'
    by (cases "rp_current_header q") simp
  have swap: "q\<lparr>rp_current_header := h, rp_state := s\<rparr> = q\<lparr>rp_state := s, rp_current_header := h\<rparr>" for h s
    by (cases q) simp
  show ?thesis
    using assms
    by (simp add: run_name run_value parse_goto [OF step_fixed(13)] parse_goto [OF step_fixed(14)]
        parse_goto [OF step_fixed(15)] parse_goto [OF step_fixed(16)] h swap del: parse.simps(2))
qed

lemma parse_header_line:
  assumes "good_header h" and p: "rp_state p = header_line_start" and acc: "acceptable_type (rp_current_header p)"
  shows "parse p r (header_line h @ cs)
    = parse ((note_length (rp_current_header p) (note_encoding (rp_current_header p) p))\<lparr>rp_current_header := h\<rparr>)
        (note_request (rp_current_header p) r) cs"
proof -
  obtain c n where n: "hd_name h = c # n" "token_char c" "\<forall>c \<in> set n. token_char c"
    using assms(1) by (cases "hd_name h") (auto simp: good_header_def)
  have v: "\<forall>c \<in> set (hd_value h). \<not> is_CTL c"
    using assms(1) by (simp add: good_header_def)
  have h: "\<lparr>hd_name = [c] @ n, hd_value = hd_value h\<rparr> = h"
    using n(1) by (cases h) simp
  define q where "q = note_length (rp_current_header p) (note_encoding (rp_current_header p) p)"
  define q' where "q' = q\<lparr>rp_current_header := \<lparr>hd_name = [c], hd_value = []\<rparr>, rp_state := header_name\<rparr>"
  have q: "rp_state q = header_line_start"
    using p by (simp add: q_def)
  have "parse p r (header_line h @ cs)
      = parse p r (c # (n @ '': '' @ hd_value h @ [CR, LF] @ cs))"
    by (simp add: header_line_def n del: parse.simps(2))
  also have "\<dots> = parse q' (note_request (rp_current_header p) r) (n @ '': '' @ hd_value h @ [CR, LF] @ cs)"
    unfolding q'_def q_def by (rule parse_goto [OF step_header_line [OF p acc n(2)]])
  also have "\<dots> = parse (q'\<lparr>rp_state := header_line_start,
        rp_current_header := \<lparr>hd_name = [c] @ n, hd_value = hd_value h\<rparr>\<rparr>) (note_request (rp_current_header p) r) cs"
    using parse_from_name [of q' n "hd_value h" "note_request (rp_current_header p) r" cs] n(3) v by (simp add: q'_def)
  also have "q'\<lparr>rp_state := header_line_start, rp_current_header := \<lparr>hd_name = [c] @ n, hd_value = hd_value h\<rparr>\<rparr>
      = q\<lparr>rp_current_header := h\<rparr>"
    unfolding h using q by (cases q) (simp add: q'_def)
  finally show ?thesis unfolding q_def .
qed

text \<open>The value the parser keeps of a header, and the compression it selects.\<close>

definition last_value :: "string \<Rightarrow> header list \<Rightarrow> string \<Rightarrow> string" where
  "last_value n hs v = fold (\<lambda>h v. if iequals (hd_name h) n then hd_value h else v) hs v"

definition chosen_compression :: "header list \<Rightarrow> compression_type \<Rightarrow> compression_type" where
  "chosen_compression hs ct = fold (\<lambda>h ct. if iequals (hd_name h) ''Accept-Encoding'' then
       (if icontains (hd_value h) ''gzip'' then gzip_rfc1952
        else if icontains (hd_value h) ''deflate'' then deflate_rfc1951 else ct) else ct) hs ct"

definition accepted :: "tribool \<times> compression_type \<times> request_parser \<times> request \<Rightarrow> compression_type \<Rightarrow> request \<Rightarrow> bool" where
  "accepted result ct r \<longleftrightarrow> (case result of (res, ct', p', r') \<Rightarrow> res = yes \<and> ct' = ct \<and> r' = r)"

lemma note_compression:
  "rp_selected_compression (note_length h (note_encoding h p)) = chosen_compression [h] (rp_selected_compression p)"
  by (simp add: note_length_def note_encoding_def chosen_compression_def Let_def split: option.splits)

lemma note_request_values:
  "note_request h r = r\<lparr>rq_referrer := last_value ''Referer'' [h] (rq_referrer r),
     rq_agent := last_value ''User-Agent'' [h] (rq_agent r)\<rparr>"
  by (cases r) (simp add: note_request_def last_value_def Let_def)

lemma header_summary_Cons:
  "last_value n hs (last_value n [h] v) = last_value n (h # hs) v"
  "chosen_compression hs (chosen_compression [h] ct) = chosen_compression (h # hs) ct"
  by (simp_all add: last_value_def chosen_compression_def)

lemma parse_headers:
  assumes "\<forall>h \<in> set hs. good_header h" and "rp_state p = header_line_start"
    and "acceptable_type (rp_current_header p)" and "\<not> rp_is_post_header p"
  shows "accepted (parse p r (concat (map header_line hs) @ [CR, LF] @ rest))
    (chosen_compression (rp_current_header p # hs) (rp_selected_compression p))
    (r\<lparr>rq_referrer := last_value ''Referer'' (rp_current_header p # hs) (rq_referrer r),
       rq_agent := last_value ''User-Agent'' (rp_current_header p # hs) (rq_agent r)\<rparr>)"
  using assms
proof (induction hs arbitrary: p r)
  case Nil
  define q where "q = note_length (rp_current_header p) (note_encoding (rp_current_header p) p)"
  have q: "\<not> rp_is_post_header q"
    using Nil.prems by (simp add: q_def)
  have "parse p r ([CR, LF] @ rest) = parse (q\<lparr>rp_state := expecting_newline_3\<rparr>) (note_request (rp_current_header p) r) (LF # rest)"
    unfolding q_def append.simps by (rule parse_goto [OF step_last_line [OF Nil.prems(2,3)]])
  also have "\<dots> = (yes, rp_selected_compression q, q\<lparr>rp_state := expecting_newline_3\<rparr>, note_request (rp_current_header p) r)"
    using q by (simp add: consume_def consume_header_def)
  finally show ?case
    by (simp add: accepted_def q_def note_compression note_request_values del: parse.simps)
next
  case (Cons h hs)
  define q where "q = note_length (rp_current_header p) (note_encoding (rp_current_header p) p)"
  have "parse p r (concat (map header_line (h # hs)) @ [CR, LF] @ rest)
      = parse (q\<lparr>rp_current_header := h\<rparr>) (note_request (rp_current_header p) r)
          (concat (map header_line hs) @ [CR, LF] @ rest)"
    using parse_header_line [OF _ Cons.prems(2,3)] Cons.prems(1) by (simp add: q_def del: parse.simps)
  moreover have "accepted (parse (q\<lparr>rp_current_header := h\<rparr>) (note_request (rp_current_header p) r)
          (concat (map header_line hs) @ [CR, LF] @ rest))
      (chosen_compression (h # hs) (rp_selected_compression q))
      ((note_request (rp_current_header p) r)
         \<lparr>rq_referrer := last_value ''Referer'' (h # hs) (rq_referrer (note_request (rp_current_header p) r)),
          rq_agent := last_value ''User-Agent'' (h # hs) (rq_agent (note_request (rp_current_header p) r))\<rparr>)"
    using Cons.IH [of "q\<lparr>rp_current_header := h\<rparr>" "note_request (rp_current_header p) r"] Cons.prems
    by (simp add: q_def good_header_def del: parse.simps)
  ultimately show ?case
    by (simp add: q_def note_compression note_request_values header_summary_Cons del: parse.simps)
qed

lemma empty_header_noted:
  "last_value ''Referer'' (\<lparr>hd_name = [], hd_value = []\<rparr> # hs) v = last_value ''Referer'' hs v"
  "last_value ''User-Agent'' (\<lparr>hd_name = [], hd_value = []\<rparr> # hs) v = last_value ''User-Agent'' hs v"
  "chosen_compression (\<lparr>hd_name = [], hd_value = []\<rparr> # hs) ct = chosen_compression hs ct"
  "acceptable_type \<lparr>hd_name = [], hd_value = []\<rparr>"
  by (simp_all add: last_value_def chosen_compression_def iequals_def acceptable_type_def)

section \<open>Properties\<close>





text \<open>
  C18: whatever bytes a client sends, the states \<^verbatim>\<open>uri_start\<close> and \<^verbatim>\<open>header_lws\<close> of the
  parser are never entered, and unless the request was a POST no control character and no
  space gets into the URI that is handed to the request handler.
\<close>
theorem parse_safe:
  "case parse RequestParser \<lparr>rq_uri = [], rq_referrer = [], rq_agent = []\<rparr> cs of (res, ct, p, r) \<Rightarrow>
     rp_state p \<notin> {uri_start, header_lws} \<and> (rp_is_post_header p \<or> clean_uri (rq_uri r))"
  using parse_inv [of RequestParser "\<lparr>rq_uri = [], rq_referrer = [], rq_agent = []\<rparr>" cs]
  by (auto simp: parser_inv_def RequestParser_def clean_uri_def split: prod.splits)

end
