(* ===== verification/Text_Codecs.thy ===== *)
theory Text_Codecs
  imports Osrm_Prelude "HOL-Library.Signed_Division"
begin

text \<open>
  The string routines of \<^verbatim>\<open>util/string_util.hpp\<close> (\<open>printInt\<close>, \<open>escape_JSON\<close>,
  \<open>URIDecode\<close>) and the polyline codec of \<^verbatim>\<open>algorithms/polyline_compressor.cpp\<close>. A string
  is a list of characters. The buffer of \<open>printInt\<close> is a list written at checked
  positions, so that a write in front of it is \<open>None\<close>. The only floating-point
  computation, the scaling of a decoded coordinate, is an argument of \<open>decode_string\<close>.
\<close>

unbundle bit_operations_syntax

section \<open>Printing fixed-point numbers\<close>

text \<open>
  A write through the \<^verbatim>\<open>char\<close> pointer; the position is relative to the start of the buffer.
\<close>

definition write_at :: "string \<Rightarrow> int \<Rightarrow> char \<Rightarrow> string option" where
  "write_at buffer pos c = (if 0 \<le> pos then upd_opt buffer (nat pos) c else None)"

fun put_fraction :: "nat \<Rightarrow> string \<Rightarrow> int \<Rightarrow> int \<Rightarrow> (string \<times> int \<times> int) option" where
  "put_fraction 0 buffer pos v = Some (buffer, pos, v)"
| "put_fraction (Suc k) buffer pos v = do {
     buffer \<leftarrow> write_at buffer pos (char_of (48 - v smod 10));
     put_fraction k buffer (pos - 1) (v sdiv 10) }"

fun put_whole :: "nat \<Rightarrow> string \<Rightarrow> int \<Rightarrow> int \<Rightarrow> (string \<times> int) option" where
  "put_whole 0 buffer pos v = Some (buffer, pos)"
| "put_whole (Suc k) buffer pos v = do {
     buffer \<leftarrow> write_at buffer pos (char_of (48 - v smod 10));
     (if v sdiv 10 = 0 then Some (buffer, pos) else put_whole k buffer (pos - 1) (v sdiv 10)) }"

definition printInt :: "nat \<Rightarrow> nat \<Rightarrow> string \<Rightarrow> int \<Rightarrow> (string \<times> int) option" where
  "printInt len precision buffer v =
     (let minus = (v < 0);
          v = (if v \<ge> 0 then - v else v)
      in do {
        (buffer, pos, v) \<leftarrow> put_fraction precision buffer (int len - 1) v;
        buffer \<leftarrow> write_at buffer pos (CHR ''.'');
        (buffer, pos) \<leftarrow> put_whole (len - (precision + 1)) buffer (pos - 1) v;
        (if minus then do {
           buffer \<leftarrow> write_at buffer (pos - 1) (CHR ''-'');
           Some (buffer, pos - 1) }
         else Some (buffer, pos)) })"

section \<open>Escaping and unescaping\<close>

definition escape_letter :: "char \<Rightarrow> string" where
  "escape_letter letter =
     (if letter = CHR 0x5C then [CHR 0x5C, CHR 0x5C]
      else if letter = CHR 0x22 then [CHR 0x5C, CHR 0x22]
      else if letter = CHR ''/'' then [CHR 0x5C, CHR ''/'']
      else if letter = CHR 0x08 then [CHR 0x5C, CHR ''b'']
      else if letter = CHR 0x0C then [CHR 0x5C, CHR ''f'']
      else if letter = CHR 0x0A then [CHR 0x5C, CHR ''n'']
      else if letter = CHR 0x0D then [CHR 0x5C, CHR ''r'']
      else if letter = CHR 0x09 then [CHR 0x5C, CHR ''t'']
      else [letter])"

definition escape_JSON :: "string \<Rightarrow> string" where
  "escape_JSON input = fold (\<lambda>letter output. output @ escape_letter letter) input []"

text \<open>
  \<open>URIDecode\<close> reads up to two characters ahead; a \<^verbatim>\<open>std::string\<close> has a null character after
  its last one.
\<close>

definition isxdigit :: "char \<Rightarrow> bool" where
  "isxdigit c \<longleftrightarrow> (48 \<le> char_int c \<and> char_int c \<le> 57) \<or> (65 \<le> char_int c \<and> char_int c \<le> 70)
     \<or> (97 \<le> char_int c \<and> char_int c \<le> 102)"

definition hex_digit :: "char \<Rightarrow> int" where
  "hex_digit c = char_int c - (if char_int c < 58 then 48 else if char_int c < 71 then 55 else 87)"

definition char_at :: "string \<Rightarrow> nat \<Rightarrow> char" where
  "char_at s i = (if i < length s then s ! i else CHR 0x00)"

definition escape_at :: "string \<Rightarrow> nat \<Rightarrow> bool" where
  "escape_at s i \<longleftrightarrow> char_at s i = CHR ''%'' \<and> char_at s (i + 1) \<noteq> CHR 0x00 \<and> char_at s (i + 2) \<noteq> CHR 0x00
     \<and> isxdigit (char_at s (i + 1)) \<and> isxdigit (char_at s (i + 2))"

definition decoded_at :: "string \<Rightarrow> nat \<Rightarrow> char" where
  "decoded_at s i =
     (if escape_at s i then char_of (16 * hex_digit (char_at s (i + 1)) + hex_digit (char_at s (i + 2))) else char_at s i)"

function URIDecode_loop :: "string \<Rightarrow> nat \<Rightarrow> nat \<Rightarrow> string \<Rightarrow> (string \<times> nat) option" where
  "URIDecode_loop input src_iter decoded_length output =
     (if src_iter < length input then do {
        output' \<leftarrow> upd_opt output decoded_length (decoded_at input src_iter);
        URIDecode_loop input (if escape_at input src_iter then src_iter + 3 else src_iter + 1) (decoded_length + 1) output' }
      else Some (output, decoded_length))"
  by pat_completeness auto
termination
  by (relation "measure (\<lambda>(input, src_iter, _, _). length input - src_iter)") auto

definition URIDecode :: "string \<Rightarrow> (string \<times> nat) option" where
  "URIDecode input = do {
     (output, decoded_length) \<leftarrow> URIDecode_loop input 0 0 (replicate (length input + 1) (CHR 0x00));
     Some (take decoded_length output, decoded_length) }"

text \<open>
  \<open>URIDecodeInPlace\<close> passes the same string as input and output. The model covers the case in
  which the \<^verbatim>\<open>resize\<close> keeps the characters where they are; a \<^verbatim>\<open>resize\<close> that moves them
  leaves both iterators dangling. The end of the input was taken before the \<^verbatim>\<open>resize\<close>.
\<close>

function URIDecodeInPlace_loop :: "nat \<Rightarrow> string \<Rightarrow> nat \<Rightarrow> nat \<Rightarrow> (string \<times> nat) option" where
  "URIDecodeInPlace_loop src_end URI src_iter decoded_length =
     (if src_iter < src_end then do {
        URI' \<leftarrow> upd_opt URI decoded_length (decoded_at URI src_iter);
        URIDecodeInPlace_loop src_end URI' (if escape_at URI src_iter then src_iter + 3 else src_iter + 1) (decoded_length + 1) }
      else Some (URI, decoded_length))"
  by pat_completeness auto
termination
  by (relation "measure (\<lambda>(src_end, _, src_iter, _). src_end - src_iter)") auto

definition URIDecodeInPlace :: "string \<Rightarrow> (string \<times> nat) option" where
  "URIDecodeInPlace URI = do {
     (URI', decoded_length) \<leftarrow> URIDecodeInPlace_loop (length URI) (URI @ [CHR 0x00]) 0 0;
     Some (take decoded_length URI', decoded_length) }"

declare URIDecode_loop.simps [simp del] URIDecodeInPlace_loop.simps [simp del]

section \<open>The polyline codec\<close>

record coordinate =
  lat :: int
  lon :: int

definition FixedPointCoordinate_is_valid :: "coordinate \<Rightarrow> bool" where
  "FixedPointCoordinate_is_valid c \<longleftrightarrow>
     \<not> (lat c > 90 * 1000000 \<or> lat c < - 90 * 1000000 \<or> lon c > 180 * 1000000 \<or> lon c < - 180 * 1000000)"

text \<open>The codec reads the location of a segment and whether the segment is necessary.\<close>

record segment_information =
  sg_location :: coordinate
  sg_necessary :: bool

function encode_number :: "int \<Rightarrow> string" where
  "encode_number number_to_encode =
     (if number_to_encode \<ge> 0x20
      then char_of ((0x20 OR (number_to_encode AND 0x1f)) + 63) # encode_number (drop_bit 5 number_to_encode)
      else [char_of (number_to_encode + 63)])"
  by pat_completeness auto
termination
  by (relation "measure nat") (auto simp: drop_bit_eq_div)

declare encode_number.simps [simp del]

definition zigzag :: "int \<Rightarrow> int" where
  "zigzag number = (let number = to_int32 (push_bit 1 number) in if number < 0 then NOT number else number)"

definition encode_vector :: "int list \<Rightarrow> string" where
  "encode_vector numbers = concat (map encode_number (map zigzag numbers))"

fun delta_numbers :: "coordinate \<Rightarrow> segment_information list \<Rightarrow> int list" where
  "delta_numbers previous_coordinate [] = []"
| "delta_numbers previous_coordinate (segment # polyline) =
     (if sg_necessary segment
      then to_int32 (lat (sg_location segment) - lat previous_coordinate)
        # to_int32 (lon (sg_location segment) - lon previous_coordinate)
        # delta_numbers (sg_location segment) polyline
      else delta_numbers previous_coordinate polyline)"

definition get_encoded_string :: "segment_information list \<Rightarrow> string" where
  "get_encoded_string polyline =
     (if polyline = [] then [] else encode_vector (delta_numbers \<lparr>lat = 0, lon = 0\<rparr> polyline))"

text \<open>
  Reading one number: \<^verbatim>\<open>at\<close> throws past the end, and a shift by 32 or more has no meaning.
\<close>

function decode_value :: "string \<Rightarrow> nat \<Rightarrow> nat \<Rightarrow> int \<Rightarrow> (int \<times> nat) option" where
  "decode_value geometry_string index shift result =
     (if index < length geometry_string \<and> shift < 32 then
        (let b = char_int (geometry_string ! index) - 63;
             result' = to_int32 (result OR push_bit shift (b AND 0x1f))
         in if b \<ge> 0x20 then decode_value geometry_string (index + 1) (shift + 5) result'
            else Some (result', index + 1))
      else None)"
  by pat_completeness auto
termination
  by (relation "measure (\<lambda>(s, index, _, _). length s - index)") auto

declare decode_value.simps [simp del]

definition unzigzag :: "int \<Rightarrow> int" where
  "unzigzag result = (if result AND 1 \<noteq> 0 then NOT (drop_bit 1 result) else drop_bit 1 result)"

lemma decode_value_progress: "decode_value s i sh r = Some (r', i') \<Longrightarrow> i < i'"
proof (induction "length s - i" arbitrary: i sh r)
  case 0
  then show ?case by (simp add: decode_value.simps)
next
  case (Suc n)
  from Suc.hyps(2) have "n = length s - Suc i" by simp
  from Suc.prems show ?case
    by (subst (asm) decode_value.simps)
      (auto simp: Let_def simp del: push_bit_and split: if_splits dest!: Suc.hyps(1) [OF \<open>n = length s - Suc i\<close>])
qed

text \<open>
  \<open>scale\<close> is the floating-point expression that turns the sum of the deltas into a coordinate.
\<close>

function decode_loop :: "(int \<Rightarrow> int) \<Rightarrow> string \<Rightarrow> nat \<Rightarrow> int \<Rightarrow> int \<Rightarrow> coordinate list option" where
  "decode_loop scale geometry_string index lat_sum lng_sum =
     (if index < length geometry_string then
        (case decode_value geometry_string index 0 0 of
           None \<Rightarrow> None
         | Some (dlat, index') \<Rightarrow>
             (case decode_value geometry_string index' 0 0 of
                None \<Rightarrow> None
              | Some (dlng, index'') \<Rightarrow>
                  (let lat_sum' = to_int32 (lat_sum + unzigzag dlat);
                       lng_sum' = to_int32 (lng_sum + unzigzag dlng)
                   in map_option (Cons \<lparr>lat = scale lat_sum', lon = scale lng_sum'\<rparr>)
                        (decode_loop scale geometry_string index'' lat_sum' lng_sum'))))
      else Some [])"
  by pat_completeness auto
termination
  by (relation "measure (\<lambda>(_, s, index, _, _). length s - index)") (auto dest!: decode_value_progress)

declare decode_loop.simps [simp del]

definition decode_string :: "(int \<Rightarrow> int) \<Rightarrow> string \<Rightarrow> coordinate list option" where
  "decode_string scale geometry_string = decode_loop scale geometry_string 0 0 0"

section \<open>Laws of the polyline codec\<close>

lemma or_push_bit: "0 \<le> r \<Longrightarrow> r < 2 ^ k \<Longrightarrow> r OR push_bit k d = r + d * 2 ^ k" for r d :: int
proof -
  assume "0 \<le> r" "r < 2 ^ k"
  then have "take_bit k r = r"
    by (simp add: take_bit_int_eq_self_iff)
  then have "\<not> bit r n \<or> \<not> bit (push_bit k d) n" for n
    by (metis bit_push_bit_iff_int bit_take_bit_iff not_le)
  then show ?thesis
    using disjunctive_add [of r "push_bit k d"] by (simp add: push_bit_eq_mult)
qed

lemma zigzag_range: "- (2 ^ 30) \<le> n \<Longrightarrow> n < 2 ^ 30 \<Longrightarrow> 0 \<le> zigzag n \<and> zigzag n < 2 ^ 31"
  by (simp add: zigzag_def push_bit_eq_mult not_int_def Let_def)

lemma unzigzag_zigzag: "- (2 ^ 30) \<le> n \<Longrightarrow> n < 2 ^ 30 \<Longrightarrow> unzigzag (zigzag n) = n"
  by (simp add: zigzag_def unzigzag_def push_bit_eq_mult not_int_def drop_bit_eq_div and_one_eq mod2_eq_if Let_def)
    presburger

lemma low_digit: "(n :: int) AND 0x1f = n mod 32"
  using take_bit_eq_mask [of 5 n] by (simp add: take_bit_eq_mod mask_eq_exp_minus_1)

lemma continued_digit: "0x20 OR ((n :: int) AND 0x1f) = 32 + n mod 32"
  using or_push_bit [of "n mod 32" 5 1] by (simp add: low_digit or.commute push_bit_eq_mult)

lemma encode_number_chars:
  assumes "0 \<le> n"
  shows "\<forall>c \<in> set (encode_number n). 63 \<le> char_int c \<and> char_int c \<le> 126"
  using assms
proof (induction n rule: encode_number.induct)
  case (1 n)
  have "0 \<le> n mod 32" "n mod 32 \<le> 31" using pos_mod_bound [of 32 n] by simp_all
  then show ?case
    using 1 by (subst encode_number.simps) (simp add: continued_digit drop_bit_eq_div)
qed

lemma shifted_bound:
  fixes n r :: int
  assumes "n * 2 ^ sh < 2 ^ 31" and "sh < 31" and "r < 2 ^ sh" and "d \<le> n"
  shows "r + d * 2 ^ sh < 2 ^ 31"
proof -
  have e: "(2 :: int) ^ 31 = 2 ^ (31 - sh) * 2 ^ sh"
    using assms(2) by (simp flip: power_add)
  then have "n < 2 ^ (31 - sh)"
    using assms(1) by (metis mult_less_cancel_right_pos zero_less_numeral zero_less_power)
  then have "d + 1 \<le> 2 ^ (31 - sh)"
    using assms(4) by simp
  then have "(d + 1) * 2 ^ sh \<le> 2 ^ 31"
    unfolding e by (rule mult_right_mono) simp
  then show ?thesis
    using assms(3) by (simp add: algebra_simps)
qed

lemma decode_encode_number:
  assumes "0 \<le> n" and "n * 2 ^ sh < 2 ^ 31" and "sh < 31" and "0 \<le> r" and "r < 2 ^ sh"
  shows "decode_value (xs @ encode_number n @ ys) (length xs) sh r
    = Some (r + n * 2 ^ sh, length xs + length (encode_number n))"
  using assms
proof (induction n arbitrary: xs sh r rule: encode_number.induct)
  case (1 n)
  note prems = "1.prems"
  have mod: "0 \<le> n mod 32" "n mod 32 < 32" "n mod 32 \<le> n"
    using prems(1) by (simp_all add: zmod_le_nonneg_dividend)
  have store: "to_int32 (r OR push_bit sh (n mod 32)) = r + (n mod 32) * 2 ^ sh"
  proof -
    have "- (2 ^ 31) \<le> (0 :: int)" by simp
    also have "0 \<le> r + (n mod 32) * 2 ^ sh" using prems(4) mod(1) by simp
    finally show ?thesis
      using or_push_bit [OF prems(4,5)] shifted_bound [OF prems(2,3,5) mod(3)] by (simp only: to_int32_in)
  qed
  show ?case
  proof (cases "n \<ge> 32")
    case False
    then have "encode_number n = [char_of (n + 63)]" by (simp add: encode_number.simps)
    moreover have "n mod 32 = n" using False prems(1) by simp
    ultimately show ?thesis
      using False prems store
      by (subst decode_value.simps) (simp add: low_digit Let_def nth_append del: push_bit_and)
  next
    case True
    let ?c = "char_of (32 + n mod 32 + 63) :: char"
    have e: "encode_number n = ?c # encode_number (n div 32)"
      using True by (subst encode_number.simps) (simp add: continued_digit drop_bit_eq_div)
    have split: "n * 2 ^ sh = (n mod 32) * 2 ^ sh + (n div 32) * 2 ^ (sh + 5)"
    proof -
      have "n * 2 ^ sh = (n mod 32 + n div 32 * 32) * 2 ^ sh" by simp
      then show ?thesis by (simp only: distrib_right power_add) simp
    qed
    have "(2 :: int) ^ (sh + 5) \<le> n * 2 ^ sh"
      using True by (simp add: power_add)
    then have "(2 :: int) ^ (sh + 5) < 2 ^ 31"
      using prems(2) by linarith
    then have sh: "sh + 5 < 31"
      using power_less_imp_less_exp [of "2 :: int" "sh + 5" 31] by simp
    have "(n mod 32 + 1) * 2 ^ sh \<le> 32 * (2 :: int) ^ sh"
      using mod(2) by (intro mult_right_mono) simp_all
    then have "(n mod 32) * 2 ^ sh + 2 ^ sh \<le> 32 * (2 :: int) ^ sh"
      by (simp only: distrib_right mult_1)
    moreover have "(2 :: int) ^ (sh + 5) = 32 * 2 ^ sh"
      by (simp add: power_add)
    ultimately have r': "r + (n mod 32) * 2 ^ sh < 2 ^ (sh + 5)"
      using prems(5) by linarith
    have r: "0 \<le> r + (n mod 32) * 2 ^ sh"
      using prems(4) mod(1) by simp
    have "0 \<le> (n mod 32) * 2 ^ sh"
      by (rule mult_nonneg_nonneg) simp_all
    then have n: "n div 32 * 2 ^ (sh + 5) < 2 ^ 31"
      using prems(2) split by linarith
    have n': "0 \<le> n div 32"
      using prems(1) by (simp add: pos_imp_zdiv_nonneg_iff)
    have "decode_value (xs @ encode_number n @ ys) (length xs) sh r
        = decode_value ((xs @ [?c]) @ encode_number (n div 32) @ ys) (length (xs @ [?c])) (sh + 5) (r + (n mod 32) * 2 ^ sh)"
      using prems store mod by (subst decode_value.simps) (simp add: e low_digit Let_def nth_append del: push_bit_and)
    also have "\<dots> = Some (r + (n mod 32) * 2 ^ sh + (n div 32) * 2 ^ (sh + 5), length (xs @ [?c]) + length (encode_number (n div 32)))"
      using "1.IH" [of "sh + 5" "r + (n mod 32) * 2 ^ sh" "xs @ [?c]"] True n n' sh r r' by (simp add: drop_bit_eq_div)
    finally show ?thesis
      by (simp add: e split add.assoc del: power_add)
  qed
qed

definition near :: "coordinate \<Rightarrow> coordinate \<Rightarrow> bool" where
  "near a b \<longleftrightarrow> - (2 ^ 30) \<le> lat b - lat a \<and> lat b - lat a < 2 ^ 30 \<and> - (2 ^ 30) \<le> lon b - lon a \<and> lon b - lon a < 2 ^ 30"

abbreviation necessary_locations :: "segment_information list \<Rightarrow> coordinate list" where
  "necessary_locations polyline \<equiv> map sg_location (filter sg_necessary polyline)"

lemma valid_near:
  "FixedPointCoordinate_is_valid a \<Longrightarrow> FixedPointCoordinate_is_valid b \<Longrightarrow> near a b"
  by (auto simp: FixedPointCoordinate_is_valid_def near_def)

lemma encode_number_nonempty: "0 < length (encode_number n)"
  by (subst encode_number.simps) simp

lemma decode_zigzag:
  assumes "- (2 ^ 30) \<le> n" and "n < 2 ^ 30"
  shows "decode_value (xs @ encode_number (zigzag n) @ ys) (length xs) 0 0
    = Some (zigzag n, length xs + length (encode_number (zigzag n)))"
  using decode_encode_number [of "zigzag n" 0 0 xs ys] zigzag_range [OF assms] by simp

lemma decode_one_coordinate:
  assumes "near p q" and "FixedPointCoordinate_is_valid q"
    and xs': "xs' = xs @ encode_number (zigzag (lat q - lat p)) @ encode_number (zigzag (lon q - lon p))"
  shows "decode_loop scale (xs' @ ys) (length xs) (lat p) (lon p)
    = map_option (Cons \<lparr>lat = scale (lat q), lon = scale (lon q)\<rparr>)
        (decode_loop scale (xs' @ ys) (length xs') (lat q) (lon q))"
proof -
  let ?a = "encode_number (zigzag (lat q - lat p))" and ?b = "encode_number (zigzag (lon q - lon p))"
  have q: "to_int32 (lat q) = lat q" "to_int32 (lon q) = lon q"
    using assms(2) by (auto simp: FixedPointCoordinate_is_valid_def)
  have a: "decode_value (xs' @ ys) (length xs) 0 0 = Some (zigzag (lat q - lat p), length (xs @ ?a))"
    using assms(1) decode_zigzag [of "lat q - lat p" xs "?b @ ys"] by (simp add: near_def xs')
  have b: "decode_value (xs' @ ys) (length (xs @ ?a)) 0 0 = Some (zigzag (lon q - lon p), length xs')"
    using assms(1) decode_zigzag [of "lon q - lon p" "xs @ ?a" ys] by (simp add: near_def xs')
  have u: "unzigzag (zigzag (lat q - lat p)) = lat q - lat p" "unzigzag (zigzag (lon q - lon p)) = lon q - lon p"
    using assms(1) by (simp_all add: near_def unzigzag_zigzag)
  have "length xs < length (xs' @ ys)"
    using encode_number_nonempty [of "zigzag (lat q - lat p)"] by (simp add: xs')
  then show ?thesis
    by (subst decode_loop.simps) (simp only: if_True a b u q option.case prod.case Let_def add_diff_cancel_left' diff_add_cancel add.commute [of "lat p"] add.commute [of "lon p"])
qed

lemma decode_deltas:
  assumes "FixedPointCoordinate_is_valid p" and "\<forall>q \<in> set (necessary_locations polyline). FixedPointCoordinate_is_valid q"
  shows "decode_loop scale (xs @ encode_vector (delta_numbers p polyline)) (length xs) (lat p) (lon p)
    = Some (map (\<lambda>q. \<lparr>lat = scale (lat q), lon = scale (lon q)\<rparr>) (necessary_locations polyline))"
  using assms
proof (induction polyline arbitrary: p xs)
  case Nil
  then show ?case by (simp add: encode_vector_def decode_loop.simps)
next
  case (Cons s polyline)
  show ?case
  proof (cases "sg_necessary s")
    case False
    with Cons show ?thesis by simp
  next
    case True
    let ?q = "sg_location s"
    have q: "FixedPointCoordinate_is_valid ?q" and n: "near p ?q"
      using True Cons.prems by (simp_all add: valid_near)
    then have w: "to_int32 (lat ?q - lat p) = lat ?q - lat p" "to_int32 (lon ?q - lon p) = lon ?q - lon p"
      by (simp_all add: near_def)
    let ?xs' = "xs @ encode_number (zigzag (lat ?q - lat p)) @ encode_number (zigzag (lon ?q - lon p))"
    show ?thesis
      using True Cons.IH [OF q, of ?xs'] Cons.prems(2)
        decode_one_coordinate [OF n q refl, of scale xs "encode_vector (delta_numbers ?q polyline)"]
      by (simp add: w encode_vector_def)
  qed
qed

lemma encoded_deltas_chars:
  assumes "FixedPointCoordinate_is_valid p" and "\<forall>q \<in> set (necessary_locations polyline). FixedPointCoordinate_is_valid q"
  shows "\<forall>c \<in> set (encode_vector (delta_numbers p polyline)). 63 \<le> char_int c \<and> char_int c \<le> 126"
  using assms
proof (induction polyline arbitrary: p)
  case Nil
  then show ?case by (simp add: encode_vector_def)
next
  case (Cons s polyline)
  then have "sg_necessary s \<Longrightarrow> near p (sg_location s)"
    by (simp add: valid_near)
  then have "sg_necessary s \<Longrightarrow> \<forall>c \<in> set (encode_number (zigzag (lat (sg_location s) - lat p))
        @ encode_number (zigzag (lon (sg_location s) - lon p))). 63 \<le> char_int c \<and> char_int c \<le> 126"
    unfolding near_def set_append ball_Un using encode_number_chars zigzag_range by blast
  then show ?case
    using Cons \<open>sg_necessary s \<Longrightarrow> near p (sg_location s)\<close> by (auto simp: encode_vector_def near_def)
qed

section \<open>Properties\<close>

text \<open>
  C19: decoding the string the engine sends for a geometry gives back the locations of the
  necessary segments, in order, each passed through the floating-point scaling of the decoder,
  for every list of segments with valid coordinates. The decoder neither reads past the end of
  the string nor shifts too far on such a string, whose characters are all printable ASCII
  between the question mark and the tilde.
\<close>
theorem decode_encode_polyline:
  assumes "\<forall>q \<in> set (necessary_locations polyline). FixedPointCoordinate_is_valid q"
  shows "decode_string scale (get_encoded_string polyline)
    = Some (map (\<lambda>q. \<lparr>lat = scale (lat q), lon = scale (lon q)\<rparr>) (necessary_locations polyline))
    \<and> (\<forall>c \<in> set (get_encoded_string polyline). 63 \<le> char_int c \<and> char_int c \<le> 126)"
proof (cases "polyline = []")
  case True
  then show ?thesis by (simp add: decode_string_def get_encoded_string_def decode_loop.simps)
next
  case False
  then show ?thesis
    using decode_deltas [OF _ assms, of "\<lparr>lat = 0, lon = 0\<rparr>" scale "[]"] encoded_deltas_chars [OF _ assms, of "\<lparr>lat = 0, lon = 0\<rparr>"]
    by (simp add: decode_string_def get_encoded_string_def FixedPointCoordinate_is_valid_def)
qed

theorem decode_encode_polyline_witness:
  "decode_string (\<lambda>x. x) (get_encoded_string
     [\<lparr>sg_location = \<lparr>lat = 38500000, lon = -120200000\<rparr>, sg_necessary = True\<rparr>,
      \<lparr>sg_location = \<lparr>lat = 39000000, lon = -120500000\<rparr>, sg_necessary = False\<rparr>,
      \<lparr>sg_location = \<lparr>lat = 40700000, lon = -120950000\<rparr>, sg_necessary = True\<rparr>])
   = Some [\<lparr>lat = 38500000, lon = -120200000\<rparr>, \<lparr>lat = 40700000, lon = -120950000\<rparr>]"
  by (subst decode_encode_polyline [THEN conjunct1]) (simp_all add: FixedPointCoordinate_is_valid_def)

section \<open>Decoding request targets\<close>

lemma decoded_agree:
  assumes "\<forall>j \<ge> i. char_at U j = char_at input j"
  shows "escape_at U i = escape_at input i" and "decoded_at U i = decoded_at input i"
  using assms by (simp_all add: escape_at_def decoded_at_def)

lemma char_at_update_below: "n < j \<Longrightarrow> char_at (U[n := c]) j = char_at U j"
  by (simp add: char_at_def)

lemma take_update: "n < length xs \<Longrightarrow> take (Suc n) (xs[n := c]) = take n xs @ [c]"
  by (simp add: take_Suc_conv_app_nth)

lemma in_place_agrees:
  assumes "n \<le> i" and "length U = length input + 1" and "length out = length input + 1"
    and "\<forall>j \<ge> i. char_at U j = char_at input j" and "take n U = take n out"
  shows "\<exists>U' out' m. URIDecodeInPlace_loop (length input) U i n = Some (U', m)
    \<and> URIDecode_loop input i n out = Some (out', m) \<and> take m U' = take m out'"
  using assms
proof (induction "length input - i" arbitrary: i n U out rule: less_induct)
  case less
  note prems = less.prems
  show ?case
  proof (cases "i < length input")
    case False
    with prems show ?thesis
      by (simp add: URIDecodeInPlace_loop.simps URIDecode_loop.simps)
  next
    case True
    let ?c = "decoded_at input i" and ?i = "if escape_at input i then i + 3 else i + 1"
    have n: "n < length U" "n < length out"
      using True prems by simp_all
    have smaller: "length input - ?i < length input - i"
      using True by auto
    have keep: "\<forall>j \<ge> ?i. char_at (U[n := ?c]) j = char_at input j"
      using prems(1,4) by (simp add: char_at_update_below)
    have "\<exists>U' out' m. URIDecodeInPlace_loop (length input) (U[n := ?c]) ?i (n + 1) = Some (U', m)
      \<and> URIDecode_loop input ?i (n + 1) (out[n := ?c]) = Some (out', m) \<and> take m U' = take m out'"
      by (rule less.hyps [OF smaller _ _ _ keep]) (use prems n in \<open>simp_all add: take_update\<close>)
    then show ?thesis
      using True n decoded_agree [OF prems(4)]
      by (subst URIDecodeInPlace_loop.simps, subst URIDecode_loop.simps) simp
  qed
qed

text \<open>A way to write one character in a request target: itself, or percent and two hex digits.\<close>

definition percent_form :: "string \<Rightarrow> char \<Rightarrow> bool" where
  "percent_form e c \<longleftrightarrow> (e = [c] \<and> c \<noteq> CHR ''%'')
     \<or> (\<exists>a b. e = [CHR ''%'', a, b] \<and> isxdigit a \<and> isxdigit b \<and> c = char_of (16 * hex_digit a + hex_digit b))"

lemma char_at_append [simp]: "char_at (xs @ ys) (length xs) = char_at ys 0" "char_at (xs @ ys) (length xs + k) = char_at ys k"
  "char_at (xs @ ys) (Suc (length xs)) = char_at ys 1" "char_at (xs @ ys) (Suc (Suc (length xs))) = char_at ys 2"
  by (simp_all add: char_at_def nth_append numeral_2_eq_2)

lemma isxdigit_not_null: "isxdigit c \<Longrightarrow> c \<noteq> CHR 0x00"
  by (auto simp: isxdigit_def char_int_def)

lemma decoded_percent_form:
  assumes "percent_form e c"
  shows "decoded_at (xs @ e @ ys) (length xs) = c"
    and "(if escape_at (xs @ e @ ys) (length xs) then length xs + 3 else length xs + 1) = length (xs @ e)"
proof -
  consider "e = [c]" "c \<noteq> CHR ''%''"
    | a b where "e = [CHR ''%'', a, b]" "isxdigit a" "isxdigit b" "c = char_of (16 * hex_digit a + hex_digit b)"
    using assms unfolding percent_form_def by blast
  then have "decoded_at (xs @ e @ ys) (length xs) = c
    \<and> (if escape_at (xs @ e @ ys) (length xs) then length xs + 3 else length xs + 1) = length (xs @ e)"
  proof cases
    case 1
    then show ?thesis by (simp add: decoded_at_def escape_at_def) (simp add: char_at_def)
  next
    case 2
    have "char_at (e @ ys) 0 = CHR ''%''" "char_at (e @ ys) 1 = a" "char_at (e @ ys) 2 = b"
      by (simp_all add: 2(1) char_at_def)
    then show ?thesis
      using 2 by (simp add: decoded_at_def escape_at_def isxdigit_not_null)
  qed
  then show "decoded_at (xs @ e @ ys) (length xs) = c"
    and "(if escape_at (xs @ e @ ys) (length xs) then length xs + 3 else length xs + 1) = length (xs @ e)" by auto
qed

lemma decode_forms:
  assumes "list_all2 percent_form es s" and "n \<le> length xs" and "length out = length (xs @ concat es) + 1"
  shows "\<exists>out'. URIDecode_loop (xs @ concat es) (length xs) n out = Some (out', n + length s)
    \<and> take (n + length s) out' = take n out @ s"
  using assms
proof (induction es s arbitrary: xs n out rule: list_all2_induct)
  case Nil
  then show ?case by (simp add: URIDecode_loop.simps)
next
  case (Cons e es c s)
  have e: "1 \<le> length e"
    using Cons.hyps(1) by (auto simp: percent_form_def)
  have n: "n < length out"
    using Cons.prems by simp
  have "\<exists>out'. URIDecode_loop ((xs @ e) @ concat es) (length (xs @ e)) (n + 1) (out[n := c]) = Some (out', n + 1 + length s)
    \<and> take (n + 1 + length s) out' = take (n + 1) (out[n := c]) @ s"
  proof (rule Cons.IH)
    show "n + 1 \<le> length (xs @ e)"
      using Cons.prems(1) e unfolding length_append by linarith
  qed (use Cons.prems in simp)
  then show ?case
    using n less_le_trans [OF zero_less_one e] decoded_percent_form [OF Cons.hyps(1), of xs "concat es"]
    by (subst URIDecode_loop.simps) (simp add: take_update)
qed


text \<open>
  C21: \<^verbatim>\<open>URIDecode\<close> undoes percent encoding: a target in which every character of \<open>s\<close> is
  written either as itself or as a percent sign and two hexadecimal digits of either case, the
  percent sign only in the second way, is decoded to \<open>s\<close>.
\<close>
theorem URIDecode_forms:
  assumes "list_all2 percent_form es s"
  shows "URIDecode (concat es) = Some (s, length s)"
  using decode_forms [OF assms, of 0 "[]" "replicate (length (concat es) + 1) (CHR 0x00)"]
  by (auto simp: URIDecode_def)

theorem URIDecode_forms_witness:
  "URIDecode ''a%2f%20%25b'' = Some (''a/ %b'', 5)"
  using URIDecode_forms [of "[''a'', ''%2f'', ''%20'', ''%25'', ''b'']" "''a/ %b''"]
  by (simp add: percent_form_def isxdigit_def hex_digit_def char_int_def char_of_def)

section \<open>Printed numbers\<close>

text \<open>The digits of a number: all of them, and the lowest \<open>k\<close>.\<close>

fun whole_digits :: "nat \<Rightarrow> string" where
  "whole_digits a = (if a < 10 then [char_of (48 + a)] else whole_digits (a div 10) @ [char_of (48 + a mod 10)])"

fun low_digits :: "nat \<Rightarrow> nat \<Rightarrow> string" where
  "low_digits 0 a = []"
| "low_digits (Suc k) a = low_digits k (a div 10) @ [char_of (48 + a mod 10)]"

definition read_digits :: "string \<Rightarrow> nat" where
  "read_digits s = foldl (\<lambda>a c. 10 * a + (of_char c - 48)) 0 s"

definition fixed_point :: "nat \<Rightarrow> int \<Rightarrow> string" where
  "fixed_point precision v = (if v < 0 then ''-'' else [])
     @ whole_digits (nat \<bar>v\<bar> div 10 ^ precision) @ ''.'' @ low_digits precision (nat \<bar>v\<bar>)"

declare whole_digits.simps [simp del]

lemma length_low_digits [simp]: "length (low_digits k a) = k"
  by (induction k arbitrary: a) simp_all

lemma read_digit: "d < 10 \<Longrightarrow> of_char (char_of (48 + d) :: char) - 48 = (d :: nat)"
  by (simp add: of_char_of)

lemma read_whole_digits: "read_digits (whole_digits a) = a"
  by (induction a rule: whole_digits.induct)
    (subst whole_digits.simps, auto simp: read_digits_def of_char_of)

lemma read_low_digits: "foldl (\<lambda>a c. 10 * a + (of_char c - 48)) b (low_digits k a) = b * 10 ^ k + a mod 10 ^ k"
proof (induction k arbitrary: a)
  case (Suc k)
  have "a mod (10 * 10 ^ k) = 10 * (a div 10 mod 10 ^ k) + a mod 10"
    by (simp add: mod_mult2_eq)
  with Suc show ?case
    by (simp add: of_char_of algebra_simps)
qed simp

lemma read_fixed_point: "read_digits (whole_digits (a div 10 ^ k) @ low_digits k a) = a"
proof -
  have "read_digits (whole_digits (a div 10 ^ k) @ low_digits k a)
      = read_digits (whole_digits (a div 10 ^ k)) * 10 ^ k + a mod 10 ^ k"
    unfolding read_digits_def foldl_append by (rule read_low_digits)
  then show ?thesis by (simp only: read_whole_digits div_mult_mod_eq)
qed

lemma length_whole_digits: "a < 10 ^ w \<Longrightarrow> 0 < w \<Longrightarrow> length (whole_digits a) \<le> w"
proof (induction a arbitrary: w rule: whole_digits.induct)
  case (1 a)
  show ?case
  proof (cases "a < 10")
    case True
    with "1.prems" show ?thesis by (simp add: whole_digits.simps)
  next
    case False
    then obtain w' where w: "w = Suc w'" "0 < w'"
      using "1.prems" by (cases w; cases "w - 1") auto
    then have "a div 10 < 10 ^ w'"
      using "1.prems"(1) by (simp add: less_mult_imp_div_less mult.commute)
    then show ?thesis
      using False w "1.IH" [of w'] by (subst whole_digits.simps) simp
  qed
qed

lemma truncated_division: "- int a sdiv 10 = - int (a div 10)" "48 - (- int a) smod 10 = int (48 + a mod 10)"
  by (simp_all add: signed_divide_int_def signed_modulo_int_def zdiv_int zmod_int sgn_if minus_div_mult_eq_mod [symmetric])

lemma positive_division: "int a sdiv 10 = int (a div 10)"
  by (simp add: signed_divide_int_def zdiv_int sgn_if)

lemma written_digit: "(char_of (48 - (- int a) smod 10) :: char) = char_of (48 + a mod 10)"
  unfolding truncated_division by (simp only: char_of_def bit_of_nat_iff_bit)

lemma write_before: "Suc p \<le> length xs \<Longrightarrow> write_at xs (int p) c = Some (take p xs @ c # drop (Suc p) xs)"
  by (simp add: write_at_def upd_conv_take_nth_drop)

lemma put_fraction_digits:
  assumes "k \<le> p" and "p \<le> length buffer"
  shows "put_fraction k buffer (int p - 1) (- int a)
    = Some (take (p - k) buffer @ low_digits k a @ drop p buffer, int (p - k) - 1, - int (a div 10 ^ k))"
  using assms
proof (induction k arbitrary: p buffer a)
  case (Suc k)
  then obtain q where p: "p = Suc q" by (cases p) simp_all
  let ?d = "char_of (48 + a mod 10) :: char"
  let ?b = "take q buffer @ ?d # drop p buffer"
  have w: "write_at buffer (int q) (char_of (48 - (- int a) smod 10)) = Some ?b"
    using Suc.prems write_before [of q buffer] by (simp only: written_digit p)
  have "put_fraction k ?b (int q - 1) (- int (a div 10))
     = Some (take (q - k) ?b @ low_digits k (a div 10) @ drop q ?b, int (q - k) - 1, - int (a div 10 div 10 ^ k))"
    using Suc.prems p by (intro Suc.IH) simp_all
  with w show ?case
    using Suc.prems by (simp add: p positive_division div_mult2_eq min_def)
qed simp

lemma put_whole_digits:
  assumes "length (whole_digits a) \<le> k" and "k \<le> p" and "p \<le> length buffer"
  shows "put_whole k buffer (int p - 1) (- int a)
    = Some (take (p - length (whole_digits a)) buffer @ whole_digits a @ drop p buffer, int (p - length (whole_digits a)))"
  using assms
proof (induction k arbitrary: p buffer a)
  case 0
  then show ?case by (subst (asm) whole_digits.simps) (simp split: if_splits)
next
  case (Suc k)
  then obtain q where p: "p = Suc q" by (cases p) simp_all
  let ?d = "char_of (48 + a mod 10) :: char"
  let ?b = "take q buffer @ ?d # drop p buffer"
  have w: "write_at buffer (int q) (char_of (48 - (- int a) smod 10)) = Some ?b"
    using Suc.prems write_before [of q buffer] by (simp only: written_digit p)
  show ?case
  proof (cases "a < 10")
    case True
    with w Suc.prems show ?thesis
      by (simp add: p positive_division whole_digits.simps)
  next
    case False
    let ?l = "length (whole_digits (a div 10))"
    have q: "0 < a div 10"
      using False by (simp add: div_greater_zero_iff)
    have e: "whole_digits a = whole_digits (a div 10) @ [?d]"
      using False by (subst whole_digits.simps) simp
    have "put_whole k ?b (int q - 1) (- int (a div 10))
       = Some (take (q - ?l) ?b @ whole_digits (a div 10) @ drop q ?b, int (q - ?l))"
      using Suc.prems p e by (intro Suc.IH) simp_all
    with w q show ?thesis
      using Suc.prems by (simp add: p positive_division e min_def)
  qed
qed

lemma digit_kept: "d < 10 \<Longrightarrow> char_of (48 + d) \<noteq> CHR ''-'' \<and> char_of (48 + d) \<noteq> CHR ''.''" for d :: nat
  by (simp add: char_of_eq_iff take_bit_eq_mod)

lemma digits_kept [simp]:
  "filter (\<lambda>c. c \<noteq> CHR ''-'' \<and> c \<noteq> CHR ''.'') (low_digits k a) = low_digits k a"
  "filter (\<lambda>c. c \<noteq> CHR ''-'' \<and> c \<noteq> CHR ''.'') (whole_digits a) = whole_digits a"
proof -
  show "filter (\<lambda>c. c \<noteq> CHR ''-'' \<and> c \<noteq> CHR ''.'') (low_digits k a) = low_digits k a"
    by (induction k arbitrary: a) (simp_all add: digit_kept)
  show "filter (\<lambda>c. c \<noteq> CHR ''-'' \<and> c \<noteq> CHR ''.'') (whole_digits a) = whole_digits a"
    by (induction a rule: whole_digits.induct) (subst (1 2) whole_digits.simps, simp add: digit_kept)
qed

lemma print_unsigned:
  assumes "len = precision + 1 + w" and "len \<le> length buffer" and "length (whole_digits (a div 10 ^ precision)) \<le> w"
    and printed: "printed = whole_digits (a div 10 ^ precision) @ ''.'' @ low_digits precision a"
  shows "\<exists>buffer1 buffer2 v. put_fraction precision buffer (int len - 1) (- int a) = Some (buffer1, int w, v)
    \<and> write_at buffer1 (int w) (CHR ''.'') = Some buffer2 \<and> put_whole (len - (precision + 1)) buffer2 (int w - 1) v
    = Some (take (len - length printed) buffer @ printed @ drop len buffer, int (len - length printed))"
proof -
  let ?b = "take (Suc w) buffer @ low_digits precision a @ drop len buffer"
  have len: "len - precision = Suc w" "len - (precision + 1) = w"
    using assms(1) by simp_all
  have f: "put_fraction precision buffer (int len - 1) (- int a) = Some (?b, int w, - int (a div 10 ^ precision))"
    using put_fraction_digits [of precision len buffer a] assms(1,2) len by simp
  have d: "write_at ?b (int w) (CHR ''.'') = Some (take w buffer @ CHR ''.'' # low_digits precision a @ drop len buffer)"
    using write_before [of w ?b] assms(1,2) by simp
  have "put_whole w (take w buffer @ CHR ''.'' # low_digits precision a @ drop len buffer) (int w - 1) (- int (a div 10 ^ precision))
      = Some (take (w - length (whole_digits (a div 10 ^ precision))) buffer @ printed @ drop len buffer,
          int (w - length (whole_digits (a div 10 ^ precision))))"
    using put_whole_digits [OF assms(3) le_refl] assms(1,2) by (simp add: printed)
  moreover have "w - length (whole_digits (a div 10 ^ precision)) = len - length printed"
    by (simp add: printed assms(1))
  ultimately show ?thesis
    using f d len(2) by metis
qed

text \<open>
  C22: \<^verbatim>\<open>printInt\<close> prints a number that fits the field: with room for \<open>w\<close> characters in front of
  the point, and \<open>v\<close> having at most \<open>w\<close> digits there, or fewer than \<open>w\<close> when it is negative, it
  writes within the buffer only, leaves the rest of it alone and returns the position at which
  the sign, the digits without leading zeros, the point and the decimals of \<open>v\<close> start. The
  digits read back give the absolute value of \<open>v\<close>.
\<close>
theorem printInt_prints:
  assumes "0 < w" and "len = precision + 1 + w" and "len \<le> length buffer"
    and "\<bar>v\<bar> < 10 ^ (precision + w)" and "v < 0 \<Longrightarrow> 1 < w \<and> \<bar>v\<bar> < 10 ^ (precision + w - 1)"
  shows "let printed = fixed_point precision v; pos = len - length printed in
      length printed \<le> len \<and> printInt len precision buffer v = Some (take pos buffer @ printed @ drop len buffer, int pos)
      \<and> read_digits (filter (\<lambda>c. c \<noteq> CHR ''-'' \<and> c \<noteq> CHR ''.'') printed) = nat \<bar>v\<bar>"
proof -
  define a where "a = nat \<bar>v\<bar>"
  define printed where "printed = whole_digits (a div 10 ^ precision) @ ''.'' @ low_digits precision a"
  have v: "(if v \<ge> 0 then - v else v) = - int a"
    by (simp add: a_def)
  have digits: "length (whole_digits (a div 10 ^ precision)) \<le> k" if "\<bar>v\<bar> < 10 ^ (precision + k)" "0 < k" for k
  proof -
    have "a < 10 ^ precision * 10 ^ k"
      using that(1) by (simp add: a_def power_add nat_less_iff)
    then have "a div 10 ^ precision < 10 ^ k"
      by (simp add: less_mult_imp_div_less mult.commute)
    then show ?thesis using that(2) by (rule length_whole_digits)
  qed
  have print: "printInt len precision buffer v =
      (if v < 0 then do {
         buffer' \<leftarrow> write_at (take (len - length printed) buffer @ printed @ drop len buffer) (int (len - length printed) - 1) (CHR ''-'');
         Some (buffer', int (len - length printed) - 1) }
       else Some (take (len - length printed) buffer @ printed @ drop len buffer, int (len - length printed)))"
    using print_unsigned [OF assms(2,3) digits [OF assms(4,1)] printed_def]
    by (auto simp: printInt_def v Let_def)
  have fixed: "fixed_point precision v = (if v < 0 then ''-'' else []) @ printed"
    by (simp add: fixed_point_def printed_def a_def)
  have "read_digits (filter (\<lambda>c. c \<noteq> CHR ''-'' \<and> c \<noteq> CHR ''.'') printed) = a"
    by (simp add: printed_def read_fixed_point)
  moreover have "length printed \<le> len" "v < 0 \<Longrightarrow> length printed < len"
    using digits [OF assms(4,1)] digits [of "w - 1"] assms(1,2,5) by (auto simp: printed_def)
  moreover have "\<not> v < 0 \<or> (\<exists>p. v < 0 \<and> len = length printed + Suc p)"
    using \<open>v < 0 \<Longrightarrow> length printed < len\<close> less_imp_Suc_add by fastforce
  ultimately show ?thesis
  proof (elim disjE exE)
    fix p assume p: "v < 0 \<and> len = length printed + Suc p"
    moreover have "write_at (take (Suc p) buffer @ printed @ drop len buffer) (int p) (CHR ''-'')
        = Some (take p buffer @ CHR ''-'' # printed @ drop len buffer)"
      using write_before [of p "take (Suc p) buffer @ printed @ drop len buffer"] assms(3) p by simp
    ultimately show ?thesis
      using print \<open>_ = a\<close> by (simp add: Let_def fixed a_def)
  qed (simp add: Let_def fixed a_def print)
qed

theorem printInt_prints_witness:
  "printInt 6 2 (replicate 7 (CHR ''x'')) (- 125) = Some (''x-1.25x'', 1)"
proof -
  have "fixed_point 2 (- 125) = ''-1.25''"
    by code_simp
  moreover have "take 1 (replicate 7 (CHR ''x'')) = ''x''" "drop 6 (replicate 7 (CHR ''x'')) = ''x''"
    by code_simp+
  ultimately show ?thesis
    using printInt_prints [of 3 6 2 "replicate 7 (CHR ''x'')" "- 125"] by (simp add: Let_def)
qed

end
