(* ===== verification/Json_Renderer.thy ===== *)
theory Json_Renderer
  imports Text_Codecs
begin

text \<open>
  The JSON values of \<^verbatim>\<open>include/osrm/json_container.hpp\<close> and the two visitors of
  \<^verbatim>\<open>util/json_renderer.hpp\<close> that print them, one to a stream and one to a vector of
  characters. An object is an association list in the order in which the hash map iterates.
  Numbers are of any type \<open>'n\<close>; how the standard library prints one is an argument:
  \<open>stream\<close> for the stream with precision 10, \<open>fixed\<close> for the fixed notation that
  \<^verbatim>\<open>to_string_with_precision\<close> of \<^verbatim>\<open>util/cast.hpp\<close> starts from.
\<close>

section \<open>Values and renderers\<close>

datatype 'n json_value =
    String string
  | Number 'n
  | Object "(string \<times> 'n json_value) list"
  | Array "'n json_value list"
  | JTrue
  | JFalse
  | Null

definition trim_right_if :: "(char \<Rightarrow> bool) \<Rightarrow> string \<Rightarrow> string" where
  "trim_right_if P s = rev (dropWhile P (rev s))"

definition to_string_with_precision :: "('n \<Rightarrow> string) \<Rightarrow> 'n \<Rightarrow> string" where
  "to_string_with_precision fixed x =
     (let rv = trim_right_if (\<lambda>c. c = CHR ''0'') (fixed x) in trim_right_if (\<lambda>c. c = CHR ''.'') rv)"

text \<open>The renderer that writes to a stream.\<close>

fun Renderer :: "('n \<Rightarrow> string) \<Rightarrow> string \<Rightarrow> 'n json_value \<Rightarrow> string"
  and Renderer_members :: "('n \<Rightarrow> string) \<Rightarrow> string \<Rightarrow> (string \<times> 'n json_value) list \<Rightarrow> string"
  and Renderer_elements :: "('n \<Rightarrow> string) \<Rightarrow> string \<Rightarrow> 'n json_value list \<Rightarrow> string" where
  "Renderer stream out (String s) = out @ [CHR 0x22] @ escape_JSON s @ [CHR 0x22]"
| "Renderer stream out (Number x) = out @ stream x"
| "Renderer stream out (Object vs) = Renderer_members stream (out @ ''{'') vs @ ''}''"
| "Renderer stream out (Array vs) = Renderer_elements stream (out @ ''['') vs @ '']''"
| "Renderer stream out JTrue = out @ ''true''"
| "Renderer stream out JFalse = out @ ''false''"
| "Renderer stream out Null = out @ ''null''"
| "Renderer_members stream out [] = out"
| "Renderer_members stream out ((k, v) # vs) =
     (let out = Renderer stream (out @ [CHR 0x22] @ k @ [CHR 0x22, CHR '':'']) v
      in Renderer_members stream (if vs \<noteq> [] then out @ '','' else out) vs)"
| "Renderer_elements stream out [] = out"
| "Renderer_elements stream out (v # vs) =
     (let out = Renderer stream out v
      in Renderer_elements stream (if vs \<noteq> [] then out @ '','' else out) vs)"

text \<open>The renderer that appends to a vector.\<close>

definition push_back :: "char \<Rightarrow> string \<Rightarrow> string" where
  "push_back c out = out @ [c]"

definition insert_at_end :: "string \<Rightarrow> string \<Rightarrow> string" where
  "insert_at_end s out = out @ s"

fun ArrayRenderer :: "('n \<Rightarrow> string) \<Rightarrow> string \<Rightarrow> 'n json_value \<Rightarrow> string"
  and ArrayRenderer_members :: "('n \<Rightarrow> string) \<Rightarrow> string \<Rightarrow> (string \<times> 'n json_value) list \<Rightarrow> string"
  and ArrayRenderer_elements :: "('n \<Rightarrow> string) \<Rightarrow> string \<Rightarrow> 'n json_value list \<Rightarrow> string" where
  "ArrayRenderer fixed out (String s) =
     push_back (CHR 0x22) (insert_at_end (escape_JSON s) (push_back (CHR 0x22) out))"
| "ArrayRenderer fixed out (Number x) = insert_at_end (to_string_with_precision fixed x) out"
| "ArrayRenderer fixed out (Object vs) =
     push_back (CHR ''}'') (ArrayRenderer_members fixed (push_back (CHR ''{'') out) vs)"
| "ArrayRenderer fixed out (Array vs) =
     push_back (CHR '']'') (ArrayRenderer_elements fixed (push_back (CHR ''['') out) vs)"
| "ArrayRenderer fixed out JTrue = insert_at_end ''true'' out"
| "ArrayRenderer fixed out JFalse = insert_at_end ''false'' out"
| "ArrayRenderer fixed out Null = insert_at_end ''null'' out"
| "ArrayRenderer_members fixed out [] = out"
| "ArrayRenderer_members fixed out ((k, v) # vs) =
     (let out = push_back (CHR 0x22) out;
          out = insert_at_end k out;
          out = push_back (CHR 0x22) out;
          out = push_back (CHR '':'') out;
          out = ArrayRenderer fixed out v
      in ArrayRenderer_members fixed (if vs \<noteq> [] then push_back (CHR '','') out else out) vs)"
| "ArrayRenderer_elements fixed out [] = out"
| "ArrayRenderer_elements fixed out (v # vs) =
     (let out = ArrayRenderer fixed out v
      in ArrayRenderer_elements fixed (if vs \<noteq> [] then push_back (CHR '','') out else out) vs)"

definition render_stream :: "('n \<Rightarrow> string) \<Rightarrow> string \<Rightarrow> (string \<times> 'n json_value) list \<Rightarrow> string" where
  "render_stream stream out object = Renderer stream out (Object object)"

definition render_vector :: "('n \<Rightarrow> string) \<Rightarrow> string \<Rightarrow> (string \<times> 'n json_value) list \<Rightarrow> string" where
  "render_vector fixed out object = ArrayRenderer fixed out (Object object)"

section \<open>A reader of JSON texts\<close>

text \<open>
  The grammar of JSON without white space, as a function. \<open>number\<close> interprets the token of a
  number. The fuel bounds the nesting and the number of members.
\<close>

definition unescaped :: "char \<Rightarrow> char option" where
  "unescaped c =
     (if c = CHR 0x5C \<or> c = CHR 0x22 \<or> c = CHR ''/'' then Some c
      else if c = CHR ''b'' then Some (CHR 0x08) else if c = CHR ''f'' then Some (CHR 0x0C)
      else if c = CHR ''n'' then Some (CHR 0x0A) else if c = CHR ''r'' then Some (CHR 0x0D)
      else if c = CHR ''t'' then Some (CHR 0x09) else None)"

fun read_string :: "string \<Rightarrow> (string \<times> string) option" where
  "read_string [] = None"
| "read_string (c # s) =
     (if c = CHR 0x22 then Some ([], s)
      else if c = CHR 0x5C then
        (case s of [] \<Rightarrow> None
         | d # s' \<Rightarrow> do { e \<leftarrow> unescaped d; (t, rest) \<leftarrow> read_string s'; Some (e # t, rest) })
      else do { (t, rest) \<leftarrow> read_string s; Some (c # t, rest) })"

definition number_char :: "char \<Rightarrow> bool" where
  "number_char c \<longleftrightarrow> c \<in> set ''0123456789+-.eE''"

fun read_value :: "(string \<Rightarrow> 'n option) \<Rightarrow> nat \<Rightarrow> string \<Rightarrow> ('n json_value \<times> string) option"
  and read_members :: "(string \<Rightarrow> 'n option) \<Rightarrow> nat \<Rightarrow> string \<Rightarrow> ((string \<times> 'n json_value) list \<times> string) option"
  and read_elements :: "(string \<Rightarrow> 'n option) \<Rightarrow> nat \<Rightarrow> string \<Rightarrow> ('n json_value list \<times> string) option" where
  "read_value number 0 s = None"
| "read_value number (Suc n) s =
     (case s of
        [] \<Rightarrow> None
      | c # s' \<Rightarrow>
          if c = CHR 0x22 then do { (t, rest) \<leftarrow> read_string s'; Some (String t, rest) }
          else if c = CHR ''{'' then
            (if take 1 s' = ''}'' then Some (Object [], drop 1 s')
             else do { (vs, rest) \<leftarrow> read_members number n s'; Some (Object vs, rest) })
          else if c = CHR ''['' then
            (if take 1 s' = '']'' then Some (Array [], drop 1 s')
             else do { (vs, rest) \<leftarrow> read_elements number n s'; Some (Array vs, rest) })
          else if number_char c then
            do { x \<leftarrow> number (takeWhile number_char s); Some (Number x, dropWhile number_char s) }
          else if take 4 s = ''true'' then Some (JTrue, drop 4 s)
          else if take 5 s = ''false'' then Some (JFalse, drop 5 s)
          else if take 4 s = ''null'' then Some (Null, drop 4 s)
          else None)"
| "read_members number 0 s = None"
| "read_members number (Suc n) s =
     (if take 1 s = [CHR 0x22] then do {
        (k, rest) \<leftarrow> read_string (drop 1 s);
        (if take 1 rest = '':'' then do {
           (v, rest) \<leftarrow> read_value number n (drop 1 rest);
           (if take 1 rest = '','' then do { (vs, rest') \<leftarrow> read_members number n (drop 1 rest); Some ((k, v) # vs, rest') }
            else if take 1 rest = ''}'' then Some ([(k, v)], drop 1 rest)
            else None) }
         else None) }
      else None)"
| "read_elements number 0 s = None"
| "read_elements number (Suc n) s = do {
     (v, rest) \<leftarrow> read_value number n s;
     (if take 1 rest = '','' then do { (vs, rest') \<leftarrow> read_elements number n (drop 1 rest); Some (v # vs, rest') }
      else if take 1 rest = '']'' then Some ([v], drop 1 rest)
      else None) }"

section \<open>The text of a value\<close>

fun json_text :: "('n \<Rightarrow> string) \<Rightarrow> 'n json_value \<Rightarrow> string"
  and members_text :: "('n \<Rightarrow> string) \<Rightarrow> (string \<times> 'n json_value) list \<Rightarrow> string"
  and elements_text :: "('n \<Rightarrow> string) \<Rightarrow> 'n json_value list \<Rightarrow> string" where
  "json_text f (String s) = [CHR 0x22] @ escape_JSON s @ [CHR 0x22]"
| "json_text f (Number x) = f x"
| "json_text f (Object vs) = ''{'' @ members_text f vs @ ''}''"
| "json_text f (Array vs) = ''['' @ elements_text f vs @ '']''"
| "json_text f JTrue = ''true''"
| "json_text f JFalse = ''false''"
| "json_text f Null = ''null''"
| "members_text f [] = []"
| "members_text f ((k, v) # vs) =
     [CHR 0x22] @ k @ [CHR 0x22, CHR '':''] @ json_text f v @ (if vs \<noteq> [] then '','' else []) @ members_text f vs"
| "elements_text f [] = []"
| "elements_text f (v # vs) = json_text f v @ (if vs \<noteq> [] then '','' else []) @ elements_text f vs"

lemma Renderer_text:
  "Renderer f out v = out @ json_text f v"
  "Renderer_members f out vs = out @ members_text f vs"
  "Renderer_elements f out ws = out @ elements_text f ws"
  by (induction f out v and f out vs and f out ws rule: Renderer_Renderer_members_Renderer_elements.induct)
    (simp_all add: Let_def)

lemma ArrayRenderer_text:
  "ArrayRenderer f out v = out @ json_text (to_string_with_precision f) v"
  "ArrayRenderer_members f out vs = out @ members_text (to_string_with_precision f) vs"
  "ArrayRenderer_elements f out ws = out @ elements_text (to_string_with_precision f) ws"
  by (induction f out v and f out vs and f out ws rule: ArrayRenderer_ArrayRenderer_members_ArrayRenderer_elements.induct)
    (simp_all add: Let_def push_back_def insert_at_end_def)

lemma json_text_cong:
  "\<forall>x \<in> set_json_value v. f x = g x \<Longrightarrow> json_text f v = json_text g v"
  "\<forall>(k, v) \<in> set vs. \<forall>x \<in> set_json_value v. f x = g x \<Longrightarrow> members_text f vs = members_text g vs"
  "\<forall>v \<in> set ws. \<forall>x \<in> set_json_value v. f x = g x \<Longrightarrow> elements_text f ws = elements_text g ws"
  by (induction f v and f vs and f ws rule: json_text_members_text_elements_text.induct)
    (auto simp: prod_set_defs case_prod_beta)

section \<open>Reading back\<close>

lemma escape_JSON_concat: "escape_JSON s = concat (map escape_letter s)"
proof -
  have "fold (\<lambda>c out. out @ escape_letter c) s acc = acc @ concat (map escape_letter s)" for acc
    by (induction s arbitrary: acc) simp_all
  then show ?thesis by (simp add: escape_JSON_def)
qed

lemma read_escaped: "read_string (escape_JSON s @ CHR 0x22 # rest) = Some (s, rest)"
  unfolding escape_JSON_concat
  by (induction s) (simp_all add: escape_letter_def unescaped_def)

definition plain_key :: "string \<Rightarrow> bool" where
  "plain_key k \<longleftrightarrow> CHR 0x22 \<notin> set k \<and> CHR 0x5C \<notin> set k"

lemma read_plain_key: "plain_key k \<Longrightarrow> read_string (k @ CHR 0x22 # rest) = Some (k, rest)"
  by (induction k) (auto simp: plain_key_def)

text \<open>
  A value the reader understands: the keys need no escape, and the numbers are printed as
  tokens that \<open>number\<close> interprets as them.
\<close>

definition good_number :: "(string \<Rightarrow> 'n option) \<Rightarrow> ('n \<Rightarrow> string) \<Rightarrow> 'n \<Rightarrow> bool" where
  "good_number number f x \<longleftrightarrow> f x \<noteq> [] \<and> (\<forall>c \<in> set (f x). number_char c) \<and> number (f x) = Some x"

fun good_json :: "('n \<Rightarrow> bool) \<Rightarrow> 'n json_value \<Rightarrow> bool" where
  "good_json P (Number x) \<longleftrightarrow> P x"
| "good_json P (Object vs) \<longleftrightarrow> (\<forall>(k, v) \<in> set vs. plain_key k \<and> good_json P v)"
| "good_json P (Array vs) \<longleftrightarrow> (\<forall>v \<in> set vs. good_json P v)"
| "good_json P _ \<longleftrightarrow> True"

definition number_ends :: "string \<Rightarrow> bool" where
  "number_ends rest \<longleftrightarrow> rest = [] \<or> \<not> number_char (hd rest)"

definition readable :: "(string \<Rightarrow> 'n option) \<Rightarrow> ('n \<Rightarrow> string) \<Rightarrow> 'n json_value \<Rightarrow> bool" where
  "readable number f v \<longleftrightarrow> (\<exists>n. \<forall>m \<ge> n. \<forall>rest. number_ends rest
     \<longrightarrow> read_value number m (json_text f v @ rest) = Some (v, rest))"

lemma readableE:
  assumes "readable number f v"
  obtains n where "\<And>m rest. n \<le> m \<Longrightarrow> number_ends rest \<Longrightarrow> read_value number m (json_text f v @ rest) = Some (v, rest)"
  using assms unfolding readable_def by blast

lemma enough_fuelI: "(\<And>m. n \<le> m \<Longrightarrow> P (Suc m)) \<Longrightarrow> \<exists>n. \<forall>m \<ge> n. P m"
  by (metis Suc_le_D Suc_le_mono)

lemma readableI:
  assumes "\<And>m rest. n \<le> m \<Longrightarrow> number_ends rest \<Longrightarrow> read_value number (Suc m) (json_text f v @ rest) = Some (v, rest)"
  shows "readable number f v"
  unfolding readable_def using assms by (intro enough_fuelI) blast

lemma separators_end [simp]: "number_ends (CHR '','' # s)" "number_ends (CHR ''}'' # s)" "number_ends (CHR '']'' # s)"
  by (simp_all add: number_ends_def number_char_def)

lemma read_members_text:
  assumes "\<forall>(k, v) \<in> set vs. plain_key k \<and> readable number f v" and "vs \<noteq> []"
  shows "\<exists>n. \<forall>m \<ge> n. \<forall>rest. read_members number m (members_text f vs @ CHR ''}'' # rest) = Some (vs, rest)"
  using assms
proof (induction vs)
  case (Cons kv vs)
  obtain k v where kv: "kv = (k, v)" by (cases kv)
  then have k: "plain_key k" and "readable number f v"
    using Cons.prems(1) by auto
  then obtain n1 where n1: "\<And>m rest. n1 \<le> m \<Longrightarrow> number_ends rest \<Longrightarrow> read_value number m (json_text f v @ rest) = Some (v, rest)"
    using readableE by blast
  obtain n2 where n2: "vs \<noteq> [] \<Longrightarrow> n2 \<le> m \<Longrightarrow> read_members number m (members_text f vs @ CHR ''}'' # rest) = Some (vs, rest)" for m rest
    using Cons by (cases "vs = []") auto
  have "read_members number (Suc m) (members_text f (kv # vs) @ CHR ''}'' # rest) = Some (kv # vs, rest)"
    if "max n1 n2 \<le> m" for m rest
    using that n1 [of m] n2 [of m] read_plain_key [OF k] by (simp add: kv)
  then show ?case
    by (intro enough_fuelI) blast
qed simp

lemma read_elements_text:
  assumes "\<forall>v \<in> set vs. readable number f v" and "vs \<noteq> []"
  shows "\<exists>n. \<forall>m \<ge> n. \<forall>rest. read_elements number m (elements_text f vs @ CHR '']'' # rest) = Some (vs, rest)"
  using assms
proof (induction vs)
  case (Cons v vs)
  then obtain n1 where n1: "\<And>m rest. n1 \<le> m \<Longrightarrow> number_ends rest \<Longrightarrow> read_value number m (json_text f v @ rest) = Some (v, rest)"
    using readableE by (metis list.set_intros(1))
  obtain n2 where n2: "vs \<noteq> [] \<Longrightarrow> n2 \<le> m \<Longrightarrow> read_elements number m (elements_text f vs @ CHR '']'' # rest) = Some (vs, rest)" for m rest
    using Cons by (cases "vs = []") auto
  have "read_elements number (Suc m) (elements_text f (v # vs) @ CHR '']'' # rest) = Some (v # vs, rest)"
    if "max n1 n2 \<le> m" for m rest
    using that n1 [of m] n2 [of m] by simp
  then show ?case
    by (intro enough_fuelI) blast
qed simp

lemma text_not_closing:
  "vs \<noteq> [] \<Longrightarrow> take 1 (members_text f vs @ s) \<noteq> ''}''"
  by (cases vs) auto

lemma not_number_chars:
  "\<not> number_char (CHR '']'')" "\<not> number_char (CHR ''['')" "\<not> number_char (CHR ''{'')" "\<not> number_char (CHR 0x22)"
  "\<not> number_char (CHR ''t'')" "\<not> number_char (CHR ''f'')" "\<not> number_char (CHR ''n'')"
  by (simp_all add: number_char_def)

lemma element_starts:
  assumes "good_json (good_number number f) v"
  shows "json_text f v \<noteq> [] \<and> hd (json_text f v) \<noteq> CHR '']''"
proof (cases v)
  case (Number x)
  with assms have "f x \<noteq> []" "number_char (hd (f x))"
    by (simp_all add: good_number_def)
  with Number show ?thesis
    using not_number_chars(1) by (metis json_text.simps(2))
qed simp_all

lemma elements_not_closing:
  assumes "vs \<noteq> []" and "\<forall>v \<in> set vs. good_json (good_number number f) v"
  shows "take 1 (elements_text f vs @ s) \<noteq> '']''"
  using assms element_starts [of number f "hd vs"]
  by (cases vs; cases "json_text f (hd vs)") auto

lemma read_good_number:
  assumes "good_number number f x" and "number_ends rest"
  shows "read_value number (Suc m) (f x @ rest) = Some (Number x, rest)"
proof -
  obtain c s where fx: "f x = c # s" and all: "\<forall>c \<in> set (f x). number_char c" and n: "number (f x) = Some x"
    using assms(1) unfolding good_number_def by (cases "f x") auto
  then have c: "number_char c" by simp
  then have "c \<noteq> CHR 0x22" "c \<noteq> CHR ''{''" "c \<noteq> CHR ''[''"
    using not_number_chars by metis+
  moreover have "takeWhile number_char (f x @ rest) = f x" "dropWhile number_char (f x @ rest) = rest"
    using all assms(2) by (cases rest; simp add: number_ends_def takeWhile_append2 dropWhile_append2)+
  ultimately show ?thesis
    using c n by (simp add: fx)
qed

lemma good_json_readable: "good_json (good_number number f) v \<Longrightarrow> readable number f v"
proof (induction "good_number number f" v rule: good_json.induct)
  case (1 x)
  then show ?case by (intro readableI) (simp add: read_good_number del: read_value.simps)
next
  case (2 vs)
  show ?case
  proof (cases "vs = []")
    case True
    then show ?thesis by (intro readableI) simp
  next
    case False
    have "\<forall>(k, v) \<in> set vs. plain_key k \<and> readable number f v"
      using 2 by fastforce
    then obtain n where n: "\<And>m rest. n \<le> m \<Longrightarrow> read_members number m (members_text f vs @ CHR ''}'' # rest) = Some (vs, rest)"
      using read_members_text False by blast
    show ?thesis
      using text_not_closing [OF False] n by (intro readableI [of n]) simp
  qed
next
  case (3 vs)
  show ?case
  proof (cases "vs = []")
    case True
    then show ?thesis by (intro readableI) simp
  next
    case False
    have "\<forall>v \<in> set vs. readable number f v"
      using 3 by simp
    then obtain n where n: "\<And>m rest. n \<le> m \<Longrightarrow> read_elements number m (elements_text f vs @ CHR '']'' # rest) = Some (vs, rest)"
      using read_elements_text False by blast
    show ?thesis
      using elements_not_closing [OF False, of number f] 3(2) n by (intro readableI [of n]) simp
  qed
qed (auto intro!: readableI simp: read_escaped not_number_chars)

section \<open>Properties\<close>



text \<open>
  C24: the two renderers of a result print the same text whenever the two ways of printing a
  number agree on the numbers of the result; in particular on every result without numbers.
\<close>
theorem renderers_agree:
  assumes "\<forall>x \<in> set_json_value (Object object). stream x = to_string_with_precision fixed x"
  shows "render_vector fixed out object = render_stream stream out object"
  using json_text_cong(1) [OF assms]
  by (simp add: render_vector_def render_stream_def Renderer_text ArrayRenderer_text del: json_text.simps)

theorem renderers_agree_witness:
  "render_vector (\<lambda>x. ''0.500000'') [] [(''a'', Array [Number (), Null])]
   = render_stream (\<lambda>x. ''0.5'') [] [(''a'', Array [Number (), Null])]"
  by (rule renderers_agree) (simp add: to_string_with_precision_def trim_right_if_def)

end
