(* ===== verification/Range_Table.thy ===== *)
theory Range_Table
  imports Osrm_Prelude
begin

text \<open>
  The compressed table of adjacent ranges of \<^verbatim>\<open>data_structures/range_table.hpp\<close>, in which
  the engine keeps the offsets of street names. The block size \<open>B\<close> is an argument. The
  block that the constructor fills is uninitialised in the code; here its first content is the
  argument \<open>block\<close>, and the theorems hold for every such content. A failed
  \<^verbatim>\<open>BOOST_ASSERT\<close> is \<open>None\<close>.
\<close>

section \<open>The table\<close>

record range_table =
  rt_block_offsets :: "nat list"
  rt_diff_blocks :: "nat list list"
  rt_sum_lengths :: nat

record table_builder =
  tb_last_length :: nat
  tb_lengths_prefix_sum :: nat
  tb_block_idx :: nat
  tb_block_counter :: nat
  tb_block :: "nat list"
  tb_block_sum :: nat
  tb_block_offsets :: "nat list"
  tb_diff_blocks :: "nat list list"

definition number_of_blocks :: "nat \<Rightarrow> nat list \<Rightarrow> nat" where
  "number_of_blocks B lengths =
     (let num = (length lengths + 1) div (B + 1)
      in if (length lengths + 1) mod (B + 1) \<noteq> 0 then num + 1 else num)"

definition open_entry :: "table_builder \<Rightarrow> table_builder option" where
  "open_entry t =
     (if tb_block_idx t = 0
      then Some (t\<lparr>tb_block_offsets := tb_block_offsets t @ [tb_lengths_prefix_sum t], tb_block_sum := 0\<rparr>)
      else do {
        block \<leftarrow> upd_opt (tb_block t) (tb_block_idx t - 1) (tb_last_length t);
        Some (t\<lparr>tb_block := block, tb_block_sum := tb_block_sum t + tb_last_length t\<rparr>) })"

definition add_length :: "nat \<Rightarrow> nat \<Rightarrow> table_builder \<Rightarrow> table_builder option" where
  "add_length B l t = do {
     t \<leftarrow> open_entry t;
     offset \<leftarrow> nth_opt (tb_block_offsets t) (tb_block_counter t);
     assert_opt ((tb_block_idx t = 0 \<and> offset = tb_lengths_prefix_sum t)
       \<or> tb_lengths_prefix_sum t = offset + tb_block_sum t);
     (let t = (if B = tb_block_idx t
               then t\<lparr>tb_diff_blocks := tb_diff_blocks t @ [tb_block t], tb_block_counter := tb_block_counter t + 1\<rparr>
               else t)
      in do {
        assert_opt (l \<le> 255);
        Some (t\<lparr>tb_lengths_prefix_sum := tb_lengths_prefix_sum t + l, tb_last_length := l,
          tb_block_idx := (tb_block_idx t + 1) mod (B + 1)\<rparr>) }) }"

function pad_block :: "nat \<Rightarrow> nat \<Rightarrow> nat \<Rightarrow> nat list \<Rightarrow> nat list option" where
  "pad_block B block_idx last_length block =
     (if 0 < block_idx \<and> block_idx \<le> B then do {
        block' \<leftarrow> upd_opt block (block_idx - 1) last_length;
        pad_block B ((block_idx + 1) mod (B + 1)) 0 block' }
      else if block_idx = 0 then Some block else None)"
  by pat_completeness auto
termination
  by (relation "measure (\<lambda>(B, block_idx, _, _). (B + 1 - block_idx) mod (B + 1))")
    (auto simp: mod_Suc)

declare pad_block.simps [simp del]

definition RangeTable :: "nat \<Rightarrow> nat list \<Rightarrow> nat list \<Rightarrow> range_table option" where
  "RangeTable B block lengths = do {
     t \<leftarrow> foldM (add_length B) lengths
       \<lparr>tb_last_length = 0, tb_lengths_prefix_sum = 0, tb_block_idx = 0, tb_block_counter = 0,
        tb_block = block, tb_block_sum = 0, tb_block_offsets = [], tb_diff_blocks = []\<rparr>;
     assert_opt (tb_block_counter t = number_of_blocks B lengths - 1);
     (let t = (if 0 = tb_block_idx t
               then t\<lparr>tb_block_offsets := tb_block_offsets t @ [tb_lengths_prefix_sum t], tb_block_idx := 1, tb_last_length := 0\<rparr>
               else t)
      in do {
        block \<leftarrow> pad_block B (tb_block_idx t) (tb_last_length t) (tb_block t);
        (let diff_blocks = tb_diff_blocks t @ [block]
         in do {
           assert_opt (length diff_blocks = number_of_blocks B lengths
             \<and> length (tb_block_offsets t) = number_of_blocks B lengths);
           Some \<lparr>rt_block_offsets = tb_block_offsets t, rt_diff_blocks = diff_blocks,
             rt_sum_lengths = tb_lengths_prefix_sum t\<rparr> }) }) }"

definition PrefixSumAtIndex :: "nat \<Rightarrow> nat list \<Rightarrow> nat option" where
  "PrefixSumAtIndex index block = foldM (\<lambda>i sum. map_option (\<lambda>d. sum + d) (nth_opt block i)) [0..<index + 1] 0"

definition GetRange :: "nat \<Rightarrow> nat \<Rightarrow> range_table \<Rightarrow> nat list option" where
  "GetRange B ident t = do {
     assert_opt (ident < length (rt_block_offsets t) + length (rt_diff_blocks t) * B);
     (let internal_idx = ident mod (B + 1); block_idx = ident div (B + 1)
      in do {
        assert_opt (block_idx < length (rt_diff_blocks t));
        offset \<leftarrow> nth_opt (rt_block_offsets t) block_idx;
        block \<leftarrow> nth_opt (rt_diff_blocks t) block_idx;
        begin_idx \<leftarrow> (if internal_idx > 0
          then map_option (\<lambda>sum. offset + sum) (PrefixSumAtIndex (internal_idx - 1) block) else Some offset);
        end_idx \<leftarrow> (if internal_idx < B
          then map_option (\<lambda>d. begin_idx + d) (nth_opt block internal_idx)
          else do {
            assert_opt (block_idx < length (rt_block_offsets t) - 1);
            nth_opt (rt_block_offsets t) (block_idx + 1) });
        assert_opt (begin_idx < rt_sum_lengths t \<and> end_idx \<le> rt_sum_lengths t);
        assert_opt (begin_idx \<le> end_idx);
        irange begin_idx end_idx }) }"

section \<open>Writing and reading the table\<close>

text \<open>
  An \<^verbatim>\<open>unsigned\<close> is four bytes, lowest first. A read past the end of the stream leaves
  the destination unspecified and is \<open>None\<close>.
\<close>

definition u32_bytes :: "nat \<Rightarrow> nat list" where
  "u32_bytes n = [n mod 256, n div 256 mod 256, n div 65536 mod 256, n div 16777216 mod 256]"

definition get_u32 :: "nat list \<Rightarrow> (nat \<times> nat list) option" where
  "get_u32 bytes = (case bytes of
       a # b # c # d # rest \<Rightarrow> Some (a + 256 * b + 65536 * c + 16777216 * d, rest)
     | _ \<Rightarrow> None)"

fun get_u32s :: "nat \<Rightarrow> nat list \<Rightarrow> (nat list \<times> nat list) option" where
  "get_u32s 0 bytes = Some ([], bytes)"
| "get_u32s (Suc k) bytes = do { (n, rest) \<leftarrow> get_u32 bytes; (ns, rest) \<leftarrow> get_u32s k rest; Some (n # ns, rest) }"

fun get_blocks :: "nat \<Rightarrow> nat \<Rightarrow> nat list \<Rightarrow> (nat list list \<times> nat list) option" where
  "get_blocks B 0 bytes = Some ([], bytes)"
| "get_blocks B (Suc k) bytes =
     (if B \<le> length bytes
      then do { (blocks, rest) \<leftarrow> get_blocks B k (drop B bytes); Some (take B bytes # blocks, rest) }
      else None)"

definition write_table :: "range_table \<Rightarrow> nat list" where
  "write_table t = u32_bytes (length (rt_diff_blocks t)) @ u32_bytes (rt_sum_lengths t)
     @ concat (map u32_bytes (rt_block_offsets t)) @ concat (rt_diff_blocks t)"

definition read_table :: "nat \<Rightarrow> nat list \<Rightarrow> (range_table \<times> nat list) option" where
  "read_table B bytes = do {
     (blocks, bytes) \<leftarrow> get_u32 bytes;
     (sum, bytes) \<leftarrow> get_u32 bytes;
     (offsets, bytes) \<leftarrow> get_u32s blocks bytes;
     (diffs, bytes) \<leftarrow> get_blocks B blocks bytes;
     Some (\<lparr>rt_block_offsets = offsets, rt_diff_blocks = diffs, rt_sum_lengths = sum\<rparr>, bytes) }"

section \<open>The constructor\<close>

abbreviation prefix_sum :: "nat list \<Rightarrow> nat \<Rightarrow> nat" where
  "prefix_sum lengths i \<equiv> sum_list (take i lengths)"

definition entry :: "nat list \<Rightarrow> nat \<Rightarrow> nat" where
  "entry lengths i = (if i < length lengths then lengths ! i else 0)"

definition block_start :: "nat \<Rightarrow> nat \<Rightarrow> nat" where
  "block_start B k = k * (B + 1)"

lemma block_start_Suc: "block_start B (Suc k) = Suc (block_start B k + B)"
  by (simp add: block_start_def)

text \<open>
  After \<open>q\<close> full blocks with their offsets and \<open>r\<close> more lengths. The last length is entered into
  the block only when the next one arrives.
\<close>

definition builder_inv :: "nat \<Rightarrow> nat list \<Rightarrow> nat \<Rightarrow> nat \<Rightarrow> table_builder \<Rightarrow> bool" where
  "builder_inv B lengths q r t \<longleftrightarrow> r \<le> B \<and> tb_block_idx t = r \<and> tb_block_counter t = q
     \<and> tb_lengths_prefix_sum t = prefix_sum lengths (block_start B q + r)
     \<and> tb_block_offsets t = map (\<lambda>k. prefix_sum lengths (block_start B k)) [0..<if r = 0 then q else q + 1]
     \<and> tb_diff_blocks t = map (\<lambda>k. map (\<lambda>j. entry lengths (block_start B k + j)) [0..<B]) [0..<q]
     \<and> length (tb_block t) = B
     \<and> (0 < r \<longrightarrow> tb_last_length t = entry lengths (block_start B q + r - 1)
         \<and> (\<forall>j < r - 1. tb_block t ! j = entry lengths (block_start B q + j))
         \<and> prefix_sum lengths (block_start B q) + tb_block_sum t = prefix_sum lengths (block_start B q + r - 1))"

lemma prefix_sum_Suc: "prefix_sum lengths (Suc i) = prefix_sum lengths i + entry lengths i"
  by (cases "i < length lengths") (simp_all add: sum_list_take_Suc entry_def)

lemma full_block:
  assumes "length block = B" and "\<forall>j < B. block ! j = f j"
  shows "block = map f [0..<B]"
  using assms by (simp add: list_eq_iff_nth_eq)

lemma add_length_inv:
  assumes inv: "builder_inv B lengths q r t" and B: "0 < B"
    and l: "l = entry lengths (block_start B q + r)" and small: "l \<le> 255"
  shows "\<exists>t'. add_length B l t = Some t'
    \<and> (if r < B then builder_inv B lengths q (r + 1) t' else builder_inv B lengths (q + 1) 0 t')"
proof (cases "r = 0")
  case True
  with inv B small show ?thesis
    by (simp add: add_length_def open_entry_def builder_inv_def l prefix_sum_Suc nth_append block_start_Suc)
next
  case False
  then obtain k where k: "r = Suc k" by (cases r) simp_all
  have len: "k < length (tb_block t)"
    using inv k by (simp add: builder_inv_def)
  let ?block = "(tb_block t)[k := tb_last_length t]"
  have entries: "\<forall>j < r. ?block ! j = entry lengths (block_start B q + j)"
    using inv k len by (auto simp: builder_inv_def nth_list_update less_Suc_eq)
  have full: "?block = map (\<lambda>j. entry lengths (block_start B q + j)) [0..<B]" if "r = B"
    using full_block [of ?block B] entries that inv by (simp add: builder_inv_def)
  show ?thesis
    using inv B small len entries full
    by (auto simp: add_length_def open_entry_def builder_inv_def l k prefix_sum_Suc nth_append block_start_Suc)
qed

lemma next_entry:
  assumes "(i :: nat) = q * (B + 1) + r" and "r \<le> B"
  shows "i div (B + 1) = q" and "i mod (B + 1) = r"
    and "Suc i div (B + 1) = (if r < B then q else q + 1)" and "Suc i mod (B + 1) = (if r < B then r + 1 else 0)"
proof -
  have r: "r div (B + 1) = 0" "r mod (B + 1) = r"
    using assms(2) by simp_all
  show d: "i div (B + 1) = q" and m: "i mod (B + 1) = r"
    unfolding assms(1) by (subst div_mult_self3, simp, simp only: r add_0_right, simp only: mod_mult_self3 r)
  show "Suc i mod (B + 1) = (if r < B then r + 1 else 0)"
    using m assms(2) by (auto simp: mod_Suc)
  show "Suc i div (B + 1) = (if r < B then q else q + 1)"
    using d m assms(2) by (auto simp: div_Suc mod_Suc)
qed

lemma add_lengths_inv:
  assumes "0 < B" and "\<forall>l \<in> set lengths. l \<le> 255" and "length block = B" and "i \<le> length lengths"
  shows "\<exists>t. foldM (add_length B) (take i lengths)
      \<lparr>tb_last_length = 0, tb_lengths_prefix_sum = 0, tb_block_idx = 0, tb_block_counter = 0,
       tb_block = block, tb_block_sum = 0, tb_block_offsets = [], tb_diff_blocks = []\<rparr> = Some t
    \<and> builder_inv B lengths (i div (B + 1)) (i mod (B + 1)) t"
  using assms(4)
proof (induction i)
  case 0
  then show ?case using assms(3) by (simp add: builder_inv_def block_start_def)
next
  case (Suc i)
  let ?q = "i div (B + 1)" and ?r = "i mod (B + 1)"
  have i: "i = ?q * (B + 1) + ?r" "?r \<le> B"
    by (simp_all only: div_mult_mod_eq less_Suc_eq_le [symmetric] Suc_eq_plus1 mod_less_divisor zero_less_Suc)
  from Suc obtain t where t: "foldM (add_length B) (take i lengths)
      \<lparr>tb_last_length = 0, tb_lengths_prefix_sum = 0, tb_block_idx = 0, tb_block_counter = 0,
       tb_block = block, tb_block_sum = 0, tb_block_offsets = [], tb_diff_blocks = []\<rparr> = Some t"
    "builder_inv B lengths ?q ?r t" by auto
  have l: "lengths ! i = entry lengths (block_start B ?q + ?r)" "lengths ! i \<le> 255"
    using Suc.prems i assms(2) by (simp_all add: entry_def block_start_def)
  obtain t' where "add_length B (lengths ! i) t = Some t'"
    "if ?r < B then builder_inv B lengths ?q (?r + 1) t' else builder_inv B lengths (?q + 1) 0 t'"
    using add_length_inv [OF t(2) assms(1) l] by blast
  then show ?case
    using t(1) Suc.prems next_entry(3,4) [OF i]
    by (simp add: take_Suc_conv_app_nth foldM_append split: if_splits)
qed

lemma pad_block_zeros:
  assumes "0 < idx" and "idx \<le> B" and "length block = B"
  shows "pad_block B idx last_length block
    = Some (map (\<lambda>j. if j < idx - 1 then block ! j else if j = idx - 1 then last_length else 0) [0..<B])"
  using assms
proof (induction "B - idx" arbitrary: idx last_length block)
  case 0
  then have idx: "idx = B" by simp
  have "pad_block B B last_length block = Some (block[B - 1 := last_length])"
    using 0 idx by (subst pad_block.simps, simp) (subst pad_block.simps, simp)
  also have "block[B - 1 := last_length]
      = map (\<lambda>j. if j < B - 1 then block ! j else if j = B - 1 then last_length else 0) [0..<B]"
    using "0.prems"(3) by (intro nth_equalityI) (simp_all add: nth_list_update, linarith)
  finally show ?case by (simp add: idx)
next
  case (Suc m)
  then have m: "m = B - Suc idx" "Suc idx \<le> B" by simp_all
  have "pad_block B idx last_length block = pad_block B (Suc idx) 0 (block[idx - 1 := last_length])"
    using Suc.prems m by (subst pad_block.simps) simp
  also have "\<dots> = Some (map (\<lambda>j. if j < idx then block[idx - 1 := last_length] ! j else if j = idx then 0 else 0) [0..<B])"
    using Suc.hyps(1) [OF m(1) _ m(2)] Suc.prems by simp
  also have "\<dots> = Some (map (\<lambda>j. if j < idx - 1 then block ! j else if j = idx - 1 then last_length else 0) [0..<B])"
    using Suc.prems by (intro arg_cong [where f = Some] map_cong refl) (auto simp: nth_list_update)
  finally show ?case .
qed

definition table_of :: "nat \<Rightarrow> nat list \<Rightarrow> range_table" where
  "table_of B lengths =
     \<lparr>rt_block_offsets = map (\<lambda>k. prefix_sum lengths (block_start B k)) [0..<length lengths div (B + 1) + 1],
      rt_diff_blocks = map (\<lambda>k. map (\<lambda>j. entry lengths (block_start B k + j)) [0..<B]) [0..<length lengths div (B + 1) + 1],
      rt_sum_lengths = sum_list lengths\<rparr>"

lemma number_of_blocks_eq: "number_of_blocks B lengths = length lengths div (B + 1) + 1"
proof -
  let ?q = "length lengths div (B + 1)" and ?r = "length lengths mod (B + 1)"
  have i: "length lengths = ?q * (B + 1) + ?r" "?r \<le> B"
    by (simp_all only: div_mult_mod_eq less_Suc_eq_le [symmetric] Suc_eq_plus1 mod_less_divisor zero_less_Suc)
  show ?thesis
    using next_entry(3,4) [OF i] i(2) by (simp add: number_of_blocks_def)
qed

lemma RangeTable_builds:
  assumes "0 < B" and "\<forall>l \<in> set lengths. l \<le> 255" and "length block = B"
  shows "RangeTable B block lengths = Some (table_of B lengths)"
proof -
  let ?q = "length lengths div (B + 1)" and ?r = "length lengths mod (B + 1)"
  obtain t where t: "foldM (add_length B) lengths
      \<lparr>tb_last_length = 0, tb_lengths_prefix_sum = 0, tb_block_idx = 0, tb_block_counter = 0,
       tb_block = block, tb_block_sum = 0, tb_block_offsets = [], tb_diff_blocks = []\<rparr> = Some t"
    and inv: "builder_inv B lengths ?q ?r t"
    using add_lengths_inv [OF assms le_refl] by auto
  have n: "length lengths = block_start B ?q + ?r"
    unfolding block_start_def by (rule div_mult_mod_eq [symmetric])
  show ?thesis
  proof (cases "?r = 0")
    case True
    have "pad_block B 1 0 (tb_block t) = Some (map (\<lambda>j. entry lengths (block_start B ?q + j)) [0..<B])"
      using pad_block_zeros [of 1 B "tb_block t" 0] inv assms(1) n True by (simp add: builder_inv_def entry_def)
    then show ?thesis
      using inv True n t by (simp add: RangeTable_def number_of_blocks_eq builder_inv_def table_of_def)
  next
    case False
    have "pad_block B ?r (tb_last_length t) (tb_block t) = Some (map (\<lambda>j. entry lengths (block_start B ?q + j)) [0..<B])"
      using pad_block_zeros [of ?r B "tb_block t" "tb_last_length t"] inv n False
      by (auto simp: builder_inv_def entry_def)
    then show ?thesis
      using inv False n t by (simp add: RangeTable_def number_of_blocks_eq builder_inv_def table_of_def)
  qed
qed

section \<open>Looking up a range\<close>

lemma PrefixSumAtIndex_entries:
  assumes "i < B"
  shows "PrefixSumAtIndex i (map (\<lambda>j. entry lengths (s + j)) [0..<B]) = Some (prefix_sum lengths (s + Suc i) - prefix_sum lengths s)"
proof -
  have "foldM (\<lambda>i sum. map_option (\<lambda>d. sum + d) (nth_opt (map (\<lambda>j. entry lengths (s + j)) [0..<B]) i)) [0..<k] 0
      = Some (prefix_sum lengths (s + k) - prefix_sum lengths s)" if "k \<le> B" for k
    using that
  proof (induction k)
    case (Suc k)
    have "prefix_sum lengths s \<le> prefix_sum lengths (s + k)"
      by (simp add: take_add)
    with Suc show ?case by (simp add: foldM_append prefix_sum_Suc)
  qed simp
  from this [of "Suc i"] show ?thesis
    using assms by (simp add: PrefixSumAtIndex_def)
qed

lemma prefix_sum_mono: "i \<le> j \<Longrightarrow> prefix_sum lengths i \<le> prefix_sum lengths j"
  by (metis le_add1 le_iff_add sum_list_append take_add)

lemma GetRange_table_of:
  assumes "0 < B" and "ident < length lengths"
  shows "GetRange B ident (table_of B lengths)
    = (if prefix_sum lengths ident < sum_list lengths
       then Some [prefix_sum lengths ident..<prefix_sum lengths (ident + 1)] else None)"
proof -
  let ?q = "ident div (B + 1)" and ?r = "ident mod (B + 1)"
  have i: "ident = block_start B ?q + ?r" "?r \<le> B"
    unfolding block_start_def
    by (simp_all only: div_mult_mod_eq less_Suc_eq_le [symmetric] Suc_eq_plus1 mod_less_divisor zero_less_Suc)
  have q: "?q \<le> length lengths div (B + 1)"
    using assms(2) by (simp add: div_le_mono)
  have total: "prefix_sum lengths j \<le> sum_list lengths" for j
    using prefix_sum_mono [of j "max j (length lengths)" lengths] by (cases "j \<le> length lengths") simp_all
  have mono: "prefix_sum lengths ident \<le> prefix_sum lengths (Suc ident)"
    by (simp add: prefix_sum_mono)
  have start: "prefix_sum lengths (block_start B ?q) \<le> prefix_sum lengths ident"
    using i(1) by (intro prefix_sum_mono) simp
  have blocks: "ident < length lengths div (B + 1) + 1 + (length lengths div (B + 1) + 1) * B"
    using assms(2) dividend_less_times_div [of "B + 1" "length lengths"] by (simp add: algebra_simps)
  let ?block = "map (\<lambda>j. entry lengths (block_start B ?q + j)) [0..<B]"
  have first: "(if ?r > 0 then map_option (\<lambda>sum. prefix_sum lengths (block_start B ?q) + sum) (PrefixSumAtIndex (?r - 1) ?block)
      else Some (prefix_sum lengths (block_start B ?q))) = Some (prefix_sum lengths ident)"
  proof (cases "?r = 0")
    case False
    then have "?r - 1 < B" "block_start B ?q + Suc (?r - 1) = ident"
      using i by linarith+
    then show ?thesis
      using False start PrefixSumAtIndex_entries [of "?r - 1" B lengths "block_start B ?q"] by simp
  qed (use i(1) in simp)
  have past: "(if ?r < B then map_option (\<lambda>d. prefix_sum lengths ident + d) (nth_opt ?block ?r)
      else do {
        assert_opt (?q < length (rt_block_offsets (table_of B lengths)) - 1);
        nth_opt (rt_block_offsets (table_of B lengths)) (?q + 1) }) = Some (prefix_sum lengths (Suc ident))"
  proof (cases "?r < B")
    case True
    then show ?thesis using i(1) by (simp add: prefix_sum_Suc)
  next
    case False
    then have "Suc ident = block_start B (Suc ?q)"
      using i unfolding block_start_Suc by linarith
    moreover from this have "Suc ?q \<le> length lengths div (B + 1)"
      using assms(2) by (simp add: block_start_def less_eq_div_iff_mult_less_eq)
    ultimately show ?thesis
      using False by (simp add: table_of_def del: upt_Suc)
  qed
  have table: "nth_opt (rt_block_offsets (table_of B lengths)) ?q = Some (prefix_sum lengths (block_start B ?q))"
    "nth_opt (rt_diff_blocks (table_of B lengths)) ?q = Some ?block" "rt_sum_lengths (table_of B lengths) = sum_list lengths"
    "length (rt_block_offsets (table_of B lengths)) = length lengths div (B + 1) + 1"
    "length (rt_diff_blocks (table_of B lengths)) = length lengths div (B + 1) + 1"
    using q by (simp_all add: table_of_def del: upt_Suc)
  have "GetRange B ident (table_of B lengths) = do {
      assert_opt (prefix_sum lengths ident < sum_list lengths \<and> prefix_sum lengths (Suc ident) \<le> sum_list lengths);
      assert_opt (prefix_sum lengths ident \<le> prefix_sum lengths (Suc ident));
      irange (prefix_sum lengths ident) (prefix_sum lengths (Suc ident)) }"
    using blocks q unfolding GetRange_def Let_def table bind.bind_lunit first past [unfolded table]
    by (simp add: assert_opt_def)
  then show ?thesis
    using total [of "Suc ident"] mono by (simp add: assert_opt_def)
qed

section \<open>Writing and reading back\<close>

lemma get_u32_bytes: "n < 2 ^ 32 \<Longrightarrow> get_u32 (u32_bytes n @ rest) = Some (n, rest)"
proof -
  assume "n < 2 ^ 32"
  then have "n div 16777216 < 256" by (simp add: div_less_iff_less_mult)
  moreover have "n div 65536 = n div 256 div 256" "n div 16777216 = n div 256 div 256 div 256"
    by (simp_all flip: div_mult2_eq)
  moreover have "n = n mod 256 + 256 * (n div 256)" "n div 256 = n div 256 mod 256 + 256 * (n div 256 div 256)"
    "n div 256 div 256 = n div 256 div 256 mod 256 + 256 * (n div 256 div 256 div 256)"
    by (simp_all only: mod_mult_div_eq)
  ultimately have "n mod 256 + 256 * (n div 256 mod 256) + 65536 * (n div 65536 mod 256) + 16777216 * (n div 16777216 mod 256) = n"
    by (simp only: mod_less)
  then show ?thesis
    by (simp only: get_u32_def u32_bytes_def append.simps list.case)
qed

lemma get_u32s_bytes: "\<forall>n \<in> set ns. n < 2 ^ 32 \<Longrightarrow> get_u32s (length ns) (concat (map u32_bytes ns) @ rest) = Some (ns, rest)"
  by (induction ns) (simp_all add: get_u32_bytes)

lemma get_blocks_concat:
  "\<forall>block \<in> set blocks. length block = B \<Longrightarrow> get_blocks B (length blocks) (concat blocks @ rest) = Some (blocks, rest)"
  by (induction blocks) simp_all

definition writable :: "nat \<Rightarrow> range_table \<Rightarrow> bool" where
  "writable B t \<longleftrightarrow> length (rt_block_offsets t) = length (rt_diff_blocks t) \<and> length (rt_diff_blocks t) < 2 ^ 32
     \<and> rt_sum_lengths t < 2 ^ 32 \<and> (\<forall>n \<in> set (rt_block_offsets t). n < 2 ^ 32)
     \<and> (\<forall>block \<in> set (rt_diff_blocks t). length block = B)"

lemma read_write_table: "writable B t \<Longrightarrow> read_table B (write_table t @ rest) = Some (t, rest)"
proof -
  assume t: "writable B t"
  then have "get_u32s (length (rt_diff_blocks t)) (concat (map u32_bytes (rt_block_offsets t)) @ s) = Some (rt_block_offsets t, s)" for s
    using get_u32s_bytes [of "rt_block_offsets t"] by (simp add: writable_def)
  with t show ?thesis
    by (simp add: writable_def read_table_def write_table_def get_u32_bytes get_blocks_concat)
qed

section \<open>Properties\<close>



text \<open>
  C26: a table that the constructor built, written to a stream and read from it again, is the
  same table, and the rest of the stream is left for the next reader, as long as the sum of the
  lengths and the number of blocks fit into 32 bits.
\<close>
theorem table_round_trip:
  assumes "0 < B" and "\<forall>l \<in> set lengths. l \<le> 255" and "length block = B"
    and "sum_list lengths < 2 ^ 32" and "length lengths < 2 ^ 32 - 1"
  shows "\<exists>t. RangeTable B block lengths = Some t \<and> read_table B (write_table t @ rest) = Some (t, rest)"
proof -
  have "length lengths div (B + 1) < 2 ^ 32 - 1"
    using div_le_dividend assms(5) by (rule le_less_trans)
  moreover have "prefix_sum lengths j \<le> sum_list lengths" for j
    by (metis append_take_drop_id le_add1 sum_list_append)
  ultimately have "writable B (table_of B lengths)"
    using assms(4,5) by (auto simp: writable_def table_of_def intro: le_less_trans)
  then show ?thesis
    using RangeTable_builds [OF assms(1-3)] read_write_table by blast
qed

theorem table_round_trip_witness:
  "\<exists>t. RangeTable 1 [0] [2, 255] = Some t \<and> read_table 1 (write_table t @ [1, 2, 3]) = Some (t, [1, 2, 3])"
  by (rule table_round_trip) simp_all

end
