(* ===== verification/Trip.thy ===== *)
theory Trip
  imports Osrm_Prelude "HOL-Library.List_Lexorder"
begin

text \<open>
  The round-trip heuristics of \<^verbatim>\<open>algorithms/trip_*.hpp\<close> over the distance table of
  \<^verbatim>\<open>util/dist_table_wrapper.hpp\<close>. A component is the list of the node identifiers
  between the two iterators. \<^verbatim>\<open>std::next_permutation\<close> is modelled on lists; an iterator into
  a route is a position.
\<close>

section \<open>The distance table\<close>

record dist_table =
  dt_table :: "EdgeWeight list"
  dt_number_of_nodes :: nat

definition DistTableWrapper :: "EdgeWeight list \<Rightarrow> nat \<Rightarrow> dist_table option" where
  "DistTableWrapper table number_of_nodes = do {
     assert_opt (number_of_nodes * number_of_nodes \<le> length table);
     Some \<lparr>dt_table = table, dt_number_of_nodes = number_of_nodes\<rparr> }"

definition dist :: "dist_table \<Rightarrow> NodeID \<Rightarrow> NodeID \<Rightarrow> EdgeWeight option" where
  "dist t from_node to_node = do {
     assert_opt (from_node < dt_number_of_nodes t);
     assert_opt (to_node < dt_number_of_nodes t);
     nth_opt (dt_table t) (from_node * dt_number_of_nodes t + to_node) }"

text \<open>\<^verbatim>\<open>std::max_element\<close>: the first position of a greatest element.\<close>

fun max_element_from :: "EdgeWeight list \<Rightarrow> nat \<Rightarrow> nat \<Rightarrow> EdgeWeight \<Rightarrow> nat" where
  "max_element_from [] i best m = best"
| "max_element_from (x # xs) i best m = (if m < x then max_element_from xs (i + 1) i x else max_element_from xs (i + 1) best m)"

definition GetIndexOfMaxValue :: "dist_table \<Rightarrow> nat" where
  "GetIndexOfMaxValue t = (case dt_table t of [] \<Rightarrow> 0 | x # xs \<Rightarrow> max_element_from xs 1 0 x)"

section \<open>Brute force\<close>

function return_distance_loop :: "dist_table \<Rightarrow> NodeID list \<Rightarrow> EdgeWeight \<Rightarrow> nat \<Rightarrow> nat \<Rightarrow> EdgeWeight \<Rightarrow> EdgeWeight option" where
  "return_distance_loop t location_order min_route_dist component_size i route_dist =
     (if i < length location_order \<and> route_dist < min_route_dist then do {
        a \<leftarrow> nth_opt location_order i;
        b \<leftarrow> nth_opt location_order ((i + 1) mod component_size);
        d \<leftarrow> dist t a b;
        assert_opt (d \<noteq> INVALID_EDGE_WEIGHT);
        return_distance_loop t location_order min_route_dist component_size (i + 1) (route_dist + d) }
      else Some route_dist)"
  by pat_completeness auto
termination
  by (relation "measure (\<lambda>(_, location_order, _, _, i, _). length location_order - i)") auto

declare return_distance_loop.simps [simp del]

definition ReturnDistance :: "dist_table \<Rightarrow> NodeID list \<Rightarrow> EdgeWeight \<Rightarrow> nat \<Rightarrow> EdgeWeight option" where
  "ReturnDistance t location_order min_route_dist component_size =
     return_distance_loop t location_order min_route_dist component_size 0 0"

text \<open>
  \<^verbatim>\<open>std::next_permutation\<close>. When the tail has no next permutation it is not increasing anywhere;
  the head is exchanged with the last greater element of the tail, and the tail is reversed.
\<close>

fun next_permutation :: "nat list \<Rightarrow> nat list option" where
  "next_permutation [] = None"
| "next_permutation (x # xs) =
     (case next_permutation xs of
        Some ys \<Rightarrow> Some (x # ys)
      | None \<Rightarrow>
          (case dropWhile (\<lambda>y. y \<le> x) (rev xs) of
             [] \<Rightarrow> None
           | y # front \<Rightarrow> Some (y # takeWhile (\<lambda>y. y \<le> x) (rev xs) @ x # front)))"

lemma next_permutation_mset: "next_permutation xs = Some ys \<Longrightarrow> mset ys = mset xs"
proof (induction xs arbitrary: ys)
  case (Cons x xs)
  show ?case
  proof (cases "next_permutation xs")
    case (Some zs)
    with Cons show ?thesis by auto
  next
    case None
    then obtain y front where d: "dropWhile (\<lambda>y. y \<le> x) (rev xs) = y # front"
      and ys: "ys = y # takeWhile (\<lambda>y. y \<le> x) (rev xs) @ x # front"
      using Cons.prems by (auto split: list.splits)
    have "mset xs = mset (takeWhile (\<lambda>y. y \<le> x) (rev xs)) + mset (y # front)"
      unfolding d [symmetric] mset_append [symmetric] takeWhile_dropWhile_id by simp
    then show ?thesis by (simp add: ys)
  qed
qed simp

lemma next_permutation_greater: "next_permutation xs = Some ys \<Longrightarrow> xs < ys"
proof (induction xs arbitrary: ys)
  case (Cons x xs)
  show ?case
  proof (cases "next_permutation xs")
    case (Some zs)
    with Cons show ?thesis by auto
  next
    case None
    then obtain y front where d: "dropWhile (\<lambda>y. y \<le> x) (rev xs) = y # front"
      and ys: "ys = y # takeWhile (\<lambda>y. y \<le> x) (rev xs) @ x # front"
      using Cons.prems by (auto split: list.splits)
    have "\<not> y \<le> x"
      using hd_dropWhile [of "\<lambda>y. y \<le> x" "rev xs"] d by simp
    then show ?thesis by (simp add: ys)
  qed
qed simp

lemma next_permutation_None: "next_permutation xs = None \<Longrightarrow> sorted (rev xs)"
proof (induction xs)
  case (Cons x xs)
  then have xs: "next_permutation xs = None" and "dropWhile (\<lambda>y. y \<le> x) (rev xs) = []"
    by (auto split: option.splits list.splits)
  then have "\<forall>y \<in> set xs. y \<le> x"
    by (simp add: dropWhile_eq_Nil_conv)
  with Cons.IH [OF xs] show ?case by (simp add: sorted_append)
qed simp

lemma sorted_least: "sorted xs \<Longrightarrow> mset xs = mset zs \<Longrightarrow> xs \<le> zs" for xs :: "nat list"
proof (induction xs arbitrary: zs)
  case (Cons x xs)
  then obtain z zs' where zs: "zs = z # zs'"
    by (cases zs) auto
  then have "z \<in> set (x # xs)"
    using Cons.prems(2) by (metis list.set_intros(1) mset_eq_setD)
  then have "x \<le> z"
    using Cons.prems(1) by auto
  then show ?case
    using Cons zs by (cases "x = z") auto
qed simp

lemma unsorted_greatest: "sorted (rev xs) \<Longrightarrow> mset xs = mset zs \<Longrightarrow> zs \<le> xs" for xs :: "nat list"
proof (induction xs arbitrary: zs)
  case (Cons x xs)
  then obtain z zs' where zs: "zs = z # zs'"
    by (cases zs) auto
  then have "z \<in> set (x # xs)"
    using Cons.prems(2) by (metis list.set_intros(1) mset_eq_setD)
  then have "z \<le> x"
    using Cons.prems(1) by (auto simp: sorted_append)
  then show ?case
    using Cons zs by (cases "x = z") (auto simp: sorted_append)
qed simp

lemma next_permutation_least:
  "next_permutation xs = Some ys \<Longrightarrow> mset zs = mset xs \<Longrightarrow> xs < zs \<Longrightarrow> ys \<le> zs"
proof (induction xs arbitrary: ys zs)
  case (Cons x xs)
  then obtain z zs' where zs: "zs = z # zs'"
    by (cases zs) auto
  show ?case
  proof (cases "next_permutation xs")
    case (Some us)
    with Cons zs show ?thesis by (cases "x = z") auto
  next
    case None
    then obtain y front where d: "dropWhile (\<lambda>y. y \<le> x) (rev xs) = y # front"
      and ys: "ys = y # takeWhile (\<lambda>y. y \<le> x) (rev xs) @ x # front"
      using Cons.prems by (auto split: list.splits)
    have sorted: "sorted (rev xs)"
      using None by (rule next_permutation_None)
    have "x \<noteq> z"
    proof
      assume "x = z"
      then have "zs' \<le> xs" "xs < zs'"
        using Cons.prems(2,3) zs unsorted_greatest [OF sorted, of zs'] by auto
      then show False by simp
    qed
    moreover have "z \<in> set (x # xs)"
      using Cons.prems(2) zs by (metis list.set_intros(1) mset_eq_setD)
    ultimately have z: "x < z" "z \<in> set xs"
      using Cons.prems(3) zs by auto
    have rev: "rev xs = takeWhile (\<lambda>y. y \<le> x) (rev xs) @ y # front"
      using takeWhile_dropWhile_id [of "\<lambda>y. y \<le> x" "rev xs"] d by simp
    have small: "\<forall>w \<in> set (takeWhile (\<lambda>y. y \<le> x) (rev xs)). w \<le> x"
      by (auto dest: set_takeWhileD)
    have parts: "sorted (takeWhile (\<lambda>y. y \<le> x) (rev xs))" "sorted (y # front)"
      using sorted rev sorted_append by metis+
    have "\<not> y \<le> x"
      using hd_dropWhile [of "\<lambda>y. y \<le> x" "rev xs"] d by simp
    have "z \<in> set (y # front)"
      using z small rev by (metis Un_iff leD set_append set_rev)
    then have "y \<le> z"
      using parts(2) by auto
    show ?thesis
    proof (cases "y = z")
      case True
      have "sorted (takeWhile (\<lambda>y. y \<le> x) (rev xs) @ x # front)"
        using parts small \<open>\<not> y \<le> x\<close> by (fastforce simp: sorted_append)
      moreover have "mset (takeWhile (\<lambda>y. y \<le> x) (rev xs) @ x # front) = mset zs'"
      proof -
        have "add_mset z (mset (takeWhile (\<lambda>y. y \<le> x) (rev xs) @ x # front)) = add_mset z (mset zs')"
          using next_permutation_mset [OF Cons.prems(1)] Cons.prems(2) by (simp add: ys zs True)
        then show ?thesis by (simp only: add_mset_add_mset_same_iff)
      qed
      ultimately show ?thesis
        using sorted_least by (simp add: ys zs True)
    next
      case False
      with \<open>y \<le> z\<close> show ?thesis by (simp add: ys zs)
    qed
  qed
qed simp

lemma finite_permutations: "finite {q. mset q = mset (p :: nat list)}"
proof (rule finite_subset)
  show "{q. mset q = mset p} \<subseteq> {q. set q \<subseteq> set p \<and> length q = length p}"
    by (auto dest: mset_eq_setD mset_eq_length)
qed (rule finite_lists_length_eq, simp)

lemma fewer_permutations:
  assumes "next_permutation perm = Some perm'"
  shows "card {q. mset q = mset perm' \<and> perm' < q} < card {q. mset q = mset perm \<and> perm < q}"
proof (rule psubset_card_mono)
  show "finite {q. mset q = mset perm \<and> perm < q}"
    using finite_permutations by (rule rev_finite_subset) auto
  have "mset perm' = mset perm" "perm < perm'"
    using assms by (simp_all add: next_permutation_mset next_permutation_greater)
  then show "{q. mset q = mset perm' \<and> perm' < q} \<subset> {q. mset q = mset perm \<and> perm < q}"
    by (auto intro: less_trans)
qed

function brute_force_loop :: "dist_table \<Rightarrow> nat \<Rightarrow> NodeID list \<Rightarrow> EdgeWeight \<Rightarrow> NodeID list \<Rightarrow> NodeID list option" where
  "brute_force_loop t component_size perm min_route_dist route =
     (case ReturnDistance t perm min_route_dist component_size of
        None \<Rightarrow> None
      | Some new_distance \<Rightarrow>
          (let (min_route_dist, route) = (if new_distance \<le> min_route_dist then (new_distance, perm) else (min_route_dist, route))
           in case next_permutation perm of
                None \<Rightarrow> Some route
              | Some perm' \<Rightarrow> brute_force_loop t component_size perm' min_route_dist route))"
  by pat_completeness auto
termination
  by (relation "measure (\<lambda>(_, _, perm, _, _). card {q. mset q = mset perm \<and> perm < q})") (auto intro: fewer_permutations)

declare brute_force_loop.simps [simp del]

definition BruteForceTrip :: "NodeID list \<Rightarrow> nat \<Rightarrow> dist_table \<Rightarrow> NodeID list option" where
  "BruteForceTrip component number_of_locations t = do {
     assert_opt (length component > 0);
     assert_opt (Max (set component) < number_of_locations);
     brute_force_loop t (length component) component INVALID_EDGE_WEIGHT [] }"

section \<open>Nearest neighbour\<close>

definition nearer :: "dist_table \<Rightarrow> bool list \<Rightarrow> NodeID \<Rightarrow> NodeID \<Rightarrow> EdgeWeight \<times> NodeID \<Rightarrow> (EdgeWeight \<times> NodeID) option" where
  "nearer t visited curr_node next_node best = do {
     curr_dist \<leftarrow> dist t curr_node next_node;
     assert_opt (curr_dist \<noteq> INVALID_EDGE_WEIGHT);
     v \<leftarrow> nth_opt visited next_node;
     Some (if \<not> v \<and> curr_dist < fst best then (curr_dist, next_node) else best) }"

definition visit_nearest :: "dist_table \<Rightarrow> NodeID list \<Rightarrow> NodeID \<times> NodeID list \<times> bool list \<times> EdgeWeight
    \<Rightarrow> (NodeID \<times> NodeID list \<times> bool list \<times> EdgeWeight) option" where
  "visit_nearest t component s = (case s of (curr_node, curr_route, visited, trip_dist) \<Rightarrow> do {
     (min_dist, min_id) \<leftarrow> foldM (nearer t visited curr_node) component (INVALID_EDGE_WEIGHT, SPECIAL_NODEID);
     assert_opt (min_id \<noteq> SPECIAL_NODEID);
     visited \<leftarrow> upd_opt visited min_id True;
     Some (min_id, curr_route @ [min_id], visited, trip_dist + min_dist) })"

definition trip_from :: "dist_table \<Rightarrow> nat \<Rightarrow> NodeID list \<Rightarrow> NodeID \<Rightarrow> NodeID list \<times> EdgeWeight \<Rightarrow> (NodeID list \<times> EdgeWeight) option" where
  "trip_from t number_of_locations component start_node best = do {
     visited \<leftarrow> upd_opt (replicate number_of_locations False) start_node True;
     (curr_node, curr_route, visited, trip_dist) \<leftarrow>
       foldM (\<lambda>via_point. visit_nearest t component) [1..<length component] (start_node, [start_node], visited, 0);
     Some (if trip_dist < snd best then (curr_route, trip_dist) else best) }"

definition NearestNeighbourTrip :: "NodeID list \<Rightarrow> nat \<Rightarrow> dist_table \<Rightarrow> NodeID list option" where
  "NearestNeighbourTrip component number_of_locations t =
     map_option fst (foldM (trip_from t number_of_locations component) component ([], INVALID_EDGE_WEIGHT))"

section \<open>Farthest insertion\<close>

definition better_insertion :: "NodeID \<Rightarrow> dist_table \<Rightarrow> NodeID list \<Rightarrow> nat \<Rightarrow> EdgeWeight \<times> nat \<Rightarrow> (EdgeWeight \<times> nat) option" where
  "better_insertion new_loc t route from_pos best = do {
     (let to_pos = (if from_pos + 1 = length route then 0 else from_pos + 1)
      in do {
        from_node \<leftarrow> nth_opt route from_pos;
        to_node \<leftarrow> nth_opt route to_pos;
        dist_from \<leftarrow> dist t from_node new_loc;
        dist_to \<leftarrow> dist t new_loc to_node;
        old \<leftarrow> dist t from_node to_node;
        (let trip_dist = dist_from + dist_to - old
         in do {
           assert_opt (dist_from \<noteq> INVALID_EDGE_WEIGHT);
           assert_opt (dist_to \<noteq> INVALID_EDGE_WEIGHT);
           assert_opt (trip_dist \<ge> 0);
           Some (if trip_dist < fst best then (trip_dist, to_pos) else best) }) }) }"

definition GetShortestRoundTrip :: "NodeID \<Rightarrow> dist_table \<Rightarrow> NodeID list \<Rightarrow> (EdgeWeight \<times> nat) option" where
  "GetShortestRoundTrip new_loc t route = do {
     best \<leftarrow> foldM (better_insertion new_loc t route) [0..<length route] (INVALID_EDGE_WEIGHT, 0);
     assert_opt (fst best \<noteq> INVALID_EDGE_WEIGHT);
     Some best }"

definition farther :: "dist_table \<Rightarrow> NodeID list \<Rightarrow> bool list \<Rightarrow> NodeID \<Rightarrow> EdgeWeight \<times> (NodeID \<times> nat) option
    \<Rightarrow> (EdgeWeight \<times> (NodeID \<times> nat) option) option" where
  "farther t route visited i s = do {
     v \<leftarrow> nth_opt visited i;
     (if \<not> v then do {
        insert_candidate \<leftarrow> GetShortestRoundTrip i t route;
        assert_opt (fst insert_candidate \<noteq> INVALID_EDGE_WEIGHT);
        Some (if fst insert_candidate \<ge> fst s then (fst insert_candidate, Some (i, snd insert_candidate)) else s) }
      else Some s) }"

definition insert_farthest :: "dist_table \<Rightarrow> NodeID list \<Rightarrow> NodeID list \<times> bool list \<Rightarrow> (NodeID list \<times> bool list) option" where
  "insert_farthest t component s = (case s of (route, visited) \<Rightarrow> do {
     (farthest_distance, chosen) \<leftarrow> foldM (farther t route visited) component (0, None);
     (next_node, next_insert_point) \<leftarrow> chosen;
     visited \<leftarrow> upd_opt visited next_node True;
     Some (take next_insert_point route @ next_node # drop next_insert_point route, visited) })"

definition FindRoute :: "nat \<Rightarrow> nat \<Rightarrow> NodeID list \<Rightarrow> dist_table \<Rightarrow> NodeID \<Rightarrow> NodeID \<Rightarrow> NodeID list option" where
  "FindRoute number_of_locations component_size component t start1 start2 = do {
     assert_opt (number_of_locations \<ge> component_size);
     visited \<leftarrow> upd_opt (replicate number_of_locations False) start1 True;
     visited \<leftarrow> upd_opt visited start2 True;
     (route, visited) \<leftarrow> foldM (\<lambda>j. insert_farthest t component) [2..<component_size] ([start1, start2], visited);
     Some route }"

definition farther_pair :: "dist_table \<Rightarrow> NodeID \<Rightarrow> NodeID \<Rightarrow> EdgeWeight \<times> (NodeID \<times> NodeID) option
    \<Rightarrow> (EdgeWeight \<times> (NodeID \<times> NodeID) option) option" where
  "farther_pair t x y s = do {
     xy_dist \<leftarrow> dist t x y;
     Some (if xy_dist > fst s then (xy_dist, Some (x, y)) else s) }"

definition farthest_pair :: "NodeID list \<Rightarrow> nat \<Rightarrow> dist_table \<Rightarrow> (NodeID \<times> NodeID) option" where
  "farthest_pair component number_of_locations t =
     (if length component = number_of_locations
      then Some (GetIndexOfMaxValue t div number_of_locations, GetIndexOfMaxValue t mod number_of_locations)
      else foldM (\<lambda>x. foldM (farther_pair t x) component) component (0, None) \<bind> snd)"

definition FarthestInsertionTrip :: "NodeID list \<Rightarrow> nat \<Rightarrow> dist_table \<Rightarrow> NodeID list option" where
  "FarthestInsertionTrip component number_of_locations t = do {
     (max_from, max_to) \<leftarrow> farthest_pair component number_of_locations t;
     assert_opt (max_from < number_of_locations);
     assert_opt (max_to < number_of_locations);
     FindRoute number_of_locations (length component) component t max_from max_to }"

section \<open>Lengths of round trips\<close>

definition weight :: "dist_table \<Rightarrow> NodeID \<Rightarrow> NodeID \<Rightarrow> EdgeWeight" where
  "weight t a b = dt_table t ! (a * dt_number_of_nodes t + b)"

text \<open>The length of the first \<open>k\<close> legs of the round trip that visits \<open>p\<close> in order.\<close>

definition legs :: "dist_table \<Rightarrow> NodeID list \<Rightarrow> nat \<Rightarrow> EdgeWeight" where
  "legs t p k = (\<Sum>i<k. weight t (p ! i) (p ! ((i + 1) mod length p)))"

abbreviation round_trip :: "dist_table \<Rightarrow> NodeID list \<Rightarrow> EdgeWeight" where
  "round_trip t p \<equiv> legs t p (length p)"

definition table_ok :: "dist_table \<Rightarrow> NodeID set \<Rightarrow> bool" where
  "table_ok t C \<longleftrightarrow> dt_number_of_nodes t * dt_number_of_nodes t \<le> length (dt_table t)
     \<and> (\<forall>a \<in> C. a < dt_number_of_nodes t)
     \<and> (\<forall>a \<in> C. \<forall>b \<in> C. 0 \<le> weight t a b \<and> weight t a b < INVALID_EDGE_WEIGHT)"

lemma dist_in:
  assumes "table_ok t C" and "a \<in> C" and "b \<in> C"
  shows "dist t a b = Some (weight t a b)" and "0 \<le> weight t a b" and "weight t a b < INVALID_EDGE_WEIGHT"
proof -
  let ?n = "dt_number_of_nodes t"
  have ab: "a < ?n" "b < ?n" and len: "?n * ?n \<le> length (dt_table t)"
    using assms by (auto simp: table_ok_def)
  have "a * ?n + b < Suc a * ?n"
    using ab(2) by simp
  also have "\<dots> \<le> ?n * ?n"
    using ab(1) by (intro mult_le_mono1) simp
  finally have "a * ?n + b < length (dt_table t)"
    using len by simp
  then show "dist t a b = Some (weight t a b)"
    using ab by (simp add: dist_def weight_def)
  show "0 \<le> weight t a b" "weight t a b < INVALID_EDGE_WEIGHT"
    using assms by (simp_all add: table_ok_def)
qed

lemma legs_Suc: "legs t p (Suc k) = legs t p k + weight t (p ! k) (p ! ((k + 1) mod length p))"
  by (simp add: legs_def)

lemma leg_nonneg:
  assumes "table_ok t (set p)" and "k < length p"
  shows "0 \<le> weight t (p ! k) (p ! ((k + 1) mod length p))"
proof -
  have "(k + 1) mod length p < length p"
    using assms(2) by (intro mod_less_divisor) auto
  with assms(2) show ?thesis by (intro dist_in(2) [OF assms(1)]) simp_all
qed

lemma legs_mono:
  assumes "table_ok t (set p)" and "j \<le> k" and "k \<le> length p"
  shows "legs t p j \<le> legs t p k"
  using assms(2,3)
proof (induction k rule: dec_induct)
  case (step k)
  then show ?case
    using leg_nonneg [OF assms(1), of k] by (simp add: legs_Suc)
qed simp

lemma return_distance_loop_law:
  assumes "table_ok t (set p)" and "i \<le> length p" and "\<forall>j < i. legs t p j < m"
  shows "\<exists>k \<le> length p. return_distance_loop t p m (length p) i (legs t p i) = Some (legs t p k)
    \<and> (k = length p \<or> m \<le> legs t p k) \<and> (\<forall>j < k. legs t p j < m)"
  using assms(2,3)
proof (induction "length p - i" arbitrary: i)
  case 0
  then show ?case by (subst return_distance_loop.simps) auto
next
  case (Suc n)
  show ?case
  proof (cases "legs t p i < m")
    case False
    with Suc.prems show ?thesis by (subst return_distance_loop.simps) auto
  next
    case True
    have i: "i < length p" "n = length p - Suc i"
      using Suc.hyps(2) by simp_all
    then have "(i + 1) mod length p < length p"
      by (intro mod_less_divisor) auto
    moreover have "\<forall>j < Suc i. legs t p j < m"
      using Suc.prems(2) True by (simp add: less_Suc_eq)
    ultimately show ?thesis
      using Suc.hyps(1) [OF i(2)] i True dist_in [OF assms(1), of "p ! i" "p ! ((i + 1) mod length p)"]
      by (subst return_distance_loop.simps) (simp add: legs_Suc)
  qed
qed

lemma ReturnDistance_law:
  assumes "table_ok t (set p)"
  obtains k where "k \<le> length p" and "ReturnDistance t p m (length p) = Some (legs t p k)"
    and "k = length p \<or> m \<le> legs t p k" and "\<forall>j < k. legs t p j < m"
proof -
  have "legs t p 0 = 0" by (simp add: legs_def)
  with return_distance_loop_law [OF assms, of 0 m] that show ?thesis
    by (auto simp: ReturnDistance_def)
qed

lemma brute_force_loop_law:
  assumes "table_ok t (set perm)" and "component_size = length perm"
    and "\<forall>q. mset q = mset perm \<longrightarrow> round_trip t q < INVALID_EDGE_WEIGHT"
    and "m = INVALID_EDGE_WEIGHT \<or> mset route = mset perm \<and> (\<exists>k \<le> length route. legs t route k = m)"
  shows "\<exists>r k. brute_force_loop t component_size perm m route = Some r \<and> mset r = mset perm \<and> k \<le> length r
    \<and> legs t r k \<le> m \<and> (\<forall>q. mset q = mset perm \<and> perm \<le> q \<longrightarrow> legs t r k \<le> round_trip t q)
    \<and> (legs t r k = m \<or> (\<exists>q. mset q = mset perm \<and> legs t r k = round_trip t q))"
  using assms
proof (induction t component_size perm m route rule: brute_force_loop.induct)
  case (1 t component_size perm m route)
  note prems = "1.prems"
  obtain d where d: "d \<le> length perm" "ReturnDistance t perm m component_size = Some (legs t perm d)"
    "d = length perm \<or> m \<le> legs t perm d" "\<forall>j < d. legs t perm j < m"
    using ReturnDistance_law [OF prems(1)] prems(2) by metis
  define m' route' where "m' = (if legs t perm d \<le> m then legs t perm d else m)"
    and "route' = (if legs t perm d \<le> m then perm else route)"
  have below: "legs t perm d \<le> round_trip t perm"
    using legs_mono [OF prems(1) d(1)] by simp
  have m': "m' \<le> m" "m' \<le> round_trip t perm"
    using d(3) below by (auto simp: m'_def)
  have attained: "mset route' = mset perm \<and> (\<exists>k \<le> length route'. legs t route' k = m')"
  proof (cases "legs t perm d \<le> m")
    case True
    with d(1) show ?thesis by (auto simp: m'_def route'_def)
  next
    case False
    then have "m < INVALID_EDGE_WEIGHT"
      using below prems(3) by (metis less_trans not_le order_le_less_trans)
    with False prems(4) show ?thesis by (auto simp: m'_def route'_def)
  qed
  have origin: "m' = m \<or> m' = round_trip t perm"
    using d(3) by (auto simp: m'_def)
  have unfold: "brute_force_loop t component_size perm m route
      = (case next_permutation perm of None \<Rightarrow> Some route' | Some perm' \<Rightarrow> brute_force_loop t component_size perm' m' route')"
    using d(2) unfolding m'_def route'_def by (subst brute_force_loop.simps) (simp split: option.split)
  show ?case
  proof (cases "next_permutation perm")
    case None
    have "q = perm" if "mset q = mset perm" "perm \<le> q" for q
      using unsorted_greatest [OF next_permutation_None [OF None], of q] that by simp
    then show ?thesis
      using None unfold attained m' origin by auto
  next
    case (Some perm')
    have p': "mset perm' = mset perm"
      using Some by (rule next_permutation_mset)
    then have set: "set perm' = set perm" and len: "length perm' = length perm"
      by (auto dest: mset_eq_setD mset_eq_length)
    have "\<exists>r k. brute_force_loop t component_size perm' m' route' = Some r \<and> mset r = mset perm' \<and> k \<le> length r
      \<and> legs t r k \<le> m' \<and> (\<forall>q. mset q = mset perm' \<and> perm' \<le> q \<longrightarrow> legs t r k \<le> round_trip t q)
      \<and> (legs t r k = m' \<or> (\<exists>q. mset q = mset perm' \<and> legs t r k = round_trip t q))"
      by (rule "1.IH" [OF d(2) _ _ Some]) (use prems attained in \<open>simp_all add: p' set len m'_def route'_def\<close>)
    then obtain r k where r: "brute_force_loop t component_size perm' m' route' = Some r" "mset r = mset perm" "k \<le> length r"
      "legs t r k \<le> m'" "\<forall>q. mset q = mset perm \<and> perm' \<le> q \<longrightarrow> legs t r k \<le> round_trip t q"
      "legs t r k = m' \<or> (\<exists>q. mset q = mset perm \<and> legs t r k = round_trip t q)"
      unfolding p' by blast
    have "legs t r k \<le> round_trip t q" if "mset q = mset perm" "perm \<le> q" for q
    proof (cases "q = perm")
      case True
      with r(4) m'(2) show ?thesis by simp
    next
      case False
      with that have "perm' \<le> q"
        using next_permutation_least [OF Some] by simp
      with r(5) that show ?thesis by blast
    qed
    then show ?thesis
      using Some unfold r m'(1) origin by (intro exI [of _ r] exI [of _ k]) auto
  qed
qed

section \<open>Farthest insertion visits every location once\<close>

text \<open>
  The distances of shortest paths: no detour is shorter than the direct way, and no detour over
  one location reaches the invalid weight.
\<close>

definition metric :: "dist_table \<Rightarrow> NodeID set \<Rightarrow> bool" where
  "metric t C \<longleftrightarrow> table_ok t C \<and> (\<forall>a \<in> C. weight t a a = 0)
     \<and> (\<forall>a \<in> C. \<forall>b \<in> C. \<forall>c \<in> C. weight t a c \<le> weight t a b + weight t b c)
     \<and> (\<forall>a \<in> C. \<forall>b \<in> C. \<forall>c \<in> C. weight t a b + weight t b c < INVALID_EDGE_WEIGHT)"

lemma better_insertion_law:
  assumes "metric t C" and "new_loc \<in> C" and "set route \<subseteq> C" and "from_pos < length route"
  shows "\<exists>d pos. better_insertion new_loc t route from_pos best = Some (if d < fst best then (d, pos) else best)
    \<and> 0 \<le> d \<and> d < INVALID_EDGE_WEIGHT \<and> pos < length route"
proof -
  let ?to = "if from_pos + 1 = length route then 0 else from_pos + 1"
  have to: "?to < length route"
    using assms(4) by auto
  then have C: "route ! from_pos \<in> C" "route ! ?to \<in> C"
    using assms(3,4) nth_mem by blast+
  have ok: "table_ok t C"
    using assms(1) by (simp add: metric_def)
  have "weight t (route ! from_pos) (route ! ?to) \<le> weight t (route ! from_pos) new_loc + weight t new_loc (route ! ?to)"
    "weight t (route ! from_pos) new_loc + weight t new_loc (route ! ?to) < INVALID_EDGE_WEIGHT"
    using assms(1,2) C unfolding metric_def by blast+
  then show ?thesis
    using dist_in [OF ok C(1) assms(2)] dist_in [OF ok assms(2) C(2)] dist_in [OF ok C(1) C(2)] assms(4) to
    unfolding better_insertion_def Let_def
    by (intro exI [of _ "weight t (route ! from_pos) new_loc + weight t new_loc (route ! ?to) - weight t (route ! from_pos) (route ! ?to)"]
        exI [of _ ?to]) (simp del: One_nat_def)
qed

lemma GetShortestRoundTrip_law:
  assumes "metric t C" and "new_loc \<in> C" and "set route \<subseteq> C" and "route \<noteq> []"
  shows "\<exists>d pos. GetShortestRoundTrip new_loc t route = Some (d, pos) \<and> 0 \<le> d \<and> d < INVALID_EDGE_WEIGHT \<and> pos < length route"
proof -
  have "\<exists>s'. foldM (better_insertion new_loc t route) [0..<length route] (INVALID_EDGE_WEIGHT, 0) = Some s'
    \<and> (0 \<le> fst s' \<and> snd s' < length route \<and> (0 < length route \<longrightarrow> fst s' < INVALID_EDGE_WEIGHT))"
  proof (rule foldM_upt_invariant [where I = "\<lambda>i s. 0 \<le> fst s \<and> snd s < length route \<and> (0 < i \<longrightarrow> fst s < INVALID_EDGE_WEIGHT)"])
    fix i s
    assume i: "i < length route" and I: "0 \<le> fst s \<and> snd s < length route \<and> (0 < i \<longrightarrow> fst s < INVALID_EDGE_WEIGHT)"
    from better_insertion_law [OF assms(1-3) i, of s]
    show "\<exists>s'. better_insertion new_loc t route i s = Some s'
      \<and> 0 \<le> fst s' \<and> snd s' < length route \<and> (0 < Suc i \<longrightarrow> fst s' < INVALID_EDGE_WEIGHT)"
      using I by fastforce
  qed (use assms(4) in \<open>auto simp: limits_defs\<close>)
  with assms(4) show ?thesis
    by (auto simp: GetShortestRoundTrip_def)
qed

definition trip_inv :: "NodeID list \<Rightarrow> nat \<Rightarrow> NodeID list \<times> bool list \<Rightarrow> bool" where
  "trip_inv component n s \<longleftrightarrow> distinct (fst s) \<and> set (fst s) \<subseteq> set component \<and> fst s \<noteq> []
     \<and> length (snd s) = n \<and> (\<forall>x < n. snd s ! x \<longleftrightarrow> x \<in> set (fst s))"

definition farther_inv :: "NodeID list \<Rightarrow> NodeID list \<Rightarrow> bool list \<Rightarrow> NodeID list \<Rightarrow> EdgeWeight \<times> (NodeID \<times> nat) option \<Rightarrow> bool" where
  "farther_inv component route visited done s \<longleftrightarrow> 0 \<le> fst s \<and> (case snd s of
       None \<Rightarrow> fst s = 0 \<and> (\<forall>x \<in> set done. visited ! x)
     | Some (x, pos) \<Rightarrow> x \<in> set component \<and> \<not> visited ! x \<and> pos < length route)"

lemma farther_law:
  assumes "metric t (set component)" and "set route \<subseteq> set component" and "route \<noteq> []"
    and "i \<in> set component" and "i < length visited" and "farther_inv component route visited done s"
  shows "\<exists>s'. farther t route visited i s = Some s' \<and> farther_inv component route visited (done @ [i]) s'"
proof -
  obtain d pos where d: "GetShortestRoundTrip i t route = Some (d, pos)" "0 \<le> d" "d < INVALID_EDGE_WEIGHT" "pos < length route"
    using GetShortestRoundTrip_law [OF assms(1,4,2,3)] by blast
  show ?thesis
    using d assms(4-6) by (cases "visited ! i"; cases "snd s") (auto simp: farther_def farther_inv_def)
qed

lemma insert_farthest_law:
  assumes "metric t (set component)" and "trip_inv component n s" and "\<forall>x \<in> set component. x < n"
    and "x \<in> set component" and "x \<notin> set (fst s)"
  shows "\<exists>s'. insert_farthest t component s = Some s' \<and> trip_inv component n s' \<and> length (fst s') = Suc (length (fst s))"
proof -
  obtain route visited where s: "s = (route, visited)" by (cases s)
  have inv: "distinct route" "set route \<subseteq> set component" "route \<noteq> []" "length visited = n"
    "\<And>x. x < n \<Longrightarrow> visited ! x \<longleftrightarrow> x \<in> set route"
    using assms(2) by (simp_all add: trip_inv_def s)
  have "\<exists>s'. foldM (farther t route visited) component (0, None) = Some s' \<and> farther_inv component route visited component s'"
  proof (rule foldM_invariant [where I = "farther_inv component route visited"])
    fix i "done" todo s
    assume "component = done @ i # todo" and I: "farther_inv component route visited done s"
    then have "i \<in> set component" "i < length visited"
      using assms(3) inv(4) by simp_all
    then show "\<exists>s'. farther t route visited i s = Some s' \<and> farther_inv component route visited (done @ [i]) s'"
      using farther_law [OF assms(1) inv(2,3) _ _ I] by blast
  qed (simp add: farther_inv_def)
  then obtain d chosen where d: "foldM (farther t route visited) component (0, None) = Some (d, chosen)"
    and I: "farther_inv component route visited component (d, chosen)" by auto
  have "\<not> visited ! x"
    using assms(3-5) inv(5) by (simp add: s)
  then obtain y pos where y: "chosen = Some (y, pos)" "y \<in> set component" "\<not> visited ! y" "pos < length route"
    using I assms(4) by (auto simp: farther_inv_def split: option.splits)
  have "y < n" "y \<notin> set route"
    using y(2,3) assms(3) inv(5) by auto
  then have "insert_farthest t component s = Some (take pos route @ y # drop pos route, visited[y := True])"
    using d y inv(4) by (simp add: insert_farthest_def s)
  moreover have "set (take pos route @ y # drop pos route) = insert y (set route)"
    by (metis Un_insert_right append_take_drop_id list.simps(15) set_append)
  moreover have "distinct (take pos route @ y # drop pos route)"
    using \<open>y \<notin> set route\<close> inv(1)
    by (simp add: set_take_disj_set_drop_if_distinct) (meson in_set_dropD in_set_takeD)
  ultimately show ?thesis
    using inv y(2) \<open>y < n\<close> by (auto simp: trip_inv_def s nth_list_update)
qed

lemma FindRoute_law:
  assumes "metric t (set component)" and "distinct component" and "\<forall>x \<in> set component. x < n" and "length component \<le> n"
    and "a \<in> set component" and "b \<in> set component" and "a \<noteq> b"
  shows "\<exists>route. FindRoute n (length component) component t a b = Some route \<and> distinct route \<and> set route = set component"
proof -
  let ?visited = "(replicate n False)[a := True, b := True]"
  have ab: "a < n" "b < n"
    using assms(3,5,6) by simp_all
  have two: "2 \<le> length component"
    using assms(5-7) by (cases component; cases "tl component") auto
  have "\<exists>s'. foldM (\<lambda>j. insert_farthest t component) [2..<length component] ([a, b], ?visited) = Some s'
    \<and> (trip_inv component n s' \<and> length (fst s') = length component)"
  proof (rule foldM_upt_invariant [where I = "\<lambda>j s. trip_inv component n s \<and> length (fst s) = j"])
    show "trip_inv component n ([a, b], ?visited) \<and> length (fst ([a, b], ?visited)) = 2"
      using assms(5-7) ab by (auto simp: trip_inv_def nth_list_update)
  next
    fix j s
    assume j: "j < length component" and I: "trip_inv component n s \<and> length (fst s) = j"
    then have "card (set (fst s)) < card (set component)"
      using assms(2) by (simp add: distinct_card trip_inv_def)
    then obtain x where "x \<in> set component" "x \<notin> set (fst s)"
      by (meson card_mono finite_set leD subsetI)
    then show "\<exists>s'. insert_farthest t component s = Some s' \<and> trip_inv component n s' \<and> length (fst s') = Suc j"
      using insert_farthest_law [OF assms(1) _ assms(3)] I by blast
  qed (rule two)
  then obtain route visited where r: "foldM (\<lambda>j. insert_farthest t component) [2..<length component] ([a, b], ?visited) = Some (route, visited)"
    "trip_inv component n (route, visited)" "length route = length component" by auto
  then have "distinct route" "set route \<subseteq> set component"
    by (simp_all add: trip_inv_def)
  moreover from this have "set route = set component"
    using r(3) assms(2) by (intro card_subset_eq) (simp_all add: distinct_card)
  ultimately show ?thesis
    using r(1) ab assms(4) by (simp add: FindRoute_def)
qed

lemma max_element_from_law:
  assumes "ys = pre @ xs" and "i = length pre" and "best < length pre" and "ys ! best = m" and "\<forall>x \<in> set pre. x \<le> m"
  shows "max_element_from xs i best m < length ys \<and> (\<forall>x \<in> set ys. x \<le> ys ! max_element_from xs i best m)"
  using assms
proof (induction xs arbitrary: pre i best m)
  case Nil
  then show ?case by simp
next
  case (Cons x xs)
  show ?case
  proof (cases "m < x")
    case True
    with Cons.prems show ?thesis
      using Cons.IH [of "pre @ [x]" "i + 1" i x] by (fastforce simp: nth_append)
  next
    case False
    with Cons.prems show ?thesis
      using Cons.IH [of "pre @ [x]" "i + 1" best m] by simp
  qed
qed

lemma GetIndexOfMaxValue_law:
  assumes "dt_table t \<noteq> []"
  shows "GetIndexOfMaxValue t < length (dt_table t) \<and> (\<forall>x \<in> set (dt_table t). x \<le> dt_table t ! GetIndexOfMaxValue t)"
proof -
  obtain x xs where "dt_table t = x # xs"
    using assms by (cases "dt_table t") auto
  with max_element_from_law [of "x # xs" "[x]" xs 1 0 x] show ?thesis
    by (simp add: GetIndexOfMaxValue_def)
qed

definition pair_inv :: "dist_table \<Rightarrow> NodeID set \<Rightarrow> (NodeID \<times> NodeID) set \<Rightarrow> EdgeWeight \<times> (NodeID \<times> NodeID) option \<Rightarrow> bool" where
  "pair_inv t C done s \<longleftrightarrow> (\<forall>(x, y) \<in> done. weight t x y \<le> fst s) \<and> (case snd s of
       None \<Rightarrow> fst s = 0
     | Some (x, y) \<Rightarrow> x \<in> C \<and> y \<in> C \<and> weight t x y = fst s \<and> 0 < fst s)"

lemma farther_pair_law:
  assumes "table_ok t C" and "x \<in> C" and "y \<in> C" and "pair_inv t C done s"
  shows "\<exists>s'. farther_pair t x y s = Some s' \<and> pair_inv t C (insert (x, y) done) s'"
  using assms dist_in [OF assms(1-3)]
  by (auto simp: farther_pair_def pair_inv_def split: option.splits prod.splits)

lemma farthest_pair_search:
  assumes "table_ok t (set component)"
  shows "\<exists>s. foldM (\<lambda>x. foldM (farther_pair t x) component) component (0, None) = Some s
    \<and> pair_inv t (set component) (set component \<times> set component) s"
proof (rule foldM_invariant [where I = "\<lambda>done s. pair_inv t (set component) (set done \<times> set component) s"])
  fix x "done" todo s
  assume comp: "component = done @ x # todo" and I: "pair_inv t (set component) (set done \<times> set component) s"
  have "\<exists>s'. foldM (farther_pair t x) component s = Some s'
    \<and> pair_inv t (set component) (set done \<times> set component \<union> {x} \<times> set component) s'"
  proof (rule foldM_invariant [where I = "\<lambda>ys s. pair_inv t (set component) (set done \<times> set component \<union> {x} \<times> set ys) s"])
    fix y ys todo' s
    assume "component = ys @ y # todo'" and J: "pair_inv t (set component) (set done \<times> set component \<union> {x} \<times> set ys) s"
    then have "y \<in> set component" by simp
    have "x \<in> set component"
      unfolding comp by simp
    from farther_pair_law [OF assms \<open>x \<in> set component\<close> \<open>y \<in> set component\<close> J]
    show "\<exists>s'. farther_pair t x y s = Some s'
      \<and> pair_inv t (set component) (set done \<times> set component \<union> {x} \<times> set (ys @ [y])) s'"
      by simp
  qed (use I in simp)
  moreover have "set done \<times> set component \<union> {x} \<times> set component = set (done @ [x]) \<times> set component"
    by auto
  ultimately show "\<exists>s'. foldM (farther_pair t x) component s = Some s'
    \<and> pair_inv t (set component) (set (done @ [x]) \<times> set component) s'" by simp
qed (simp add: pair_inv_def)

lemma farthest_pair_law:
  assumes "metric t (set component)" and "distinct component" and "length (dt_table t) = n * n" and "dt_number_of_nodes t = n"
    and "a \<in> set component" and "b \<in> set component" and "0 < weight t a b"
  shows "\<exists>x y. farthest_pair component n t = Some (x, y) \<and> x \<in> set component \<and> y \<in> set component \<and> x \<noteq> y"
proof (cases "length component = n")
  case True
  have ok: "table_ok t (set component)" and self: "\<forall>a \<in> set component. weight t a a = 0"
    using assms(1) by (simp_all add: metric_def)
  have sub: "set component \<subseteq> {..<n}"
    using ok assms(4) by (auto simp: table_ok_def)
  then have comp: "set component = {..<n}"
    using assms(2) True by (intro card_subset_eq) (simp_all add: distinct_card)
  have n: "0 < n" using assms(5) True by (cases component) auto
  let ?i = "GetIndexOfMaxValue t"
  have i: "?i < n * n" "\<forall>x \<in> set (dt_table t). x \<le> dt_table t ! ?i"
    using GetIndexOfMaxValue_law [of t] assms(3) n by (cases "dt_table t = []"; simp)+
  have xy: "?i div n < n" "?i mod n < n"
    using i(1) n by (simp_all add: less_mult_imp_div_less)
  have "a * n + b < n * n"
  proof -
    have "a < n" "b < n" using assms(5,6) comp by auto
    then have "a * n + b < Suc a * n" by simp
    also have "\<dots> \<le> n * n" using \<open>a < n\<close> by (intro mult_le_mono1) simp
    finally show ?thesis .
  qed
  then have "weight t a b \<in> set (dt_table t)"
    using assms(3,4) by (simp add: weight_def)
  then have "0 < weight t (?i div n) (?i mod n)"
    using i(2) assms(4,7) by (auto simp: weight_def)
  then have "?i div n \<noteq> ?i mod n"
    using self xy comp by (metis lessThan_iff less_irrefl)
  then show ?thesis
    using xy comp True by (simp add: farthest_pair_def)
next
  case False
  have ok: "table_ok t (set component)" and self: "\<forall>a \<in> set component. weight t a a = 0"
    using assms(1) by (simp_all add: metric_def)
  obtain s where s: "foldM (\<lambda>x. foldM (farther_pair t x) component) component (0, None) = Some s"
    "pair_inv t (set component) (set component \<times> set component) s"
    using farthest_pair_search [OF ok] by blast
  then have "weight t a b \<le> fst s"
    using assms(5,6) by (auto simp: pair_inv_def)
  then obtain x y where "snd s = Some (x, y)" "x \<in> set component" "y \<in> set component" "0 < weight t x y"
    using s(2) assms(7) by (auto simp: pair_inv_def split: option.splits)
  moreover from this have "x \<noteq> y"
    using self by auto
  ultimately show ?thesis
    using False s(1) by (simp add: farthest_pair_def)
qed

section \<open>Properties\<close>

text \<open>
  C27: the brute-force search over the locations of a component in ascending order returns one
  of their permutations, and it does find the length of a shortest round trip: some number of
  legs at the start of the returned permutation has the length of a round trip that no
  permutation undercuts. (Whether that number is all of the legs is the subject of the next
  property.)
\<close>
theorem BruteForceTrip_shortest:
  assumes "table_ok t (set component)" and "sorted component" and "component \<noteq> []"
    and "\<forall>x \<in> set component. x < number_of_locations"
    and "\<forall>q. mset q = mset component \<longrightarrow> round_trip t q < INVALID_EDGE_WEIGHT"
  shows "\<exists>route k. BruteForceTrip component number_of_locations t = Some route \<and> mset route = mset component
    \<and> k \<le> length route \<and> (\<forall>q. mset q = mset component \<longrightarrow> legs t route k \<le> round_trip t q)
    \<and> (\<exists>q. mset q = mset component \<and> legs t route k = round_trip t q)"
proof -
  have "Max (set component) < number_of_locations"
    using assms(3,4) by simp
  then have "BruteForceTrip component number_of_locations t
      = brute_force_loop t (length component) component INVALID_EDGE_WEIGHT []"
    using assms(3) by (simp add: BruteForceTrip_def)
  moreover obtain r k where r: "brute_force_loop t (length component) component INVALID_EDGE_WEIGHT [] = Some r"
    "mset r = mset component" "k \<le> length r"
    "\<forall>q. mset q = mset component \<and> component \<le> q \<longrightarrow> legs t r k \<le> round_trip t q"
    "legs t r k = INVALID_EDGE_WEIGHT \<or> (\<exists>q. mset q = mset component \<and> legs t r k = round_trip t q)"
    using brute_force_loop_law [OF assms(1) refl assms(5), of INVALID_EDGE_WEIGHT "[]"] by blast
  moreover have "legs t r k \<le> round_trip t q" if "mset q = mset component" for q
    using r(4) sorted_least [OF assms(2)] that by auto
  moreover from this [of component] have "legs t r k \<noteq> INVALID_EDGE_WEIGHT"
    using assms(5) by fastforce
  ultimately show ?thesis by auto
qed

definition detour_table :: dist_table where
  "detour_table = \<lparr>dt_table = [0, 4, 5, 5, 0, 3, 3, 5, 0], dt_number_of_nodes = 3\<rparr>"

theorem BruteForceTrip_shortest_witness:
  "\<exists>route k. BruteForceTrip [1] 3 detour_table = Some route \<and> mset route = mset [1]
    \<and> k \<le> length route \<and> (\<forall>q. mset q = mset [1] \<longrightarrow> legs detour_table route k \<le> round_trip detour_table q)
    \<and> (\<exists>q. mset q = mset [1] \<and> legs detour_table route k = round_trip detour_table q)"
proof (rule BruteForceTrip_shortest)
  have "q = [1]" if "mset q = mset [1 :: nat]" for q
    using that by (cases q) auto
  then show "\<forall>q. mset q = mset [1] \<longrightarrow> round_trip detour_table q < INVALID_EDGE_WEIGHT"
    by (auto simp: legs_def weight_def detour_table_def limits_defs)
qed (auto simp: table_ok_def weight_def detour_table_def limits_defs)


text \<open>
  C29: on the distances of shortest paths between distinct locations, at least two of which are
  a positive distance apart, the farthest-insertion heuristic fails none of its assertions and
  returns a round trip that visits every location of the component exactly once, whether the
  component is the whole table or a part of it.
\<close>
theorem FarthestInsertionTrip_visits_all:
  assumes "metric t (set component)" and "distinct component"
    and "length (dt_table t) = n * n" and "dt_number_of_nodes t = n"
    and "a \<in> set component" and "b \<in> set component" and "0 < weight t a b"
  shows "\<exists>route. FarthestInsertionTrip component n t = Some route \<and> distinct route \<and> set route = set component"
proof -
  obtain x y where xy: "farthest_pair component n t = Some (x, y)" "x \<in> set component" "y \<in> set component" "x \<noteq> y"
    using farthest_pair_law [OF assms] by blast
  have n: "\<forall>x \<in> set component. x < n"
    using assms(1,4) by (auto simp: metric_def table_ok_def)
  then have "length component \<le> n"
    using assms(2) card_mono [of "{..<n}" "set component"] by (auto simp: distinct_card)
  then show ?thesis
    using xy n FindRoute_law [OF assms(1,2) n _ xy(2-4)] by (simp add: FarthestInsertionTrip_def)
qed

theorem FarthestInsertionTrip_visits_all_witness:
  "\<exists>route. FarthestInsertionTrip [0, 1, 2] 3 detour_table = Some route \<and> distinct route \<and> set route = set [0, 1, 2]"
  by (rule FarthestInsertionTrip_visits_all [of _ _ _ 0 1])
    (simp_all add: metric_def table_ok_def weight_def detour_table_def limits_defs)

end
