(* ===== verification/Tarjan_Scc.thy ===== *)
theory Tarjan_Scc
  imports Osrm_Prelude "HOL-Library.Sublist"
begin

text \<open>
  The decomposition of a graph into components of \<^verbatim>\<open>algorithms/tarjan_scc.hpp\<close>, which
  keeps its own recursion stack. The graph type of the template is an argument: \<open>adj v\<close> lists
  the targets of the adjacent edges of \<open>v\<close> in the order of \<^verbatim>\<open>GetAdjacentEdgeRange\<close>. Stacks are
  lists with the top first. The loop over the recursion stack is a partial function, so that
  its end is a theorem.
\<close>

section \<open>The algorithm\<close>

record tarjan_node =
  tn_index :: nat
  tn_low_link :: nat
  tn_on_stack :: bool

definition TarjanNode :: tarjan_node where
  "TarjanNode = \<lparr>tn_index = SPECIAL_NODEID, tn_low_link = SPECIAL_NODEID, tn_on_stack = False\<rparr>"

text \<open>A frame is the node and the node from which it was reached.\<close>

record tarjan =
  ts_components_index :: "nat list"
  ts_component_size_vector :: "nat list"
  ts_recursion_stack :: "(NodeID \<times> NodeID) list"
  ts_tarjan_stack :: "NodeID list"
  ts_node_list :: "tarjan_node list"
  ts_component_index :: nat
  ts_index :: nat
  ts_before_recursion :: "bool list"

definition visit_target :: "NodeID \<Rightarrow> NodeID \<Rightarrow> tarjan \<Rightarrow> tarjan option" where
  "visit_target v vprime t = do {
     node \<leftarrow> nth_opt (ts_node_list t) vprime;
     (if SPECIAL_NODEID = tn_index node
      then Some (t\<lparr>ts_recursion_stack := (vprime, v) # ts_recursion_stack t\<rparr>)
      else do {
        this \<leftarrow> nth_opt (ts_node_list t) v;
        (if tn_on_stack node \<and> tn_index node < tn_low_link this
         then Some (t\<lparr>ts_node_list := (ts_node_list t)[v := this\<lparr>tn_low_link := tn_index node\<rparr>]\<rparr>)
         else Some t) }) }"

definition enter_node :: "(NodeID \<Rightarrow> NodeID list) \<Rightarrow> NodeID \<Rightarrow> NodeID \<Rightarrow> tarjan \<Rightarrow> tarjan option" where
  "enter_node adj v u t = do {
     before \<leftarrow> upd_opt (ts_before_recursion t) v False;
     nodes \<leftarrow> upd_opt (ts_node_list t) v \<lparr>tn_index = ts_index t, tn_low_link = ts_index t, tn_on_stack = True\<rparr>;
     foldM (visit_target v) (adj v)
       (t\<lparr>ts_recursion_stack := (v, u) # ts_recursion_stack t, ts_before_recursion := before, ts_node_list := nodes,
          ts_tarjan_stack := v # ts_tarjan_stack t, ts_index := ts_index t + 1\<rparr>) }"

text \<open>The nodes above \<open>v\<close> on the stack and \<open>v\<close> itself form the component.\<close>

fun pop_component :: "NodeID \<Rightarrow> nat \<Rightarrow> NodeID list \<Rightarrow> tarjan_node list \<Rightarrow> nat list \<Rightarrow> nat
    \<Rightarrow> (NodeID list \<times> tarjan_node list \<times> nat list \<times> nat) option" where
  "pop_component v component_index [] nodes components size_of_current_component = None"
| "pop_component v component_index (vprime # stack) nodes components size_of_current_component = do {
     node \<leftarrow> nth_opt nodes vprime;
     components \<leftarrow> upd_opt components vprime component_index;
     (if v \<noteq> vprime
      then pop_component v component_index stack (nodes[vprime := node\<lparr>tn_on_stack := False\<rparr>]) components (size_of_current_component + 1)
      else Some (stack, nodes[vprime := node\<lparr>tn_on_stack := False\<rparr>], components, size_of_current_component + 1)) }"

definition leave_node :: "NodeID \<Rightarrow> NodeID \<Rightarrow> tarjan \<Rightarrow> tarjan option" where
  "leave_node v u t = do {
     before \<leftarrow> upd_opt (ts_before_recursion t) v True;
     node_u \<leftarrow> nth_opt (ts_node_list t) u;
     node_v \<leftarrow> nth_opt (ts_node_list t) v;
     (let nodes = (ts_node_list t)[u := node_u\<lparr>tn_low_link := min (tn_low_link node_u) (tn_low_link node_v)\<rparr>];
          t = t\<lparr>ts_before_recursion := before, ts_node_list := nodes\<rparr>
      in if tn_low_link (nodes ! v) = tn_index (nodes ! v) then do {
           (stack, nodes, components, size_of_current_component) \<leftarrow>
             pop_component v (ts_component_index t) (ts_tarjan_stack t) nodes (ts_components_index t) 0;
           Some (t\<lparr>ts_tarjan_stack := stack, ts_node_list := nodes, ts_components_index := components,
             ts_component_size_vector := ts_component_size_vector t @ [size_of_current_component],
             ts_component_index := ts_component_index t + 1\<rparr>) }
         else Some t) }"

definition tarjan_step :: "(NodeID \<Rightarrow> NodeID list) \<Rightarrow> tarjan \<Rightarrow> tarjan option" where
  "tarjan_step adj t =
     (case ts_recursion_stack t of
        [] \<Rightarrow> None
      | (v, u) # frames \<Rightarrow> do {
          before_recursion \<leftarrow> nth_opt (ts_before_recursion t) v;
          node \<leftarrow> nth_opt (ts_node_list t) v;
          (let t = t\<lparr>ts_recursion_stack := frames\<rparr>
           in if before_recursion \<and> tn_index node \<noteq> UINT_MAX then Some t
              else if before_recursion then enter_node adj v u t
              else leave_node v u t) })"

partial_function (option) tarjan_loop :: "(NodeID \<Rightarrow> NodeID list) \<Rightarrow> tarjan \<Rightarrow> tarjan option" where
  "tarjan_loop adj t =
     (if ts_recursion_stack t = [] then Some t
      else do { t \<leftarrow> tarjan_step adj t; tarjan_loop adj t })"

definition tarjan_root :: "(NodeID \<Rightarrow> NodeID list) \<Rightarrow> NodeID \<Rightarrow> tarjan \<Rightarrow> tarjan option" where
  "tarjan_root adj node t = do {
     c \<leftarrow> nth_opt (ts_components_index t) node;
     tarjan_loop adj
       (if SPECIAL_NODEID = c then t\<lparr>ts_recursion_stack := (node, node) # ts_recursion_stack t\<rparr> else t) }"

definition TarjanSCC :: "nat \<Rightarrow> tarjan option" where
  "TarjanSCC number_of_nodes = do {
     assert_opt (number_of_nodes > 0);
     Some \<lparr>ts_components_index = replicate number_of_nodes SPECIAL_NODEID, ts_component_size_vector = [],
       ts_recursion_stack = [], ts_tarjan_stack = [], ts_node_list = replicate number_of_nodes TarjanNode,
       ts_component_index = 0, ts_index = 0, ts_before_recursion = replicate number_of_nodes True\<rparr> }"

definition tarjan_run :: "nat \<Rightarrow> (NodeID \<Rightarrow> NodeID list) \<Rightarrow> tarjan option" where
  "tarjan_run number_of_nodes adj = do {
     t \<leftarrow> TarjanSCC number_of_nodes;
     nodes \<leftarrow> irange 0 number_of_nodes;
     foldM (tarjan_root adj) nodes t }"

definition get_number_of_components :: "tarjan \<Rightarrow> nat" where
  "get_number_of_components t = length (ts_component_size_vector t)"

definition get_size_one_count :: "tarjan \<Rightarrow> nat" where
  "get_size_one_count t = length (filter (\<lambda>s. 1 = s) (ts_component_size_vector t))"

definition get_component_size :: "tarjan \<Rightarrow> nat \<Rightarrow> nat option" where
  "get_component_size t component_id = nth_opt (ts_component_size_vector t) component_id"

definition get_component_id :: "tarjan \<Rightarrow> NodeID \<Rightarrow> nat option" where
  "get_component_id t node = nth_opt (ts_components_index t) node"

section \<open>The invariant\<close>

abbreviation node_index :: "tarjan \<Rightarrow> NodeID \<Rightarrow> nat" where
  "node_index t x \<equiv> tn_index (ts_node_list t ! x)"

abbreviation low_link :: "tarjan \<Rightarrow> NodeID \<Rightarrow> nat" where
  "low_link t x \<equiv> tn_low_link (ts_node_list t ! x)"

abbreviation component_of :: "tarjan \<Rightarrow> NodeID \<Rightarrow> nat" where
  "component_of t x \<equiv> ts_components_index t ! x"

definition entered :: "nat \<Rightarrow> tarjan \<Rightarrow> NodeID set" where
  "entered n t = {x. x < n \<and> node_index t x \<noteq> SPECIAL_NODEID}"

definition assigned :: "nat \<Rightarrow> tarjan \<Rightarrow> NodeID set" where
  "assigned n t = {x. x < n \<and> component_of t x \<noteq> SPECIAL_NODEID}"

text \<open>
  The recursion stack: the nodes in progress in the order in which they were entered, the last
  one first, each with the frame that will leave it, and between them the frames of targets
  that had not been entered when they were pushed.
\<close>

inductive frames_ok :: "NodeID list \<Rightarrow> (NodeID \<times> NodeID) list \<Rightarrow> bool" where
  frames_empty: "frames_ok [] []"
| frames_target: "frames_ok P frames \<Longrightarrow> P \<noteq> [] \<Longrightarrow> v \<notin> set P \<Longrightarrow> frames_ok P ((v, u) # frames)"
| frames_tail: "frames_ok P frames \<Longrightarrow> v \<notin> set P \<Longrightarrow> frames_ok (v # P) ((v, u) # frames)"

inductive_cases frames_nilE: "frames_ok [] frames"
inductive_cases frames_consE: "frames_ok P ((v, u) # frames)"

definition bookkeeping :: "nat \<Rightarrow> tarjan \<Rightarrow> bool" where
  "bookkeeping n t \<longleftrightarrow> n < SPECIAL_NODEID
     \<and> length (ts_components_index t) = n \<and> length (ts_node_list t) = n \<and> length (ts_before_recursion t) = n
     \<and> ts_index t = card (entered n t) \<and> distinct (ts_tarjan_stack t)
     \<and> (\<forall>x < n. tn_on_stack (ts_node_list t ! x) \<longrightarrow> x \<in> set (ts_tarjan_stack t))
     \<and> set (ts_tarjan_stack t) = entered n t - assigned n t \<and> assigned n t \<subseteq> entered n t"

definition components_ok :: "nat \<Rightarrow> tarjan \<Rightarrow> bool" where
  "components_ok n t \<longleftrightarrow> length (ts_component_size_vector t) = ts_component_index t
     \<and> ts_component_index t \<le> card (assigned n t)
     \<and> (\<forall>x \<in> assigned n t. component_of t x < ts_component_index t)
     \<and> (\<forall>c < ts_component_index t. ts_component_size_vector t ! c = card {x. x < n \<and> component_of t x = c}
          \<and> 0 < ts_component_size_vector t ! c)"

definition stack_ok :: "NodeID \<Rightarrow> nat \<Rightarrow> NodeID list \<Rightarrow> tarjan \<Rightarrow> bool" where
  "stack_ok root b P t \<longleftrightarrow> subseq P (ts_tarjan_stack t) \<and> b \<le> ts_index t
     \<and> (ts_tarjan_stack t \<noteq> [] \<longrightarrow> P \<noteq> [] \<and> last P = root \<and> last (ts_tarjan_stack t) = root \<and> node_index t root = b)
     \<and> (\<forall>x \<in> set (ts_tarjan_stack t). b \<le> node_index t x \<and> b \<le> low_link t x \<and> low_link t x \<le> node_index t x)"

definition tarjan_inv :: "nat \<Rightarrow> NodeID \<Rightarrow> nat \<Rightarrow> NodeID list \<Rightarrow> tarjan \<Rightarrow> bool" where
  "tarjan_inv n root b P t \<longleftrightarrow> bookkeeping n t \<and> components_ok n t \<and> stack_ok root b P t
     \<and> frames_ok P (ts_recursion_stack t) \<and> (\<forall>(v, u) \<in> set (ts_recursion_stack t). v < n \<and> u < n)
     \<and> (\<forall>x < n. \<not> ts_before_recursion t ! x \<longleftrightarrow> x \<in> set P)"

lemma tarjan_invD:
  assumes "tarjan_inv n root b P t"
  shows "bookkeeping n t" and "components_ok n t" and "stack_ok root b P t" and "frames_ok P (ts_recursion_stack t)"
    and "\<forall>(v, u) \<in> set (ts_recursion_stack t). v < n \<and> u < n"
    and "\<forall>x < n. \<not> ts_before_recursion t ! x \<longleftrightarrow> x \<in> set P"
  using assms by (simp_all add: tarjan_inv_def)

lemma bookkeeping_onD:
  "bookkeeping n t \<Longrightarrow> x < n \<Longrightarrow> tn_on_stack (ts_node_list t ! x) \<Longrightarrow> x \<in> set (ts_tarjan_stack t)"
  unfolding bookkeeping_def by blast

lemma subseq_subset: "subseq xs ys \<Longrightarrow> set xs \<subseteq> set ys"
  by (metis set_nths_subset subseq_conv_nths)

lemma in_progress_on_stack: "tarjan_inv n root b P t \<Longrightarrow> set P \<subseteq> set (ts_tarjan_stack t)"
  using subseq_subset by (auto simp: tarjan_inv_def stack_ok_def)

lemma in_progress_entered: "tarjan_inv n root b P t \<Longrightarrow> set P \<subseteq> entered n t"
  using in_progress_on_stack tarjan_invD(1) unfolding bookkeeping_def by blast

lemma finite_entered [simp]: "finite (entered n t)" "finite (assigned n t)"
  by (simp_all add: entered_def assigned_def)

lemma entered_card: "card (entered n t) \<le> n"
  using card_mono [of "{..<n}" "entered n t"] by (auto simp: entered_def)

lemma components_ok_cong:
  assumes "ts_components_index t' = ts_components_index t" and "ts_component_size_vector t' = ts_component_size_vector t"
    and "ts_component_index t' = ts_component_index t"
  shows "components_ok n t' = components_ok n t" and "assigned n t' = assigned n t"
  using assms by (simp_all add: components_ok_def assigned_def)

text \<open>Changing low links only, as the algorithm does in two places.\<close>

definition same_but_low :: "nat \<Rightarrow> tarjan_node list \<Rightarrow> tarjan_node list \<Rightarrow> bool" where
  "same_but_low n nodes nodes' \<longleftrightarrow> length nodes' = length nodes
     \<and> (\<forall>x < n. tn_index (nodes' ! x) = tn_index (nodes ! x) \<and> tn_on_stack (nodes' ! x) = tn_on_stack (nodes ! x))"

lemma low_link_update:
  assumes "same_but_low n (ts_node_list t) nodes'"
  shows "entered n (t\<lparr>ts_node_list := nodes'\<rparr>) = entered n t"
    and "bookkeeping n (t\<lparr>ts_node_list := nodes'\<rparr>) = bookkeeping n t"
proof -
  show e: "entered n (t\<lparr>ts_node_list := nodes'\<rparr>) = entered n t"
    using assms by (auto simp: entered_def same_but_low_def)
  have "assigned n (t\<lparr>ts_node_list := nodes'\<rparr>) = assigned n t"
    by (simp add: assigned_def)
  then show "bookkeeping n (t\<lparr>ts_node_list := nodes'\<rparr>) = bookkeeping n t"
    using e assms by (simp add: bookkeeping_def same_but_low_def)
qed

lemma before_update [simp]:
  "length bs = length (ts_before_recursion t) \<Longrightarrow> bookkeeping n (t\<lparr>ts_before_recursion := bs\<rparr>) = bookkeeping n t"
  "entered n (t\<lparr>ts_before_recursion := bs\<rparr>) = entered n t"
  by (simp_all add: entered_def assigned_def bookkeeping_def)

lemma frames_update [simp]:
  "entered n (t\<lparr>ts_recursion_stack := r\<rparr>) = entered n t" "assigned n (t\<lparr>ts_recursion_stack := r\<rparr>) = assigned n t"
  "bookkeeping n (t\<lparr>ts_recursion_stack := r\<rparr>) = bookkeeping n t"
  "components_ok n (t\<lparr>ts_recursion_stack := r\<rparr>) = components_ok n t"
  "stack_ok root b P (t\<lparr>ts_recursion_stack := r\<rparr>) = stack_ok root b P t"
  by (simp_all add: entered_def assigned_def bookkeeping_def components_ok_def stack_ok_def)

section \<open>Visiting the targets of a node\<close>

lemma visit_target_inv:
  assumes inv: "tarjan_inv n root b (v # P) t" and w: "w < n" and v: "v < n"
  shows "\<exists>t'. visit_target v w t = Some t' \<and> tarjan_inv n root b (v # P) t' \<and> entered n t' = entered n t"
proof -
  have len: "length (ts_node_list t) = n"
    using tarjan_invD(1) [OF inv] by (simp add: bookkeeping_def)
  show ?thesis
  proof (cases "node_index t w = SPECIAL_NODEID")
    case True
    then have "w \<notin> set (v # P)"
      using in_progress_entered [OF inv] by (auto simp: entered_def)
    then have "tarjan_inv n root b (v # P) (t\<lparr>ts_recursion_stack := (w, v) # ts_recursion_stack t\<rparr>)"
      using inv w v frames_target [of "v # P"] by (simp add: tarjan_inv_def)
    then show ?thesis
      using True w len by (auto simp: visit_target_def entered_def)
  next
    case False
    show ?thesis
    proof (cases "tn_on_stack (ts_node_list t ! w) \<and> node_index t w < low_link t v")
      case False
      with \<open>node_index t w \<noteq> SPECIAL_NODEID\<close> inv w v len show ?thesis
        by (auto simp: visit_target_def)
    next
      case True
      let ?t = "t\<lparr>ts_node_list := (ts_node_list t)[v := (ts_node_list t ! v)\<lparr>tn_low_link := node_index t w\<rparr>]\<rparr>"
      have same: "same_but_low n (ts_node_list t) (ts_node_list ?t)"
        using v len by (simp add: same_but_low_def nth_list_update)
      have idx: "node_index ?t x = node_index t x" for x
        using v len by (cases "x = v") simp_all
      have low: "low_link ?t x = (if x = v then node_index t w else low_link t x)" for x
        using v len by simp
      have "w \<in> set (ts_tarjan_stack t)"
        using True w tarjan_invD(1) [OF inv] unfolding bookkeeping_def by blast
      then have "b \<le> node_index t w"
        using tarjan_invD(3) [OF inv] by (simp add: stack_ok_def)
      then have "stack_ok root b (v # P) ?t"
        using tarjan_invD(3) [OF inv] True unfolding stack_ok_def idx low by fastforce
      moreover have "bookkeeping n ?t" "components_ok n ?t"
        using tarjan_invD(1,2) [OF inv] low_link_update(2) [OF same] components_ok_cong(1) [of ?t t] by simp_all
      ultimately have "tarjan_inv n root b (v # P) ?t"
        using inv by (simp add: tarjan_inv_def)
      then show ?thesis
        using True \<open>node_index t w \<noteq> SPECIAL_NODEID\<close> w v len low_link_update(1) [OF same] by (auto simp: visit_target_def)
    qed
  qed
qed

lemma visit_targets_inv:
  assumes "tarjan_inv n root b (v # P) t" and "\<forall>w \<in> set ws. w < n" and "v < n"
  shows "\<exists>t'. foldM (visit_target v) ws t = Some t' \<and> tarjan_inv n root b (v # P) t' \<and> entered n t' = entered n t"
  using assms(1,2)
proof (induction ws arbitrary: t)
  case (Cons w ws)
  then obtain t1 where "visit_target v w t = Some t1" "tarjan_inv n root b (v # P) t1" "entered n t1 = entered n t"
    using visit_target_inv [OF Cons.prems(1) _ assms(3)] by (metis list.set_intros(1))
  with Cons.IH [of t1] Cons.prems(2) show ?case by simp
qed simp

section \<open>Entering and leaving a node\<close>

lemma enter_node_start:
  assumes inv: "tarjan_inv n root b P t" and v: "v < n" "u < n" and fresh: "node_index t v = SPECIAL_NODEID"
    and first: "P = [] \<Longrightarrow> v = root \<and> b = ts_index t"
  defines "t1 \<equiv> t\<lparr>ts_recursion_stack := (v, u) # ts_recursion_stack t, ts_before_recursion := (ts_before_recursion t)[v := False],
      ts_node_list := (ts_node_list t)[v := \<lparr>tn_index = ts_index t, tn_low_link = ts_index t, tn_on_stack = True\<rparr>],
      ts_tarjan_stack := v # ts_tarjan_stack t, ts_index := ts_index t + 1\<rparr>"
  shows "tarjan_inv n root b (v # P) t1" and "entered n t1 = insert v (entered n t)" and "v \<notin> entered n t"
proof -
  note bk = tarjan_invD(1) [OF inv, unfolded bookkeeping_def]
  have len: "length (ts_node_list t) = n" "length (ts_before_recursion t) = n"
    using bk by simp_all
  show out: "v \<notin> entered n t"
    using fresh by (simp add: entered_def)
  have "entered n t \<subset> {..<n}"
    using v(1) out by (auto simp: entered_def)
  then have "card (entered n t) < n"
    using psubset_card_mono [of "{..<n}" "entered n t"] by simp
  then have idx: "ts_index t \<noteq> SPECIAL_NODEID"
    using bk by simp
  have nodes: "ts_node_list t1 ! x = (if x = v then \<lparr>tn_index = ts_index t, tn_low_link = ts_index t, tn_on_stack = True\<rparr>
      else ts_node_list t ! x)" for x
    using v(1) len by (simp add: t1_def)
  show ent: "entered n t1 = insert v (entered n t)"
    using v(1) idx by (auto simp: entered_def nodes)
  have asg: "assigned n t1 = assigned n t" "components_ok n t1 = components_ok n t"
    using components_ok_cong [of t1 t] by (simp_all add: t1_def)
  have on: "\<forall>x < n. tn_on_stack (ts_node_list t ! x) \<longrightarrow> x \<in> set (ts_tarjan_stack t)"
    using bk by blast
  have "bookkeeping n t1"
  proof -
    have "set (ts_tarjan_stack t1) = entered n t1 - assigned n t1"
      unfolding ent asg using bk out by (auto simp: t1_def)
    moreover have "distinct (ts_tarjan_stack t1)"
      using bk out by (simp add: t1_def)
    moreover have "x \<in> set (ts_tarjan_stack t1)" if "x < n" "tn_on_stack (ts_node_list t1 ! x)" for x
      using that on unfolding nodes by (cases "x = v") (auto simp: t1_def)
    moreover have "ts_index t1 = card (entered n t1)"
      unfolding ent using bk out by (simp add: t1_def)
    ultimately show ?thesis
      using bk unfolding bookkeeping_def asg ent by (auto simp: t1_def)
  qed
  moreover have "stack_ok root b (v # P) t1"
  proof -
    note st = tarjan_invD(3) [OF inv, unfolded stack_ok_def]
    have "root \<noteq> v \<and> node_index t root = b \<and> last P = root \<and> ts_tarjan_stack t \<noteq> [] \<and> last (ts_tarjan_stack t) = root" if "P \<noteq> []"
    proof -
      have "ts_tarjan_stack t \<noteq> []" using that in_progress_on_stack [OF inv] by auto
      moreover have "last P \<in> entered n t" using that in_progress_entered [OF inv] by auto
      ultimately show ?thesis using st out by auto
    qed
    moreover have "ts_tarjan_stack t = []" if "P = []"
      using st that by blast
    ultimately show ?thesis
      using st first bk out unfolding stack_ok_def nodes
      by (cases "P = []") (auto simp: t1_def)
  qed
  moreover have "v \<notin> set P"
    using out in_progress_entered [OF inv] by auto
  ultimately show "tarjan_inv n root b (v # P) t1"
    using inv v asg len unfolding tarjan_inv_def
    by (auto simp: t1_def nth_list_update intro: frames_tail)
qed

lemma enter_node_inv:
  assumes inv: "tarjan_inv n root b P t" and v: "v < n" "u < n" and fresh: "node_index t v = SPECIAL_NODEID"
    and first: "P = [] \<Longrightarrow> v = root \<and> b = ts_index t" and adj: "\<forall>w \<in> set (adj v). w < n"
  shows "\<exists>t'. enter_node adj v u t = Some t' \<and> tarjan_inv n root b (v # P) t' \<and> entered n t \<subset> entered n t'"
proof -
  note start = enter_node_start [OF inv v fresh first]
  have "length (ts_node_list t) = n" "length (ts_before_recursion t) = n"
    using tarjan_invD(1) [OF inv] by (simp_all add: bookkeeping_def)
  then show ?thesis
    using visit_targets_inv [OF start(1) adj v(1)] start(2,3) v(1) by (auto simp: enter_node_def)
qed

lemma pop_component_law:
  assumes "v \<notin> set ys" and "set (ys @ [v]) \<subseteq> {..<n}" and "length nodes = n" and "length components = n"
  shows "\<exists>nodes' components'. pop_component v c (ys @ v # zs) nodes components k = Some (zs, nodes', components', k + length ys + 1)
    \<and> length nodes' = n \<and> length components' = n
    \<and> (\<forall>x < n. nodes' ! x = (if x \<in> set (ys @ [v]) then (nodes ! x)\<lparr>tn_on_stack := False\<rparr> else nodes ! x)
         \<and> components' ! x = (if x \<in> set (ys @ [v]) then c else components ! x))"
  using assms
proof (induction ys arbitrary: nodes components k)
  case Nil
  then show ?case by (auto simp: nth_list_update)
next
  case (Cons y ys)
  let ?nodes = "nodes[y := (nodes ! y)\<lparr>tn_on_stack := False\<rparr>]" and ?components = "components[y := c]"
  have "\<exists>nodes' components'. pop_component v c (ys @ v # zs) ?nodes ?components (k + 1) = Some (zs, nodes', components', k + 1 + length ys + 1)
    \<and> length nodes' = n \<and> length components' = n
    \<and> (\<forall>x < n. nodes' ! x = (if x \<in> set (ys @ [v]) then (?nodes ! x)\<lparr>tn_on_stack := False\<rparr> else ?nodes ! x)
         \<and> components' ! x = (if x \<in> set (ys @ [v]) then c else ?components ! x))"
    using Cons.prems by (intro Cons.IH) simp_all
  then obtain nodes' components' where r: "pop_component v c (ys @ v # zs) ?nodes ?components (k + 1) = Some (zs, nodes', components', k + 1 + length ys + 1)"
    "length nodes' = n" "length components' = n"
    "\<And>x. x < n \<Longrightarrow> nodes' ! x = (if x \<in> set (ys @ [v]) then (?nodes ! x)\<lparr>tn_on_stack := False\<rparr> else ?nodes ! x)"
    "\<And>x. x < n \<Longrightarrow> components' ! x = (if x \<in> set (ys @ [v]) then c else ?components ! x)" by blast
  have "nodes' ! x = (if x \<in> set ((y # ys) @ [v]) then (nodes ! x)\<lparr>tn_on_stack := False\<rparr> else nodes ! x)"
    "components' ! x = (if x \<in> set ((y # ys) @ [v]) then c else components ! x)" if "x < n" for x
    using r(4,5) [OF that] Cons.prems that by (auto simp: nth_list_update)
  then show ?case
    using r Cons.prems by (intro exI [of _ nodes'] exI [of _ components']) simp
qed

lemma subseq_behind: "subseq (v # P) (ys @ v # zs) \<Longrightarrow> v \<notin> set ys \<Longrightarrow> subseq P zs"
  by (induction ys) auto

lemma last_only: "distinct (ys @ v # zs) \<Longrightarrow> last (ys @ v # zs) = v \<Longrightarrow> zs = []"
  by (cases zs rule: rev_cases) auto

lemma popped_components:
  assumes ok: "components_ok n t" and bk: "bookkeeping n t" and stack: "ts_tarjan_stack t = ys @ v # zs"
    and comp: "\<forall>x < n. component_of t' x = (if x \<in> set (ys @ [v]) then ts_component_index t else component_of t x)"
    and size: "ts_component_size_vector t' = ts_component_size_vector t @ [length ys + 1]"
    and idx: "ts_component_index t' = ts_component_index t + 1"
  shows "components_ok n t'" and "assigned n t' = assigned n t \<union> set (ys @ [v])"
proof -
  note ok = ok [unfolded components_ok_def] and bk = bk [unfolded bookkeeping_def]
  let ?c = "ts_component_index t" and ?S = "set (ys @ [v])"
  have "card (assigned n t) \<le> n"
    using card_mono [of "{..<n}" "assigned n t"] by (auto simp: assigned_def)
  then have c: "?c < SPECIAL_NODEID"
    using ok bk by linarith
  have S: "?S \<subseteq> entered n t - assigned n t"
    using bk stack by (metis append.assoc append_Cons append_Nil set_append sup_ge1)
  then have Sn: "?S \<subseteq> {..<n}" and fresh: "\<forall>x \<in> ?S. component_of t x = SPECIAL_NODEID"
    by (auto simp: entered_def assigned_def)
  have card: "card ?S = length ys + 1"
    using bk stack by (simp add: distinct_card)
  show asg: "assigned n t' = assigned n t \<union> ?S"
    using comp c Sn by (auto simp: assigned_def split: if_splits)
  have same: "{x. x < n \<and> component_of t' x = d} = {x. x < n \<and> component_of t x = d}" if "d < ?c" for d
  proof -
    have "d \<noteq> SPECIAL_NODEID" "d \<noteq> ?c" using that c by simp_all
    then show ?thesis using comp fresh by auto
  qed
  have new: "{x. x < n \<and> component_of t' x = ?c} = ?S"
  proof -
    have "component_of t x \<noteq> ?c" if "x < n" for x
      using ok c that by (cases "component_of t x = SPECIAL_NODEID") (auto simp: assigned_def)
    then show ?thesis using comp Sn by (auto split: if_splits)
  qed
  have "card (assigned n t') = card (assigned n t) + (length ys + 1)"
    unfolding asg using S card by (subst card_Un_disjoint) auto
  moreover have "\<forall>x \<in> assigned n t'. component_of t' x < ?c + 1"
    using asg comp ok by (auto simp: assigned_def less_Suc_eq)
  moreover have "\<forall>d < ?c + 1. ts_component_size_vector t' ! d = card {x. x < n \<and> component_of t' x = d} \<and> 0 < ts_component_size_vector t' ! d"
    using ok same new card size by (auto simp: less_Suc_eq nth_append)
  moreover have "length (ts_component_size_vector t') = ?c + 1" "?c \<le> card (assigned n t)"
    using ok size by simp_all
  ultimately show "components_ok n t'"
    unfolding components_ok_def idx by (intro conjI) (assumption | linarith)+
qed

lemma leave_node_inv:
  assumes bk: "bookkeeping n t" and ok: "components_ok n t" and st: "stack_ok root b (v # P) t"
    and frames: "frames_ok P (ts_recursion_stack t)" "\<forall>(v, u) \<in> set (ts_recursion_stack t). v < n \<and> u < n"
    and before: "\<forall>x < n. \<not> ts_before_recursion t ! x \<longleftrightarrow> x \<in> set (v # P)" and v: "v \<notin> set P" "v < n" "u < n"
  shows "\<exists>t'. leave_node v u t = Some t' \<and> tarjan_inv n root b P t' \<and> entered n t' = entered n t
    \<and> ts_recursion_stack t' = ts_recursion_stack t"
proof -
  have len: "length (ts_node_list t) = n" "length (ts_before_recursion t) = n" "length (ts_components_index t) = n"
    and dis: "distinct (ts_tarjan_stack t)" and stack: "set (ts_tarjan_stack t) = entered n t - assigned n t"
    using bk by (simp_all add: bookkeeping_def)
  let ?nodes = "(ts_node_list t)[u := (ts_node_list t ! u)\<lparr>tn_low_link := min (low_link t u) (low_link t v)\<rparr>]"
  let ?before = "(ts_before_recursion t)[v := True]"
  define t2 where "t2 = t\<lparr>ts_before_recursion := ?before, ts_node_list := ?nodes\<rparr>"
  have v_on: "v \<in> set (ts_tarjan_stack t)"
    using st subseq_subset [of "v # P"] by (simp add: stack_ok_def)
  have same: "same_but_low n (ts_node_list t) ?nodes"
    using v len by (simp add: same_but_low_def nth_list_update)
  have idx: "node_index t2 x = node_index t x" for x
    using v len by (cases "x = u") (simp_all add: t2_def)
  have low: "low_link t2 x = (if x = u then min (low_link t u) (low_link t v) else low_link t x)" for x
    using v len by (simp add: t2_def)
  have bk2: "bookkeeping n t2" and ent2: "entered n t2 = entered n t"
    using bk low_link_update [of n "t\<lparr>ts_before_recursion := ?before\<rparr>" ?nodes] same by (simp_all add: t2_def)
  have ok2: "components_ok n t2"
    using ok components_ok_cong(1) [of t2 t] by (simp add: t2_def)
  have st2: "stack_ok root b (v # P) t2"
    using st v_on unfolding stack_ok_def idx low by (auto simp: t2_def)
  have before2: "\<forall>x < n. \<not> ts_before_recursion t2 ! x \<longleftrightarrow> x \<in> set P"
    using before v len by (auto simp: t2_def nth_list_update)
  have frames2: "frames_ok P (ts_recursion_stack t2)" "\<forall>(v, u) \<in> set (ts_recursion_stack t2). v < n \<and> u < n"
    using frames by (simp_all add: t2_def)
  show ?thesis
  proof (cases "low_link t2 v = node_index t2 v")
    case False
    have P: "P \<noteq> []"
    proof
      assume "P = []"
      then have "node_index t2 v = b"
        using st2 v_on by (auto simp: stack_ok_def t2_def)
      then show False
        using st2 v_on False by (fastforce simp: stack_ok_def t2_def)
    qed
    then have "stack_ok root b P t2"
      using st2 by (auto simp: stack_ok_def dest: subseq_Cons')
    then have "tarjan_inv n root b P t2"
      using bk2 ok2 frames2 before2 by (simp add: tarjan_inv_def)
    then show ?thesis
      using False v len ent2 by (auto simp: leave_node_def t2_def Let_def)
  next
    case True
    obtain ys zs where yz: "ts_tarjan_stack t = ys @ v # zs" "v \<notin> set ys"
      using split_list_first [OF v_on] by blast
    have Sn: "set (ys @ [v]) \<subseteq> {..<n}"
      using stack yz by (auto simp: entered_def)
    obtain nodes' components' where pop: "pop_component v (ts_component_index t) (ys @ v # zs) ?nodes (ts_components_index t) 0
        = Some (zs, nodes', components', length ys + 1)" "length nodes' = n" "length components' = n"
      and nodes': "\<And>x. x < n \<Longrightarrow> nodes' ! x = (if x \<in> set (ys @ [v]) then (?nodes ! x)\<lparr>tn_on_stack := False\<rparr> else ?nodes ! x)"
      and comps': "\<And>x. x < n \<Longrightarrow> components' ! x = (if x \<in> set (ys @ [v]) then ts_component_index t else ts_components_index t ! x)"
      using pop_component_law [OF yz(2) Sn, of ?nodes "ts_components_index t" "ts_component_index t" zs 0] len by auto
    define t3 where "t3 = t2\<lparr>ts_tarjan_stack := zs, ts_node_list := nodes', ts_components_index := components',
        ts_component_size_vector := ts_component_size_vector t @ [length ys + 1], ts_component_index := ts_component_index t + 1\<rparr>"
    have yz2: "ts_tarjan_stack t2 = ys @ v # zs" by (simp add: t2_def yz)
    have pc: "components_ok n t3" "assigned n t3 = assigned n t2 \<union> set (ys @ [v])"
      using popped_components [OF ok2 bk2 yz2, of t3] comps' by (simp_all add: t3_def t2_def)
    have idx3: "node_index t3 x = node_index t2 x" "low_link t3 x = low_link t2 x" if "x < n" for x
      using nodes' [OF that] by (simp_all add: t3_def t2_def)
    have ent3: "entered n t3 = entered n t2"
      using idx3 by (auto simp: entered_def)
    have zs: "set zs = entered n t3 - assigned n t3"
    proof -
      have "assigned n t2 = assigned n t"
        by (simp add: t2_def assigned_def)
      moreover have "set zs = set (ts_tarjan_stack t) - set (ys @ [v])"
        using dis yz by auto
      ultimately show ?thesis
        unfolding ent3 ent2 pc(2) stack by blast
    qed
    have on: "x \<in> set zs" if "x < n" "tn_on_stack (nodes' ! x)" for x
    proof -
      have "x \<notin> set (ys @ [v])" "tn_on_stack (?nodes ! x)"
        using nodes' [OF that(1)] that(2) by (auto split: if_splits)
      moreover from this(2) have "x \<in> set (ts_tarjan_stack t2)"
        by (intro bookkeeping_onD [OF bk2 that(1)]) (simp add: t2_def)
      ultimately show ?thesis by (simp add: yz2)
    qed
    have bk3: "bookkeeping n t3"
    proof -
      have "ts_tarjan_stack t3 = zs" "ts_node_list t3 = nodes'" "length (ts_components_index t3) = n"
        "ts_index t3 = ts_index t2" "ts_before_recursion t3 = ts_before_recursion t2"
        by (simp_all add: t3_def pop(3))
      moreover have "assigned n t3 \<subseteq> entered n t3"
        using bk2 stack yz by (auto simp: bookkeeping_def pc(2) ent3 ent2)
      moreover have "distinct zs" using dis yz by simp
      ultimately show ?thesis
        using bk2 zs on pop(2) unfolding bookkeeping_def ent3 by simp
    qed
    have st3: "stack_ok root b P t3"
    proof -
      have sub: "subseq P zs"
      proof (rule subseq_behind [OF _ yz(2)])
        show "subseq (v # P) (ys @ v # zs)"
          using st2 unfolding stack_ok_def yz2 by blast
      qed
      have bounds: "\<forall>x \<in> set zs. b \<le> node_index t3 x \<and> b \<le> low_link t3 x \<and> low_link t3 x \<le> node_index t3 x"
      proof
        fix x assume "x \<in> set zs"
        then have "x < n" "x \<in> set (ts_tarjan_stack t2)"
          using zs by (auto simp: entered_def yz2)
        then show "b \<le> node_index t3 x \<and> b \<le> low_link t3 x \<and> low_link t3 x \<le> node_index t3 x"
          using st2 idx3 by (simp add: stack_ok_def)
      qed
      have root: "P \<noteq> [] \<and> last P = root \<and> last zs = root \<and> node_index t3 root = b" if "zs \<noteq> []"
      proof -
        have last: "last (v # P) = root" "last (ys @ v # zs) = root" "node_index t2 root = b"
          using st2 by (simp_all add: stack_ok_def yz2)
        have "P \<noteq> []"
          using last last_only [of ys v zs] dis yz(1) that by auto
        moreover from this have "last P = root" "last zs = root"
          using last that by auto
        moreover have "root < n"
        proof -
          have "root \<in> set zs" using \<open>last zs = root\<close> last_in_set [OF that] by simp
          then have "root \<in> entered n t3" unfolding zs by blast
          then show ?thesis by (simp add: entered_def)
        qed
        ultimately show ?thesis using idx3 last(3) by simp
      qed
      have "ts_tarjan_stack t3 = zs" "ts_index t3 = ts_index t2"
        by (simp_all add: t3_def)
      then show ?thesis
        using st2 sub bounds root unfolding stack_ok_def by simp
    qed
    have "tarjan_inv n root b P t3"
      using bk3 pc(1) st3 frames2 before2 by (simp add: tarjan_inv_def t3_def)
    moreover have "leave_node v u t = Some t3"
      using True pop(1) v len by (simp add: leave_node_def t3_def t2_def Let_def yz)
    ultimately show ?thesis
      using ent3 ent2 by (simp add: t3_def t2_def)
  qed
qed

section \<open>The loop and the run\<close>

definition progress :: "nat \<Rightarrow> ((tarjan \<times> tarjan) set)" where
  "progress n = measures [\<lambda>t. n - card (entered n t), \<lambda>t. length (ts_recursion_stack t)]"

lemma progress_wf: "wf (progress n)"
  by (simp add: progress_def)

lemma progress_entered: "entered n t \<subset> entered n t' \<Longrightarrow> (t', t) \<in> progress n"
proof -
  assume "entered n t \<subset> entered n t'"
  then have "card (entered n t) < card (entered n t')"
    by (intro psubset_card_mono) simp_all
  then have "n - card (entered n t') < n - card (entered n t)"
    using entered_card [of n t'] by linarith
  then show ?thesis by (simp add: progress_def)
qed

lemma tarjan_step_inv:
  assumes inv: "tarjan_inv n root b P t" and P: "P \<noteq> []" and adj: "\<forall>v < n. \<forall>w \<in> set (adj v). w < n"
  shows "\<exists>P' t'. tarjan_step adj t = Some t' \<and> tarjan_inv n root b P' t' \<and> (t', t) \<in> progress n
    \<and> entered n t \<subseteq> entered n t'"
proof -
  note frames = tarjan_invD(4) [OF inv]
  obtain v u fs where f: "ts_recursion_stack t = (v, u) # fs"
    using frames P by (cases rule: frames_ok.cases) auto
  have vu: "v < n" "u < n"
    using tarjan_invD(5) [OF inv] f by auto
  have len: "length (ts_before_recursion t) = n" "length (ts_node_list t) = n"
    using tarjan_invD(1) [OF inv] by (simp_all add: bookkeeping_def)
  let ?t = "t\<lparr>ts_recursion_stack := fs\<rparr>"
  show ?thesis
  proof (cases "ts_before_recursion t ! v")
    case True
    then have "v \<notin> set P"
      using tarjan_invD(6) [OF inv] vu by blast
    then have "frames_ok P fs"
      using frames f by (auto elim: frames_consE)
    then have inv': "tarjan_inv n root b P ?t"
      using inv f by (simp add: tarjan_inv_def)
    show ?thesis
    proof (cases "node_index t v = SPECIAL_NODEID")
      case fresh: True
      then obtain t' where "enter_node adj v u ?t = Some t'" "tarjan_inv n root b (v # P) t'" "entered n ?t \<subset> entered n t'"
        using enter_node_inv [OF inv' vu, of adj] P adj vu by fastforce
      then show ?thesis
        using True fresh f vu len progress_entered [of n t t'] by (auto simp: tarjan_step_def limits_defs)
    next
      case False
      then show ?thesis
        using True inv' f vu len by (auto simp: tarjan_step_def SPECIAL_NODEID_def progress_def)
    qed
  next
    case False
    then have "v \<in> set P"
      using tarjan_invD(6) [OF inv] vu by blast
    then obtain P' where P': "P = v # P'" "frames_ok P' fs" "v \<notin> set P'"
      using frames f by (auto elim: frames_consE)
    have "\<exists>t'. leave_node v u ?t = Some t' \<and> tarjan_inv n root b P' t' \<and> entered n t' = entered n ?t
      \<and> ts_recursion_stack t' = ts_recursion_stack ?t"
      using inv f P' vu by (intro leave_node_inv) (simp_all add: tarjan_inv_def)
    then show ?thesis
      using False f vu len by (auto simp: tarjan_step_def progress_def)
  qed
qed

lemma tarjan_loop_inv:
  assumes adj: "\<forall>v < n. \<forall>w \<in> set (adj v). w < n" and "tarjan_inv n root b P t"
  shows "\<exists>t'. tarjan_loop adj t = Some t' \<and> tarjan_inv n root b [] t' \<and> entered n t \<subseteq> entered n t'"
  using assms(2)
proof (induction t arbitrary: P rule: wf_induct_rule [OF progress_wf [of n], case_names step])
  case (step t)
  show ?case
  proof (cases "P = []")
    case True
    then have "ts_recursion_stack t = []"
      using tarjan_invD(4) [OF step.prems] by (auto elim: frames_nilE)
    with True step.prems show ?thesis by (simp add: tarjan_loop.simps)
  next
    case False
    then have "ts_recursion_stack t \<noteq> []"
      using tarjan_invD(4) [OF step.prems] by (auto elim: frames_ok.cases)
    moreover obtain P' t' where "tarjan_step adj t = Some t'" "tarjan_inv n root b P' t'" "(t', t) \<in> progress n"
        "entered n t \<subseteq> entered n t'"
      using tarjan_step_inv [OF step.prems False adj] by blast
    ultimately show ?thesis
      using step.IH [of t' P'] by (subst tarjan_loop.simps) (auto intro: order_trans)
  qed
qed

text \<open>Between two roots nothing is in progress and every node entered so far is assigned.\<close>

definition settled :: "nat \<Rightarrow> tarjan \<Rightarrow> bool" where
  "settled n t \<longleftrightarrow> bookkeeping n t \<and> components_ok n t \<and> ts_recursion_stack t = [] \<and> ts_tarjan_stack t = []
     \<and> (\<forall>x < n. ts_before_recursion t ! x)"

lemma tarjan_inv_settled: "tarjan_inv n root b [] t \<Longrightarrow> settled n t"
  by (auto simp: tarjan_inv_def settled_def stack_ok_def elim: frames_nilE)

lemma settled_tarjan_inv: "settled n t \<Longrightarrow> tarjan_inv n root (ts_index t) [] t"
  by (simp add: tarjan_inv_def settled_def stack_ok_def frames_empty)

lemma settled_assigned: "settled n t \<Longrightarrow> assigned n t = entered n t"
  by (auto simp: settled_def bookkeeping_def)

lemma tarjan_root_inv:
  assumes adj: "\<forall>v < n. \<forall>w \<in> set (adj v). w < n" and t: "settled n t" and root: "root < n"
  shows "\<exists>t'. tarjan_root adj root t = Some t' \<and> settled n t' \<and> insert root (assigned n t) \<subseteq> assigned n t'"
proof -
  have len: "length (ts_components_index t) = n" "length (ts_before_recursion t) = n" "length (ts_node_list t) = n"
    and frames: "ts_recursion_stack t = []" and before: "ts_before_recursion t ! root"
    using t root by (simp_all add: settled_def bookkeeping_def)
  show ?thesis
  proof (cases "component_of t root = SPECIAL_NODEID")
    case False
    then have "root \<in> assigned n t"
      using root by (simp add: assigned_def)
    then show ?thesis
      using False root len t frames by (auto simp: tarjan_root_def tarjan_loop.simps)
  next
    case True
    then have "root \<notin> entered n t"
      using settled_assigned [OF t] by (auto simp: assigned_def)
    then have fresh: "node_index t root = SPECIAL_NODEID"
      using root by (simp add: entered_def)
    obtain t1 where t1: "enter_node adj root root t = Some t1" "tarjan_inv n root (ts_index t) [root] t1" "entered n t \<subset> entered n t1"
      using enter_node_inv [OF settled_tarjan_inv [OF t] root root fresh, of root adj] adj root by blast
    obtain t2 where t2: "tarjan_loop adj t1 = Some t2" "tarjan_inv n root (ts_index t) [] t2" "entered n t1 \<subseteq> entered n t2"
      using tarjan_loop_inv [OF adj t1(2)] by blast
    have "t\<lparr>ts_recursion_stack := []\<rparr> = t"
      using frames by (cases t) simp
    then have "tarjan_step adj (t\<lparr>ts_recursion_stack := [(root, root)]\<rparr>) = Some t1"
      using t1(1) before fresh root len by (simp add: tarjan_step_def SPECIAL_NODEID_def)
    then have "tarjan_root adj root t = Some t2"
      using t2(1) True root len frames by (simp add: tarjan_root_def) (subst tarjan_loop.simps, simp)
    moreover have s: "settled n t2"
      using t2(2) by (rule tarjan_inv_settled)
    moreover have "root \<in> entered n t1"
      using in_progress_entered [OF t1(2)] by simp
    ultimately show ?thesis
      using t1(3) t2(3) settled_assigned [OF t] settled_assigned [OF s] by auto
  qed
qed

text \<open>What a caller of the decomposition sees.\<close>

definition partitioned :: "nat \<Rightarrow> tarjan \<Rightarrow> bool" where
  "partitioned n t \<longleftrightarrow> length (ts_components_index t) = n
     \<and> (\<forall>x < n. component_of t x < get_number_of_components t)
     \<and> (\<forall>c < get_number_of_components t. get_component_size t c = Some (card {x. x < n \<and> get_component_id t x = Some c})
          \<and> (\<exists>x < n. component_of t x = c))"

lemma tarjan_run_law:
  assumes "0 < n" and "n < SPECIAL_NODEID" and adj: "\<forall>v < n. \<forall>w \<in> set (adj v). w < n"
  shows "\<exists>t. tarjan_run n adj = Some t \<and> partitioned n t"
proof -
  let ?t0 = "\<lparr>ts_components_index = replicate n SPECIAL_NODEID, ts_component_size_vector = [],
       ts_recursion_stack = [], ts_tarjan_stack = [], ts_node_list = replicate n TarjanNode,
       ts_component_index = 0, ts_index = 0, ts_before_recursion = replicate n True\<rparr>"
  have e: "entered n ?t0 = {}" "assigned n ?t0 = {}"
    by (auto simp: entered_def assigned_def TarjanNode_def)
  have "settled n ?t0"
    using assms(2) e by (simp add: settled_def bookkeeping_def components_ok_def TarjanNode_def)
  then have "\<exists>t. foldM (tarjan_root adj) [0..<n] ?t0 = Some t \<and> (settled n t \<and> {..<n} \<subseteq> assigned n t)"
  proof (intro foldM_upt_invariant [where I = "\<lambda>i t. settled n t \<and> {..<i} \<subseteq> assigned n t"])
    fix i t
    assume "i < n" and "settled n t \<and> {..<i} \<subseteq> assigned n t"
    then show "\<exists>t'. tarjan_root adj i t = Some t' \<and> settled n t' \<and> {..<Suc i} \<subseteq> assigned n t'"
      using tarjan_root_inv [OF adj, of t i] by (fastforce simp: lessThan_Suc)
  qed simp_all
  then obtain t where t: "foldM (tarjan_root adj) [0..<n] ?t0 = Some t" "settled n t" "{..<n} \<subseteq> assigned n t"
    by blast
  have ok: "components_ok n t" and len: "length (ts_components_index t) = n"
    using t(2) by (simp_all add: settled_def bookkeeping_def)
  have below: "\<forall>x < n. component_of t x < get_number_of_components t"
    using ok t(3) by (auto simp: components_ok_def get_number_of_components_def)
  have ids: "{x. x < n \<and> get_component_id t x = Some c} = {x. x < n \<and> component_of t x = c}" for c
    using len by (auto simp: get_component_id_def)
  have "get_component_size t c = Some (card {x. x < n \<and> get_component_id t x = Some c}) \<and> (\<exists>x < n. component_of t x = c)"
    if "c < get_number_of_components t" for c
  proof -
    have "ts_component_size_vector t ! c = card {x. x < n \<and> component_of t x = c}" "0 < ts_component_size_vector t ! c"
      using ok that unfolding components_ok_def get_number_of_components_def by auto
    moreover from this have "{x. x < n \<and> component_of t x = c} \<noteq> {}"
      by (metis card.empty less_irrefl)
    ultimately show ?thesis
      using that unfolding ids by (auto simp: get_component_size_def get_number_of_components_def)
  qed
  then have "partitioned n t"
    using below len by (simp add: partitioned_def)
  then show ?thesis
    using t(1) assms(1) by (simp add: tarjan_run_def TarjanSCC_def)
qed

section \<open>Properties\<close>

text \<open>
  C30: the decomposition ends on every graph whose edges lead to its nodes, without popping an
  empty stack or leaving one of its vectors, and then every node has been assigned to a
  component: its identifier is below the number of components, no component is empty, and the
  recorded size of a component is the number of its nodes.
\<close>
theorem tarjan_run_partitions:
  assumes "0 < n" and "n < SPECIAL_NODEID" and "\<forall>v < n. \<forall>w \<in> set (adj v). w < n"
  shows "\<exists>t. tarjan_run n adj = Some t \<and> partitioned n t"
  using assms by (rule tarjan_run_law)

theorem tarjan_run_partitions_witness:
  "\<exists>t. tarjan_run 3 (\<lambda>v. [(v + 1) mod 3, v]) = Some t \<and> partitioned 3 t"
  by (rule tarjan_run_partitions) (auto simp: limits_defs)

end
