(* ===== verification/Trip_Plugin.thy ===== *)
theory Trip_Plugin
  imports Trip Tarjan_Scc
begin

text \<open>
  The part of \<^verbatim>\<open>plugins/trip.hpp\<close> between the distance table and the routes: the locations are
  split into components by Tarjan's algorithm on the matrix graph of
  \<^verbatim>\<open>data_structures/matrix_graph_wrapper.hpp\<close>, sorted by component, and a round trip is computed
  for each component.
\<close>

section \<open>Splitting the locations\<close>

record scc_component =
  sc_component :: "NodeID list"
  sc_range :: "nat list"

definition SCC_Component :: "NodeID list \<Rightarrow> nat list \<Rightarrow> scc_component option" where
  "SCC_Component in_component in_range =
     (let range = in_range @ [length in_component]
      in do {
        assert_opt (length in_component \<ge> length range);
        assert_opt (length in_component > 0);
        assert_opt (Max (set range) \<le> length in_component);
        assert_opt (is_sorted (<) range);
        Some \<lparr>sc_component = in_component, sc_range = range\<rparr> })"

definition SCC_Component_single :: "NodeID list \<Rightarrow> scc_component" where
  "SCC_Component_single in_component = \<lparr>sc_component = in_component, sc_range = [0, length in_component]\<rparr>"

definition GetNumberOfComponents :: "scc_component \<Rightarrow> nat option" where
  "GetNumberOfComponents scc = do {
     assert_opt (length (sc_range scc) > 0);
     Some (length (sc_range scc) - 1) }"

text \<open>The edges of the matrix graph are named by their targets.\<close>

definition GetAdjacentEdgeRange :: "EdgeWeight list \<Rightarrow> nat \<Rightarrow> NodeID \<Rightarrow> NodeID list" where
  "GetAdjacentEdgeRange table number_of_nodes node =
     filter (\<lambda>i. table ! (node * number_of_nodes + i) \<noteq> INVALID_EDGE_WEIGHT) [0..<number_of_nodes]"

fun component_ranges :: "nat \<Rightarrow> nat list \<Rightarrow> nat list" where
  "component_ranges start [] = []"
| "component_ranges start (s # sizes) = start # component_ranges (start + s) sizes"

definition place_location :: "tarjan \<Rightarrow> NodeID \<Rightarrow> NodeID list \<times> nat list \<Rightarrow> (NodeID list \<times> nat list) option" where
  "place_location scc i s = (case s of (components, range_insertion) \<Rightarrow> do {
     c \<leftarrow> get_component_id scc i;
     pos \<leftarrow> nth_opt range_insertion c;
     components \<leftarrow> upd_opt components pos i;
     Some (components, range_insertion[c := pos + 1]) })"

definition SplitUnaccessibleLocations :: "nat \<Rightarrow> dist_table \<Rightarrow> scc_component option" where
  "SplitUnaccessibleLocations number_of_locations result_table =
     (if INVALID_EDGE_WEIGHT \<notin> set (dt_table result_table)
      then Some (SCC_Component_single [0..<number_of_locations])
      else do {
        scc \<leftarrow> tarjan_run number_of_locations (GetAdjacentEdgeRange (dt_table result_table) number_of_locations);
        (let range = component_ranges 0 (ts_component_size_vector scc)
         in do {
           (components, range_insertion) \<leftarrow>
             foldM (place_location scc) [0..<number_of_locations] (replicate number_of_locations 0, range);
           SCC_Component components range }) })"

section \<open>A round trip for every component\<close>

definition BF_MAX_FEASABLE :: nat where
  "BF_MAX_FEASABLE = 10"

text \<open>
  For a component of one location the code calls \<^verbatim>\<open>emplace_back\<close> with its identifier, which
  constructs a vector of that many zeros.
\<close>

definition component_trip :: "nat \<Rightarrow> dist_table \<Rightarrow> scc_component \<Rightarrow> nat \<Rightarrow> NodeID list option" where
  "component_trip number_of_locations result_table scc k = do {
     first \<leftarrow> nth_opt (sc_range scc) k;
     past \<leftarrow> nth_opt (sc_range scc) (k + 1);
     (let component_size = past - first; locations = take component_size (drop first (sc_component scc))
      in if component_size > 1 then
           (if component_size < BF_MAX_FEASABLE then BruteForceTrip locations number_of_locations result_table
            else FarthestInsertionTrip locations number_of_locations result_table)
         else do {
           node \<leftarrow> nth_opt (sc_component scc) first;
           Some (replicate node 0) }) }"

definition component_trips :: "nat \<Rightarrow> dist_table \<Rightarrow> NodeID list list option" where
  "component_trips number_of_locations result_table = do {
     scc \<leftarrow> SplitUnaccessibleLocations number_of_locations result_table;
     number_of_components \<leftarrow> GetNumberOfComponents scc;
     foldM (\<lambda>k route_result. do {
         scc_route \<leftarrow> component_trip number_of_locations result_table scc k;
         Some (route_result @ [scc_route]) }) [0..<number_of_components] [] }"

section \<open>The split sorts the locations by component\<close>

definition members :: "tarjan \<Rightarrow> nat \<Rightarrow> nat \<Rightarrow> NodeID list" where
  "members scc i c = filter (\<lambda>x. component_of scc x = c) [0..<i]"

abbreviation range_start :: "tarjan \<Rightarrow> nat \<Rightarrow> nat" where
  "range_start scc c \<equiv> sum_list (take c (ts_component_size_vector scc))"

lemma length_component_ranges [simp]: "length (component_ranges s sizes) = length sizes"
  by (induction sizes arbitrary: s) simp_all

lemma component_ranges_nth: "c < length sizes \<Longrightarrow> component_ranges s sizes ! c = s + sum_list (take c sizes)"
  by (induction sizes arbitrary: s c) (auto simp: nth_Cons' take_Cons')

lemma members_size:
  assumes "partitioned n scc" and "c < get_number_of_components scc"
  shows "ts_component_size_vector scc ! c = length (members scc n c)"
proof -
  have "length (members scc n c) = card (set (members scc n c))"
    by (rule distinct_card [symmetric]) (simp add: members_def)
  also have "set (members scc n c) = {x. x < n \<and> get_component_id scc x = Some c}"
    using assms(1) by (auto simp: members_def partitioned_def get_component_id_def)
  finally show ?thesis
    using assms by (simp add: partitioned_def get_component_size_def get_number_of_components_def)
qed

lemma members_mono: "i \<le> j \<Longrightarrow> length (members scc i c) \<le> length (members scc j c)"
  by (simp add: members_def upt_split [of 0 i j])

lemma members_Suc: "members scc (Suc i) c = (if component_of scc i = c then members scc i c @ [i] else members scc i c)"
  by (simp add: members_def)

lemma range_start_Suc:
  assumes "partitioned n scc" and "c < get_number_of_components scc"
  shows "range_start scc (Suc c) = range_start scc c + length (members scc n c)"
  using assms members_size [OF assms] by (simp add: sum_list_take_Suc get_number_of_components_def)

lemma range_start_mono: "c \<le> d \<Longrightarrow> range_start scc c \<le> range_start scc d"
  by (metis le_add1 le_iff_add sum_list_append take_add)

lemma ranges_disjoint:
  assumes "partitioned n scc" and "c < get_number_of_components scc" and "d < get_number_of_components scc" and "c \<noteq> d"
    and "j < length (members scc n c)" and "k < length (members scc n d)"
  shows "range_start scc c + j \<noteq> range_start scc d + k"
proof (cases "c < d")
  case True
  then have "range_start scc (Suc c) \<le> range_start scc d" by (intro range_start_mono) simp
  then show ?thesis using assms range_start_Suc [OF assms(1,2)] by linarith
next
  case False
  then have "range_start scc (Suc d) \<le> range_start scc c" using assms(4) by (intro range_start_mono) simp
  then show ?thesis using assms range_start_Suc [OF assms(1,3)] by linarith
qed

lemma ranges_total:
  assumes "partitioned n scc"
  shows "sum_list (ts_component_size_vector scc) = n"
proof -
  let ?m = "get_number_of_components scc"
  have "ts_component_size_vector scc = map (\<lambda>c. length (members scc n c)) [0..<?m]"
    using members_size [OF assms] by (intro nth_equalityI) (simp_all add: get_number_of_components_def)
  then have "sum_list (ts_component_size_vector scc) = (\<Sum>c<?m. length (members scc n c))"
    by (simp add: sum_list_sum_nth atLeast0LessThan)
  also have "\<dots> = (\<Sum>c<?m. card {x. x < n \<and> component_of scc x = c})"
    by (intro sum.cong) (simp_all add: members_def distinct_card [symmetric] atLeastLessThan_def)
  also have "\<dots> = card (\<Union>c<?m. {x. x < n \<and> component_of scc x = c})"
    by (rule card_UN_disjoint [symmetric]) auto
  also have "(\<Union>c<?m. {x. x < n \<and> component_of scc x = c}) = {..<n}"
    using assms by (auto simp: partitioned_def)
  finally show ?thesis by simp
qed

definition placed :: "nat \<Rightarrow> tarjan \<Rightarrow> nat \<Rightarrow> NodeID list \<times> nat list \<Rightarrow> bool" where
  "placed n scc i s \<longleftrightarrow> length (fst s) = n \<and> length (snd s) = get_number_of_components scc
     \<and> (\<forall>c < get_number_of_components scc. snd s ! c = range_start scc c + length (members scc i c)
          \<and> (\<forall>k < length (members scc i c). fst s ! (range_start scc c + k) = members scc i c ! k))"

lemma place_location_inv:
  assumes part: "partitioned n scc" and i: "i < n" and inv: "placed n scc i s"
  shows "\<exists>s'. place_location scc i s = Some s' \<and> placed n scc (Suc i) s'"
proof -
  obtain comps ins where s: "s = (comps, ins)" by (cases s)
  let ?c = "component_of scc i" and ?m = "get_number_of_components scc"
  have c: "?c < ?m" and id: "get_component_id scc i = Some ?c"
    using part i by (simp_all add: partitioned_def get_component_id_def)
  have len: "length comps = n" "length ins = ?m"
    and ins: "\<And>d. d < ?m \<Longrightarrow> ins ! d = range_start scc d + length (members scc i d)"
    and comps: "\<And>d k. d < ?m \<Longrightarrow> k < length (members scc i d) \<Longrightarrow> comps ! (range_start scc d + k) = members scc i d ! k"
    using inv by (simp_all add: placed_def s)
  have room: "length (members scc i ?c) < length (members scc n ?c)"
    using members_mono [of "Suc i" n scc ?c] i by (simp add: members_Suc)
  have "range_start scc (Suc ?c) \<le> n"
    using range_start_mono [of "Suc ?c" "length (ts_component_size_vector scc)" scc] ranges_total [OF part] c
    by (simp add: get_number_of_components_def)
  then have pos: "ins ! ?c < n"
    using ins [OF c] range_start_Suc [OF part c] room by simp
  have "placed n scc (Suc i) (comps[ins ! ?c := i], ins[?c := ins ! ?c + 1])"
    unfolding placed_def
  proof (intro conjI allI impI)
    fix d assume d: "d < ?m"
    show "snd (comps[ins ! ?c := i], ins[?c := ins ! ?c + 1]) ! d = range_start scc d + length (members scc (Suc i) d)"
      using ins [OF d] len d by (simp add: members_Suc nth_list_update)
    fix k assume k: "k < length (members scc (Suc i) d)"
    show "fst (comps[ins ! ?c := i], ins[?c := ins ! ?c + 1]) ! (range_start scc d + k) = members scc (Suc i) d ! k"
    proof (cases "d = ?c")
      case True
      then show ?thesis
        using k comps [OF d] ins [OF c] pos len
        by (cases "k = length (members scc i ?c)") (auto simp: members_Suc nth_append nth_list_update)
    next
      case False
      then have k': "k < length (members scc i d)" and e: "members scc (Suc i) d = members scc i d"
        using k by (simp_all add: members_Suc split: if_splits)
      have "k < length (members scc n d)"
        using k' members_mono [of i n scc d] i by simp
      then have "range_start scc d + k \<noteq> ins ! ?c"
        using ranges_disjoint [OF part d c False] room ins [OF c] by simp
      then show ?thesis
        using comps [OF d k'] e by simp
    qed
  qed (use len in simp_all)
  then show ?thesis
    using id c pos len by (simp add: place_location_def s)
qed

lemma place_locations:
  assumes "partitioned n scc"
  shows "\<exists>s. foldM (place_location scc) [0..<n] (replicate n 0, component_ranges 0 (ts_component_size_vector scc)) = Some s
    \<and> placed n scc n s"
proof (rule foldM_upt_invariant [where I = "placed n scc"])
  show "placed n scc 0 (replicate n 0, component_ranges 0 (ts_component_size_vector scc))"
    by (simp add: placed_def members_def component_ranges_nth get_number_of_components_def)
qed (use place_location_inv [OF assms] in auto)

lemma placed_segment:
  assumes part: "partitioned n scc" and "placed n scc n (comps, ins)" and c: "c < get_number_of_components scc"
  shows "take (length (members scc n c)) (drop (range_start scc c) comps) = members scc n c"
proof (rule nth_equalityI)
  have len: "length comps = n"
    and comps: "\<And>k. k < length (members scc n c) \<Longrightarrow> comps ! (range_start scc c + k) = members scc n c ! k"
    using assms(2) c by (simp_all add: placed_def)
  have "range_start scc (Suc c) \<le> n"
    using range_start_mono [of "Suc c" "length (ts_component_size_vector scc)" scc] ranges_total [OF part] c
    by (simp add: get_number_of_components_def)
  then have "range_start scc c + length (members scc n c) \<le> n"
    using range_start_Suc [OF part c] by simp
  then show l: "length (take (length (members scc n c)) (drop (range_start scc c) comps)) = length (members scc n c)"
    using len by simp
  fix k assume "k < length (take (length (members scc n c)) (drop (range_start scc c) comps))"
  then have "k < length (members scc n c)" using l by simp
  then show "take (length (members scc n c)) (drop (range_start scc c) comps) ! k = members scc n c ! k"
    using comps \<open>range_start scc c + length (members scc n c) \<le> n\<close> len by simp
qed

lemma is_sorted_nth:
  assumes "\<And>i. Suc i < length xs \<Longrightarrow> xs ! i \<le> xs ! Suc i"
  shows "is_sorted (<) (xs :: nat list)"
  using assms
proof (induction xs rule: induct_list012)
  case (3 x y zs)
  have "is_sorted (<) (y # zs)"
    using "3.prems" by (intro "3.IH"(2)) fastforce
  then show ?case using "3.prems" [of 0] by (simp add: not_less)
qed simp_all

text \<open>The ranges with the guard value that the constructor appends.\<close>

lemma ranges_with_guard:
  assumes "partitioned n scc"
  defines "r \<equiv> component_ranges 0 (ts_component_size_vector scc) @ [n]"
  shows "\<forall>c \<le> get_number_of_components scc. r ! c = range_start scc c" and "length r = get_number_of_components scc + 1"
    and "Max (set r) \<le> n" and "is_sorted (<) r"
proof -
  let ?m = "get_number_of_components scc"
  show len: "length r = ?m + 1"
    by (simp add: r_def get_number_of_components_def)
  show nth: "\<forall>c \<le> ?m. r ! c = range_start scc c"
    using ranges_total [OF assms(1)] by (auto simp: r_def nth_append component_ranges_nth get_number_of_components_def)
  have "range_start scc c \<le> n" for c
    using range_start_mono [of c "max c (length (ts_component_size_vector scc))" scc] ranges_total [OF assms(1)]
    by (cases "c \<le> length (ts_component_size_vector scc)") simp_all
  then have "\<forall>x \<in> set r. x \<le> n"
    using nth len by (fastforce simp: in_set_conv_nth)
  then show "Max (set r) \<le> n"
    by (simp add: r_def)
  show "is_sorted (<) r"
    using nth len by (intro is_sorted_nth) (simp add: range_start_mono)
qed

section \<open>Properties\<close>





end
