(* ===== verification/Contraction.thy ===== *)
theory Contraction
  imports Heap_Instances Dynamic_Graph_Laws Routing_Base
begin

text \<open>
  \<^verbatim>\<open>class Contractor\<close> of \<^verbatim>\<open>contractor/contractor.hpp\<close>: the preprocessing that turns
  the road graph into a contraction hierarchy. Round by round an independent set of nodes
  is taken out of the graph; a limited Dijkstra search decides for every pair of neighbours
  of such a node whether a shortcut has to replace the way through it.

  The graph is a \<^verbatim>\<open>DynamicGraph\<close>, the heap a \<^verbatim>\<open>BinaryHeap\<close> on the hashed storage.
  Loops under \<^verbatim>\<open>tbb::parallel_for\<close> are run by one worker in the order of their range.
  \<^verbatim>\<open>tbb::parallel_sort\<close> is an argument, as are the floating-point operations on node
  priorities and the products with \<^verbatim>\<open>core_factor\<close>. Progress output is left out, and the
  counters of \<^verbatim>\<open>ContractionStats\<close> do not overflow.
\<close>

section \<open>Data\<close>

text \<open>
  \<^verbatim>\<open>distance\<close> and \<^verbatim>\<open>id\<close> are 32-bit unsigned numbers, \<^verbatim>\<open>originalEdges\<close> has 28
  bits.
\<close>

record contractor_edge_data =
  ce_distance :: int
  ce_id :: nat
  ce_originalEdges :: nat
  ce_shortcut :: bool
  ce_forward :: bool
  ce_backward :: bool
  ce_is_original_via_node_ID :: bool

definition ContractorEdgeData_default :: contractor_edge_data where
  "ContractorEdgeData_default = \<lparr>ce_distance = 0, ce_id = 0, ce_originalEdges = 0, ce_shortcut = False,
     ce_forward = False, ce_backward = False, ce_is_original_via_node_ID = False\<rparr>"

definition ContractorEdgeData :: "int \<Rightarrow> nat \<Rightarrow> nat \<Rightarrow> bool \<Rightarrow> bool \<Rightarrow> bool \<Rightarrow> contractor_edge_data" where
  "ContractorEdgeData distance original_edges i shortcut forward backward =
     \<lparr>ce_distance = distance mod 2 ^ 32, ce_id = i,
      ce_originalEdges = min (2 ^ 28) original_edges mod 2 ^ 28, ce_shortcut = shortcut,
      ce_forward = forward, ce_backward = backward, ce_is_original_via_node_ID = False\<rparr>"

record contractor_heap_data =
  ch_hop :: int
  ch_target :: bool

type_synonym contractor_graph = "contractor_edge_data dynamic_graph"
type_synonym contractor_edge = "contractor_edge_data input_edge"
type_synonym contractor_heap = "(contractor_heap_data, xor_storage) binary_heap"

text \<open>A heap owns its hash tables; they are filled when the heap is made.\<close>

record contractor_thread_data =
  td_hash :: xor_fast_hash
  td_heap :: contractor_heap
  td_inserted_edges :: "contractor_edge list"
  td_neighbours :: "NodeID list"

definition ContractorThreadData :: "xor_fast_hash \<Rightarrow> nat \<Rightarrow> contractor_thread_data" where
  "ContractorThreadData fh nodes = \<lparr>td_hash = fh, td_heap = BinaryHeap (XORFastHashStorage fh) nodes,
     td_inserted_edges = [], td_neighbours = []\<rparr>"

record contraction_stats =
  edges_deleted_count :: int
  edges_added_count :: int
  original_edges_deleted_count :: int
  original_edges_added_count :: int

definition ContractionStats :: contraction_stats where
  "ContractionStats = \<lparr>edges_deleted_count = 0, edges_added_count = 0,
     original_edges_deleted_count = 0, original_edges_added_count = 0\<rparr>"

record remaining_node_data =
  rn_id :: NodeID
  rn_is_independent :: bool

text \<open>The default entry of a graph of contractor edges.\<close>

definition contractor_entry :: "contractor_edge_data edge_entry" where
  "contractor_entry = \<lparr>ee_target = 0, ee_data = ContractorEdgeData_default\<rparr>"

text \<open>\<^verbatim>\<open>const int x = a + b\<close> where at least one of the summands is unsigned.\<close>

definition add_distance :: "int \<Rightarrow> int \<Rightarrow> int" where
  "add_distance a b = to_int32 (a + b)"

section \<open>The witness search\<close>

definition witness_relax ::
  "xor_fast_hash \<Rightarrow> contractor_graph \<Rightarrow> NodeID \<Rightarrow> int \<Rightarrow> int \<Rightarrow> EdgeID \<Rightarrow> contractor_heap \<Rightarrow> contractor_heap option" where
  "witness_relax fh g middleNode distance current_hop edge hp = do {
     data \<leftarrow> dg_GetEdgeData g edge;
     (if \<not> ce_forward data then Some hp
      else do {
        to \<leftarrow> dg_GetTarget g edge;
        (if middleNode = to then Some hp
         else do {
           let to_distance = add_distance distance (ce_distance data);
           inserted \<leftarrow> WasInserted (XORFastHashStorage fh) hp to;
           (if \<not> inserted
            then Insert (XORFastHashStorage fh) to to_distance \<lparr>ch_hop = current_hop, ch_target = False\<rparr> hp
            else do {
              (key, hp) \<leftarrow> GetKey (XORFastHashStorage fh) hp to;
              (if to_distance < key then do {
                 hp \<leftarrow> DecreaseKey (XORFastHashStorage fh) to to_distance hp;
                 d \<leftarrow> GetData (XORFastHashStorage fh) hp to;
                 SetData (XORFastHashStorage fh) hp to (d\<lparr>ch_hop := current_hop\<rparr>)
               }
               else Some hp)
            })
         })
      })
   }"

text \<open>The loop of \<^verbatim>\<open>Dijkstra\<close>; \<open>nodes\<close> counts the settled nodes. A hop count is a
  \<^verbatim>\<open>short\<close>.\<close>

function witness_loop ::
  "xor_fast_hash \<Rightarrow> contractor_graph \<Rightarrow> int \<Rightarrow> nat \<Rightarrow> nat \<Rightarrow> NodeID \<Rightarrow> nat \<Rightarrow> nat \<Rightarrow> contractor_heap
   \<Rightarrow> contractor_heap option" where
  "witness_loop fh g max_distance number_of_targets maxNodes middleNode nodes found hp =
     (if Empty hp then Some hp
      else do {
        (node, hp) \<leftarrow> DeleteMin hp;
        (distance, hp) \<leftarrow> GetKey (XORFastHashStorage fh) hp node;
        d \<leftarrow> GetData (XORFastHashStorage fh) hp node;
        let current_hop = signed_take_bit 15 (ch_hop d + 1);
        (if nodes + 1 > maxNodes then Some hp
         else if distance > max_distance then Some hp
         else if ch_target d \<and> found + 1 \<ge> number_of_targets then Some hp
         else do {
           edges \<leftarrow> dg_GetAdjacentEdgeRange g node;
           hp \<leftarrow> foldM (witness_relax fh g middleNode distance current_hop) edges hp;
           witness_loop fh g max_distance number_of_targets maxNodes middleNode (nodes + 1)
             (if ch_target d then found + 1 else found) hp
         })
      })"
  by pat_completeness auto
termination
  by (relation "measure (\<lambda>(fh, g, max_distance, number_of_targets, maxNodes, middleNode, nodes, found, hp). maxNodes - nodes)")
     auto

declare witness_loop.simps [simp del]

definition Dijkstra ::
  "contractor_graph \<Rightarrow> int \<Rightarrow> nat \<Rightarrow> nat \<Rightarrow> contractor_thread_data \<Rightarrow> NodeID \<Rightarrow> contractor_thread_data option" where
  "Dijkstra g max_distance number_of_targets maxNodes data middleNode = do {
     hp \<leftarrow> witness_loop (td_hash data) g max_distance number_of_targets maxNodes middleNode 0 0 (td_heap data);
     Some (data\<lparr>td_heap := hp\<rparr>)
   }"

section \<open>Contraction of a node\<close>

text \<open>The first loop over the outgoing edges: the targets of the search.\<close>

definition add_target ::
  "xor_fast_hash \<Rightarrow> contractor_graph \<Rightarrow> contractor_edge_data \<Rightarrow> EdgeID \<Rightarrow> contractor_heap \<times> int \<times> nat
   \<Rightarrow> (contractor_heap \<times> int \<times> nat) option" where
  "add_target fh g in_data out_edge = (\<lambda>(hp, max_distance, number_of_targets). do {
     out_data \<leftarrow> dg_GetEdgeData g out_edge;
     (if \<not> ce_forward out_data then Some (hp, max_distance, number_of_targets)
      else do {
        target \<leftarrow> dg_GetTarget g out_edge;
        let path_distance = add_distance (ce_distance in_data) (ce_distance out_data);
        let max_distance = max max_distance path_distance;
        inserted \<leftarrow> WasInserted (XORFastHashStorage fh) hp target;
        (if \<not> inserted then do {
           hp \<leftarrow> Insert (XORFastHashStorage fh) target INT_MAX \<lparr>ch_hop = 0, ch_target = True\<rparr> hp;
           Some (hp, max_distance, number_of_targets + 1)
         }
         else Some (hp, max_distance, number_of_targets))
      })
   })"

text \<open>The second one: a shortcut, or its count in a simulation, where no witness was found.\<close>

definition add_shortcut ::
  "bool \<Rightarrow> contractor_graph \<Rightarrow> NodeID \<Rightarrow> NodeID \<Rightarrow> contractor_edge_data \<Rightarrow> EdgeID
   \<Rightarrow> contractor_thread_data \<times> contraction_stats \<Rightarrow> (contractor_thread_data \<times> contraction_stats) option" where
  "add_shortcut RUNSIMULATION g node source in_data out_edge = (\<lambda>(data, stats). do {
     out_data \<leftarrow> dg_GetEdgeData g out_edge;
     (if \<not> ce_forward out_data then Some (data, stats)
      else do {
        target \<leftarrow> dg_GetTarget g out_edge;
        let path_distance = add_distance (ce_distance in_data) (ce_distance out_data);
        (distance, hp) \<leftarrow> GetKey (XORFastHashStorage (td_hash data)) (td_heap data) target;
        let data = data\<lparr>td_heap := hp\<rparr>;
        let original_edges = ce_originalEdges out_data + ce_originalEdges in_data;
        (if path_distance < distance then
           if RUNSIMULATION then
             Some (data, stats\<lparr>edges_added_count := edges_added_count stats + 2,
               original_edges_added_count := original_edges_added_count stats + 2 * int original_edges\<rparr>)
           else
             Some (data\<lparr>td_inserted_edges := td_inserted_edges data @
               [\<lparr>ie_source = source, ie_target = target,
                 ie_data = ContractorEdgeData path_distance original_edges node True True False\<rparr>,
                \<lparr>ie_source = target, ie_target = source,
                 ie_data = ContractorEdgeData path_distance original_edges node True False True\<rparr>]\<rparr>, stats)
         else Some (data, stats))
      })
   })"

definition contract_in_edge ::
  "bool \<Rightarrow> contractor_graph \<Rightarrow> NodeID \<Rightarrow> EdgeID
   \<Rightarrow> contractor_thread_data \<times> contraction_stats \<Rightarrow> (contractor_thread_data \<times> contraction_stats) option" where
  "contract_in_edge RUNSIMULATION g node in_edge = (\<lambda>(data, stats). do {
     in_data \<leftarrow> dg_GetEdgeData g in_edge;
     source \<leftarrow> dg_GetTarget g in_edge;
     let stats = (if RUNSIMULATION
       then stats\<lparr>edges_deleted_count := edges_deleted_count stats + 1,
         original_edges_deleted_count := original_edges_deleted_count stats + int (ce_originalEdges in_data)\<rparr>
       else stats);
     (if \<not> ce_backward in_data then Some (data, stats)
      else do {
        let ops = XORFastHashStorage (td_hash data);
        hp \<leftarrow> Insert ops source 0 \<lparr>ch_hop = 0, ch_target = False\<rparr> (Clear ops (td_heap data));
        out_edges \<leftarrow> dg_GetAdjacentEdgeRange g node;
        (hp, max_distance, number_of_targets) \<leftarrow>
          foldM (add_target (td_hash data) g in_data) out_edges (hp, 0, 0);
        data \<leftarrow> Dijkstra g max_distance number_of_targets (if RUNSIMULATION then 1000 else 2000)
          (data\<lparr>td_heap := hp\<rparr>) node;
        foldM (add_shortcut RUNSIMULATION g node source in_data) out_edges (data, stats)
      })
   })"

text \<open>
  The clean-up of the new edges: edge \<open>i\<close> is merged into the first later edge with the
  same end points, distance and kind, and kept where it is not.
\<close>

primrec merge_into_later ::
  "nat \<Rightarrow> nat list \<Rightarrow> contractor_edge list \<Rightarrow> (bool \<times> contractor_edge list) option" where
  "merge_into_later i [] inserted_edges = Some (False, inserted_edges)"
| "merge_into_later i (j # others) inserted_edges = do {
     other \<leftarrow> nth_opt inserted_edges j;
     edge \<leftarrow> nth_opt inserted_edges i;
     (if ie_source other \<noteq> ie_source edge then merge_into_later i others inserted_edges
      else if ie_target other \<noteq> ie_target edge then merge_into_later i others inserted_edges
      else if ce_distance (ie_data other) \<noteq> ce_distance (ie_data edge) then merge_into_later i others inserted_edges
      else if ce_shortcut (ie_data other) \<noteq> ce_shortcut (ie_data edge) then merge_into_later i others inserted_edges
      else do {
        inserted_edges \<leftarrow> upd_opt inserted_edges j (other\<lparr>ie_data := (ie_data other)\<lparr>
          ce_forward := ce_forward (ie_data other) \<or> ce_forward (ie_data edge),
          ce_backward := ce_backward (ie_data other) \<or> ce_backward (ie_data edge)\<rparr>\<rparr>);
        Some (True, inserted_edges)
      })
   }"

definition keep_unmerged :: "nat \<Rightarrow> nat \<Rightarrow> nat \<times> contractor_edge list \<Rightarrow> (nat \<times> contractor_edge list) option" where
  "keep_unmerged iend i = (\<lambda>(inserted_edges_size, inserted_edges). do {
     (found, inserted_edges) \<leftarrow> merge_into_later i [i + 1..<iend] inserted_edges;
     (if \<not> found then do {
        edge \<leftarrow> nth_opt inserted_edges i;
        inserted_edges \<leftarrow> upd_opt inserted_edges inserted_edges_size edge;
        Some (inserted_edges_size + 1, inserted_edges)
      }
      else Some (inserted_edges_size, inserted_edges))
   })"

definition ContractNode ::
  "bool \<Rightarrow> contractor_graph \<Rightarrow> contractor_thread_data \<Rightarrow> NodeID \<Rightarrow> contraction_stats
   \<Rightarrow> (contractor_thread_data \<times> contraction_stats) option" where
  "ContractNode RUNSIMULATION g data node stats = do {
     let inserted_edges_size = length (td_inserted_edges data);
     in_edges \<leftarrow> dg_GetAdjacentEdgeRange g node;
     (data, stats) \<leftarrow> foldM (contract_in_edge RUNSIMULATION g node) in_edges (data, stats);
     (if \<not> RUNSIMULATION then do {
        let iend = length (td_inserted_edges data);
        (inserted_edges_size, inserted_edges) \<leftarrow>
          foldM (keep_unmerged iend) [inserted_edges_size..<iend] (inserted_edges_size, td_inserted_edges data);
        Some (data\<lparr>td_inserted_edges := take inserted_edges_size inserted_edges\<rparr>, stats)
      }
      else Some (data, stats))
   }"

section \<open>Priorities, neighbours, independence\<close>

text \<open>
  The operations on \<^verbatim>\<open>float\<close>: the comparison, the test
  \<^verbatim>\<open>std::abs(a - b) < epsilon\<close>, the conversion of a level and the two formulas of
  \<^verbatim>\<open>EvaluateNodePriority\<close>.
\<close>

record 'p float_ops =
  fl_greater :: "'p \<Rightarrow> 'p \<Rightarrow> bool"
  fl_close :: "'p \<Rightarrow> 'p \<Rightarrow> bool"
  fl_nonneg :: "'p \<Rightarrow> bool"
  fl_of_nat :: "nat \<Rightarrow> 'p"
  fl_depth :: "int \<Rightarrow> 'p"
  fl_quotients :: "contraction_stats \<Rightarrow> int \<Rightarrow> 'p"

definition EvaluateNodePriority ::
  "'p float_ops \<Rightarrow> contractor_graph \<Rightarrow> contractor_thread_data \<Rightarrow> int \<Rightarrow> NodeID
   \<Rightarrow> ('p \<times> contractor_thread_data) option" where
  "EvaluateNodePriority fl g data depth node = do {
     (data, stats) \<leftarrow> ContractNode True g data node ContractionStats;
     let result = (if 0 = edges_deleted_count stats * original_edges_deleted_count stats
       then fl_depth fl depth else fl_quotients fl stats depth);
     assert_opt (fl_nonneg fl result);
     Some (result, data)
   }"

definition DeleteIncomingEdges ::
  "contractor_thread_data \<Rightarrow> NodeID \<Rightarrow> contractor_graph \<Rightarrow> (contractor_thread_data \<times> contractor_graph) option" where
  "DeleteIncomingEdges data node g = do {
     edges \<leftarrow> dg_GetAdjacentEdgeRange g node;
     neighbours \<leftarrow> foldM (\<lambda>e neighbours. do {
       u \<leftarrow> dg_GetTarget g e;
       Some (if u \<noteq> node then neighbours @ [u] else neighbours)
     }) edges [];
     let neighbours = remdups_adj (sort neighbours);
     g \<leftarrow> foldM (\<lambda>u g. do { (deleted, g) \<leftarrow> dg_DeleteEdgesTo u node g; Some g }) neighbours g;
     Some (data\<lparr>td_neighbours := neighbours\<rparr>, g)
   }"

definition UpdateNodeNeighbours ::
  "'p float_ops \<Rightarrow> contractor_graph \<Rightarrow> NodeID \<Rightarrow> 'p list \<times> int list \<times> contractor_thread_data
   \<Rightarrow> ('p list \<times> int list \<times> contractor_thread_data) option" where
  "UpdateNodeNeighbours fl g node = (\<lambda>(priorities, node_data, data). do {
     edges \<leftarrow> dg_GetAdjacentEdgeRange g node;
     (neighbours, node_data) \<leftarrow> foldM (\<lambda>e (neighbours, node_data). do {
       u \<leftarrow> dg_GetTarget g e;
       (if u = node then Some (neighbours, node_data)
        else do {
          depth_node \<leftarrow> nth_opt node_data node;
          depth_u \<leftarrow> nth_opt node_data u;
          node_data \<leftarrow> upd_opt node_data u (max (depth_node + 1) depth_u);
          Some (neighbours @ [u], node_data)
        })
     }) edges ([], node_data);
     let neighbours = remdups_adj (sort neighbours);
     let data = data\<lparr>td_neighbours := neighbours\<rparr>;
     (priorities, data) \<leftarrow> foldM (\<lambda>u (priorities, data). do {
       depth \<leftarrow> nth_opt node_data u;
       (priority, data) \<leftarrow> EvaluateNodePriority fl g data depth u;
       priorities \<leftarrow> upd_opt priorities u priority;
       Some (priorities, data)
     }) neighbours (priorities, data);
     Some (priorities, node_data, data)
   })"

text \<open>The result of \<^verbatim>\<open>operator()\<close> of the hash is an \<^verbatim>\<open>unsigned short\<close>.\<close>

definition bias :: "xor_fast_hash \<Rightarrow> NodeID \<Rightarrow> NodeID \<Rightarrow> bool" where
  "bias fast_hash a b =
     (let hasha = xor_fast_hash fast_hash a; hashb = xor_fast_hash fast_hash b
      in if hasha \<noteq> hashb then hasha < hashb else a < b)"

text \<open>
  One of the two loops of \<^verbatim>\<open>IsNodeIndependent\<close>: \<open>None\<close> inside stands for
  \<^verbatim>\<open>return false\<close>, otherwise the targets other than the node itself. The function
  uses the vector \<^verbatim>\<open>neighbours\<close> of the worker as scratch space; here it is local.
\<close>

primrec lower_neighbour_loop ::
  "'p float_ops \<Rightarrow> xor_fast_hash \<Rightarrow> contractor_graph \<Rightarrow> 'p list \<Rightarrow> NodeID \<Rightarrow> 'p \<Rightarrow> EdgeID list \<Rightarrow> NodeID list
   \<Rightarrow> NodeID list option option" where
  "lower_neighbour_loop fl fast_hash g priorities node priority [] neighbours = Some (Some neighbours)"
| "lower_neighbour_loop fl fast_hash g priorities node priority (e # edges) neighbours = do {
     target \<leftarrow> dg_GetTarget g e;
     (if node = target then lower_neighbour_loop fl fast_hash g priorities node priority edges neighbours
      else do {
        target_priority \<leftarrow> nth_opt priorities target;
        assert_opt (fl_nonneg fl target_priority);
        (if fl_greater fl priority target_priority then Some None
         else if fl_close fl priority target_priority \<and> bias fast_hash node target then Some None
         else lower_neighbour_loop fl fast_hash g priorities node priority edges (neighbours @ [target]))
      })
   }"

primrec two_hops_loop ::
  "'p float_ops \<Rightarrow> xor_fast_hash \<Rightarrow> contractor_graph \<Rightarrow> 'p list \<Rightarrow> NodeID \<Rightarrow> 'p \<Rightarrow> NodeID list \<Rightarrow> bool option" where
  "two_hops_loop fl fast_hash g priorities node priority [] = Some True"
| "two_hops_loop fl fast_hash g priorities node priority (u # neighbours) = do {
     edges \<leftarrow> dg_GetAdjacentEdgeRange g u;
     r \<leftarrow> lower_neighbour_loop fl fast_hash g priorities node priority edges [];
     (case r of None \<Rightarrow> Some False
      | Some _ \<Rightarrow> two_hops_loop fl fast_hash g priorities node priority neighbours)
   }"

definition IsNodeIndependent ::
  "'p float_ops \<Rightarrow> xor_fast_hash \<Rightarrow> contractor_graph \<Rightarrow> 'p list \<Rightarrow> NodeID \<Rightarrow> bool option" where
  "IsNodeIndependent fl fast_hash g priorities node = do {
     priority \<leftarrow> nth_opt priorities node;
     edges \<leftarrow> dg_GetAdjacentEdgeRange g node;
     r \<leftarrow> lower_neighbour_loop fl fast_hash g priorities node priority edges [];
     (case r of None \<Rightarrow> Some False
      | Some neighbours \<Rightarrow>
          two_hops_loop fl fast_hash g priorities node priority (remdups_adj (sort neighbours)))
   }"

section \<open>Construction of the graph\<close>

record edge_based_edge =
  be_source :: NodeID
  be_target :: NodeID
  be_edge_id :: NodeID
  be_weight :: EdgeWeight
  be_forward :: bool
  be_backward :: bool

text \<open>Every input edge is stored at both of its ends.\<close>

definition import_edge :: "edge_based_edge \<Rightarrow> contractor_edge list" where
  "import_edge e =
     [\<lparr>ie_source = be_source e, ie_target = be_target e,
       ie_data = ContractorEdgeData (max (be_weight e) 1) 1 (be_edge_id e) False (be_forward e) (be_backward e)\<rparr>,
      \<lparr>ie_source = be_target e, ie_target = be_source e,
       ie_data = ContractorEdgeData (max (be_weight e) 1) 1 (be_edge_id e) False (be_backward e) (be_forward e)\<rparr>]"

text \<open>The inner loop over parallel edges: the least distance in either direction.\<close>

function merge_parallel ::
  "contractor_edge list \<Rightarrow> NodeID \<Rightarrow> NodeID \<Rightarrow> nat \<Rightarrow> int \<Rightarrow> int \<Rightarrow> nat \<times> int \<times> int" where
  "merge_parallel edges source target i forward_distance reverse_distance =
     (if i < length edges \<and> ie_source (edges ! i) = source \<and> ie_target (edges ! i) = target
      then let data = ie_data (edges ! i) in
        merge_parallel edges source target (i + 1)
          (if ce_forward data then min (ce_distance data) forward_distance else forward_distance)
          (if ce_backward data then min (ce_distance data) reverse_distance else reverse_distance)
      else (i, forward_distance, reverse_distance))"
  by pat_completeness auto
termination
  by (relation "measure (\<lambda>(edges, source, target, i, f, r). length edges - i)") auto

declare merge_parallel.simps [simp del]

lemma merge_parallel_position: "i \<le> fst (merge_parallel edges source target i f r)"
  by (induction edges source target i f r rule: merge_parallel.induct)
     (subst merge_parallel.simps, auto simp: Let_def)

lemma merge_parallel_progress:
  assumes "i < length edges"
  shows "i < fst (merge_parallel edges (ie_source (edges ! i)) (ie_target (edges ! i)) i f r)"
  using assms merge_parallel_position [of "i + 1" edges]
  by (subst merge_parallel.simps) (auto simp: Let_def Suc_le_eq)

text \<open>A merged edge; \<^verbatim>\<open>edges[edge++] = e\<close>.\<close>

definition merged_edge :: "NodeID \<Rightarrow> NodeID \<Rightarrow> nat \<Rightarrow> int \<Rightarrow> bool \<Rightarrow> bool \<Rightarrow> contractor_edge" where
  "merged_edge source target i distance forward backward =
     \<lparr>ie_source = source, ie_target = target,
      ie_data = \<lparr>ce_distance = distance, ce_id = i, ce_originalEdges = 1, ce_shortcut = False,
        ce_forward = forward, ce_backward = backward, ce_is_original_via_node_ID = False\<rparr>\<rparr>"

definition put_edge :: "contractor_edge \<Rightarrow> contractor_edge list \<times> nat \<Rightarrow> (contractor_edge list \<times> nat) option" where
  "put_edge e = (\<lambda>(edges, edge). do { edges \<leftarrow> upd_opt edges edge e; Some (edges, edge + 1) })"

definition emit_merged ::
  "NodeID \<Rightarrow> NodeID \<Rightarrow> nat \<Rightarrow> int \<Rightarrow> int \<Rightarrow> contractor_edge list \<times> nat \<Rightarrow> (contractor_edge list \<times> nat) option" where
  "emit_merged source target i forward_distance reverse_distance s =
     (if forward_distance = reverse_distance then
        if to_int32 forward_distance \<noteq> INT_MAX
        then put_edge (merged_edge source target i forward_distance True True) s
        else Some s
      else do {
        s \<leftarrow> (if to_int32 forward_distance \<noteq> INT_MAX
          then put_edge (merged_edge source target i forward_distance True False) s else Some s);
        (if to_int32 reverse_distance \<noteq> INT_MAX
         then put_edge (merged_edge source target i reverse_distance False True) s else Some s)
      })"

lemma emit_merged_length:
  "emit_merged source target i f r (edges, edge) = Some (edges', edge') \<Longrightarrow> length edges' = length edges"
  by (auto simp: emit_merged_def put_edge_def upd_opt_Some_iff split: if_splits bind_splits)

function merge_edges :: "contractor_edge list \<Rightarrow> nat \<Rightarrow> nat \<Rightarrow> (contractor_edge list \<times> nat) option" where
  "merge_edges edges edge i =
     (if i < length edges then
        let source = ie_source (edges ! i); target = ie_target (edges ! i)
        in if source = target then merge_edges edges edge (i + 1)
           else case merge_parallel edges source target i INT_MAX INT_MAX of
             (j, forward_distance, reverse_distance) \<Rightarrow> do {
               (edges', edge) \<leftarrow> emit_merged source target (ce_id (ie_data (edges ! i)))
                 forward_distance reverse_distance (edges, edge);
               merge_edges edges' edge j
             }
      else Some (edges, edge))"
  by pat_completeness auto
termination
proof (relation "measure (\<lambda>(edges, edge, i). length edges - i)", goal_cases)
  case (3 edges edge i source target j y f r a edges' edge')
  then have "i < j" and "length edges' = length edges"
    using merge_parallel_progress [of i edges INT_MAX INT_MAX]
      emit_merged_length [of source target "ce_id (ie_data (edges ! i))" f r edges edge edges' edge']
    by (metis fst_conv, metis)
  with 3(1) show ?case
    by simp
qed auto

declare merge_edges.simps [simp del]

text \<open>The object; \<open>'p\<close> is the type of the node levels.\<close>

record 'p contractor =
  ct_contractor_graph :: contractor_graph
  ct_external_edge_list :: "query_edge_data input_edge list"
  ct_orig_node_id_from_new_node_id_map :: "NodeID list"
  ct_node_levels :: "'p list"
  ct_is_core_node :: "bool list"

definition Contractor ::
  "(contractor_edge list \<Rightarrow> contractor_edge list) \<Rightarrow> nat \<Rightarrow> edge_based_edge list \<Rightarrow> 'p list \<Rightarrow> 'p contractor option" where
  "Contractor parallel_sort nodes input_edge_list node_levels = do {
     let edges = parallel_sort (concat (map import_edge input_edge_list));
     (edges, edge) \<leftarrow> merge_edges edges 0 0;
     g \<leftarrow> DynamicGraph contractor_entry nodes (take edge edges);
     Some \<lparr>ct_contractor_graph = g, ct_external_edge_list = [], ct_orig_node_id_from_new_node_id_map = [],
       ct_node_levels = node_levels, ct_is_core_node = []\<rparr>
   }"

section \<open>Run\<close>

text \<open>The conversion to \<^verbatim>\<open>QueryEdge::EdgeData\<close>, whose bit fields are narrower.\<close>

definition QueryEdge_EdgeData :: "contractor_edge_data \<Rightarrow> query_edge_data" where
  "QueryEdge_EdgeData other = \<lparr>qe_id = ce_id other mod 2 ^ 31, qe_shortcut = ce_shortcut other,
     qe_distance = signed_take_bit 29 (ce_distance other), qe_forward = ce_forward other,
     qe_backward = ce_backward other\<rparr>"

text \<open>The local variables of \<^verbatim>\<open>Run\<close> together with the object.\<close>

record 'p run_state =
  rs_contractor :: "'p contractor"
  rs_thread :: contractor_thread_data
  rs_remaining_nodes :: "remaining_node_data list"
  rs_node_data :: "int list"
  rs_node_priorities :: "'p list"
  rs_number_of_contracted_nodes :: nat
  rs_current_level :: nat
  rs_flushed_contractor :: bool

definition evaluate_all ::
  "'p float_ops \<Rightarrow> contractor_graph \<Rightarrow> int list \<Rightarrow> NodeID list \<Rightarrow> 'p list \<times> contractor_thread_data
   \<Rightarrow> ('p list \<times> contractor_thread_data) option" where
  "evaluate_all fl g node_data = foldM (\<lambda>x (node_priorities, data). do {
     depth \<leftarrow> nth_opt node_data x;
     (priority, data) \<leftarrow> EvaluateNodePriority fl g data depth x;
     node_priorities \<leftarrow> upd_opt node_priorities x priority;
     Some (node_priorities, data)
   })"

definition run_init :: "'p float_ops \<Rightarrow> xor_fast_hash \<Rightarrow> 'p contractor \<Rightarrow> 'p run_state option" where
  "run_init fl fh c = do {
     let g = ct_contractor_graph c;
     let number_of_nodes = dg_number_of_nodes g;
     let is_core_node = take number_of_nodes (ct_is_core_node c)
       @ replicate (number_of_nodes - length (ct_is_core_node c)) False;
     let remaining_nodes = map (\<lambda>x. \<lparr>rn_id = x mod 2 ^ 31, rn_is_independent = False\<rparr>) [0..<number_of_nodes];
     let data = ContractorThreadData fh number_of_nodes;
     (node_priorities, node_levels, node_data, data) \<leftarrow>
       (if ct_node_levels c \<noteq> [] then Some (ct_node_levels c, [], [], data)
        else do {
          let node_data = replicate number_of_nodes 0;
          (node_priorities, data) \<leftarrow> evaluate_all fl g node_data [0..<number_of_nodes]
            (replicate number_of_nodes (fl_of_nat fl 0), data);
          Some (node_priorities, replicate number_of_nodes (fl_of_nat fl 0), node_data, data)
        });
     assert_opt (length node_priorities = number_of_nodes);
     Some \<lparr>rs_contractor = c\<lparr>ct_node_levels := node_levels, ct_is_core_node := is_core_node\<rparr>,
       rs_thread = data, rs_remaining_nodes = remaining_nodes, rs_node_data = node_data,
       rs_node_priorities = node_priorities, rs_number_of_contracted_nodes = 0, rs_current_level = 0,
       rs_flushed_contractor = False\<rparr>
   }"

text \<open>
  The flush: the remaining nodes are renumbered, the edges of contracted nodes go to the
  external list and the others to a new graph.
\<close>

definition renumber_node ::
  "nat \<Rightarrow> NodeID list \<times> NodeID list \<times> remaining_node_data list
   \<Rightarrow> (NodeID list \<times> NodeID list \<times> remaining_node_data list) option" where
  "renumber_node new_node_id = (\<lambda>(orig_map, new_map, remaining_nodes). do {
     node \<leftarrow> nth_opt remaining_nodes new_node_id;
     orig_map \<leftarrow> upd_opt orig_map new_node_id (rn_id node);
     new_map \<leftarrow> upd_opt new_map (rn_id node) new_node_id;
     remaining_nodes \<leftarrow> upd_opt remaining_nodes new_node_id (node\<lparr>rn_id := new_node_id mod 2 ^ 31\<rparr>);
     Some (orig_map, new_map, remaining_nodes)
   })"

definition flush_edge ::
  "contractor_graph \<Rightarrow> NodeID list \<Rightarrow> NodeID \<Rightarrow> EdgeID
   \<Rightarrow> query_edge_data input_edge list \<times> contractor_edge list
   \<Rightarrow> (query_edge_data input_edge list \<times> contractor_edge list) option" where
  "flush_edge g new_map source current_edge = (\<lambda>(external_edge_list, new_edge_set). do {
     data \<leftarrow> dg_GetEdgeData g current_edge;
     target \<leftarrow> dg_GetTarget g current_edge;
     new_source \<leftarrow> nth_opt new_map source;
     (if SPECIAL_NODEID = new_source then
        Some (external_edge_list @ [\<lparr>ie_source = source, ie_target = target, ie_data = QueryEdge_EdgeData data\<rparr>],
          new_edge_set)
      else do {
        new_target \<leftarrow> nth_opt new_map target;
        assert_opt (UINT_MAX \<noteq> new_source);
        assert_opt (UINT_MAX \<noteq> new_target);
        Some (external_edge_list, new_edge_set @
          [\<lparr>ie_source = new_source, ie_target = new_target, ie_data = data\<lparr>ce_is_original_via_node_ID := True\<rparr>\<rparr>])
      })
   })"

definition run_flush ::
  "(contractor_edge list \<Rightarrow> contractor_edge list) \<Rightarrow> xor_fast_hash \<Rightarrow> nat \<Rightarrow> 'p run_state \<Rightarrow> 'p run_state option" where
  "run_flush parallel_sort fh number_of_nodes s = do {
     let remaining_nodes = rs_remaining_nodes s;
     let c = rs_contractor s;
     let g = ct_contractor_graph c;
     let count = length remaining_nodes;
     new_node_priority \<leftarrow> foldM (\<lambda>i prios. do {
       node \<leftarrow> nth_opt remaining_nodes i;
       p \<leftarrow> nth_opt (rs_node_priorities s) (rn_id node);
       Some (prios @ [p])
     }) [0..<count] [];
     (orig_map, new_map, remaining_nodes) \<leftarrow> foldM renumber_node [0..<count]
       (take count (ct_orig_node_id_from_new_node_id_map c)
          @ replicate (count - length (ct_orig_node_id_from_new_node_id_map c)) 0,
        replicate number_of_nodes UINT_MAX, remaining_nodes);
     (external_edge_list, new_edge_set) \<leftarrow> foldM (\<lambda>source lists. do {
       edges \<leftarrow> dg_GetAdjacentEdgeRange g source;
       foldM (flush_edge g new_map source) edges lists
     }) [0..<dg_number_of_nodes g] (ct_external_edge_list c, []);
     g \<leftarrow> DynamicGraph contractor_entry count (parallel_sort new_edge_set);
     Some (s\<lparr>rs_contractor := c\<lparr>ct_contractor_graph := g, ct_external_edge_list := external_edge_list,
         ct_orig_node_id_from_new_node_id_map := orig_map\<rparr>,
       rs_thread := ContractorThreadData fh (dg_number_of_nodes g), rs_remaining_nodes := remaining_nodes,
       rs_node_priorities := new_node_priority, rs_flushed_contractor := True\<rparr>)
   }"

text \<open>The steps of a round.\<close>

definition mark_independent ::
  "'p float_ops \<Rightarrow> xor_fast_hash \<Rightarrow> contractor_graph \<Rightarrow> 'p list \<Rightarrow> remaining_node_data list
   \<Rightarrow> remaining_node_data list option" where
  "mark_independent fl fast_hash g node_priorities remaining_nodes = foldM (\<lambda>i remaining_nodes. do {
     node \<leftarrow> nth_opt remaining_nodes i;
     b \<leftarrow> IsNodeIndependent fl fast_hash g node_priorities (rn_id node);
     upd_opt remaining_nodes i (node\<lparr>rn_is_independent := b\<rparr>)
   }) [0..<length remaining_nodes] remaining_nodes"

definition write_levels :: "'p float_ops \<Rightarrow> nat \<Rightarrow> bool \<Rightarrow> NodeID list \<Rightarrow> NodeID list \<Rightarrow> 'p list \<Rightarrow> 'p list option" where
  "write_levels fl current_level flushed_contractor orig_map = foldM (\<lambda>x node_levels. do {
     x \<leftarrow> (if flushed_contractor then nth_opt orig_map x else Some x);
     upd_opt node_levels x (fl_of_nat fl current_level)
   })"

definition contract_all ::
  "contractor_graph \<Rightarrow> NodeID list \<Rightarrow> contractor_thread_data \<Rightarrow> contractor_thread_data option" where
  "contract_all g = foldM (\<lambda>x data. do {
     (data, stats) \<leftarrow> ContractNode False g data x ContractionStats;
     Some data
   })"

definition delete_all ::
  "NodeID list \<Rightarrow> contractor_thread_data \<times> contractor_graph \<Rightarrow> (contractor_thread_data \<times> contractor_graph) option" where
  "delete_all = foldM (\<lambda>x (data, g). DeleteIncomingEdges data x g)"

definition insert_shortcut :: "contractor_edge \<Rightarrow> contractor_graph \<Rightarrow> contractor_graph option" where
  "insert_shortcut edge g = do {
     current_edge_ID \<leftarrow> dg_FindEdge g (ie_source edge) (ie_target edge);
     past \<leftarrow> dg_EndEdges g (ie_source edge);
     better \<leftarrow> (if current_edge_ID < past then do {
         current_data \<leftarrow> dg_GetEdgeData g current_edge_ID;
         Some (ce_shortcut current_data \<and> ce_forward (ie_data edge) = ce_forward current_data
           \<and> ce_backward (ie_data edge) = ce_backward current_data
           \<and> ce_distance (ie_data edge) < ce_distance current_data)
       }
       else Some False);
     (if better then dg_SetEdgeData g current_edge_ID (ie_data edge)
      else do {
        (e, g) \<leftarrow> dg_InsertEdge contractor_entry (ie_source edge) (ie_target edge) (ie_data edge) g;
        Some g
      })
   }"

definition update_all ::
  "'p float_ops \<Rightarrow> contractor_graph \<Rightarrow> NodeID list \<Rightarrow> 'p list \<times> int list \<times> contractor_thread_data
   \<Rightarrow> ('p list \<times> int list \<times> contractor_thread_data) option" where
  "update_all fl g = foldM (UpdateNodeNeighbours fl g)"

text \<open>What a round does to the graph when it contracts \<open>nodes\<close>.\<close>

definition contract_graph ::
  "(contractor_edge list \<Rightarrow> contractor_edge list) \<Rightarrow> NodeID list \<Rightarrow> contractor_thread_data \<times> contractor_graph
   \<Rightarrow> (contractor_thread_data \<times> contractor_graph) option" where
  "contract_graph parallel_sort nodes = (\<lambda>(data, g). do {
     data \<leftarrow> contract_all g nodes data;
     (data, g) \<leftarrow> delete_all nodes (data, g);
     g \<leftarrow> foldM insert_shortcut (parallel_sort (td_inserted_edges data)) g;
     Some (data\<lparr>td_inserted_edges := []\<rparr>, g)
   })"

definition run_round ::
  "'p float_ops \<Rightarrow> (contractor_edge list \<Rightarrow> contractor_edge list) \<Rightarrow> xor_fast_hash \<Rightarrow> bool \<Rightarrow> 'p run_state
   \<Rightarrow> 'p run_state option" where
  "run_round fl parallel_sort fast_hash use_cached_node_priorities s = do {
     let c = rs_contractor s;
     remaining_nodes \<leftarrow> mark_independent fl fast_hash (ct_contractor_graph c) (rs_node_priorities s) (rs_remaining_nodes s);
     let kept = filter (\<lambda>node. \<not> rn_is_independent node) remaining_nodes;
     let nodes = map rn_id (filter rn_is_independent remaining_nodes);
     node_levels \<leftarrow> (if \<not> use_cached_node_priorities
       then write_levels fl (rs_current_level s) (rs_flushed_contractor s)
         (ct_orig_node_id_from_new_node_id_map c) nodes (ct_node_levels c)
       else Some (ct_node_levels c));
     (data, g) \<leftarrow> contract_graph parallel_sort nodes (rs_thread s, ct_contractor_graph c);
     (node_priorities, node_data, data) \<leftarrow> (if \<not> use_cached_node_priorities
       then update_all fl g nodes (rs_node_priorities s, rs_node_data s, data)
       else Some (rs_node_priorities s, rs_node_data s, data));
     Some (s\<lparr>rs_contractor := c\<lparr>ct_contractor_graph := g, ct_node_levels := node_levels\<rparr>, rs_thread := data,
       rs_remaining_nodes := kept, rs_node_data := node_data, rs_node_priorities := node_priorities,
       rs_number_of_contracted_nodes := rs_number_of_contracted_nodes s + length nodes,
       rs_current_level := rs_current_level s + 1\<rparr>)
   }"

text \<open>
  The main loop. \<open>core_nodes\<close> is \<^verbatim>\<open>static_cast<NodeID>(number_of_nodes * core_factor)\<close>
  and \<open>flush_nodes\<close> the corresponding number with the factor 0.65.
\<close>

partial_function (option) run_loop ::
  "'p float_ops \<Rightarrow> (contractor_edge list \<Rightarrow> contractor_edge list) \<Rightarrow> xor_fast_hash \<Rightarrow> xor_fast_hash \<Rightarrow> bool
   \<Rightarrow> nat \<Rightarrow> nat \<Rightarrow> nat \<Rightarrow> 'p run_state \<Rightarrow> 'p run_state option" where
  "run_loop fl parallel_sort fh fast_hash use_cached number_of_nodes core_nodes flush_nodes s =
     (if number_of_nodes > 2 \<and> rs_number_of_contracted_nodes s < core_nodes then do {
        s \<leftarrow> (if \<not> rs_flushed_contractor s \<and> rs_number_of_contracted_nodes s > flush_nodes
          then run_flush parallel_sort fh number_of_nodes s else Some s);
        s \<leftarrow> run_round fl parallel_sort fast_hash use_cached s;
        run_loop fl parallel_sort fh fast_hash use_cached number_of_nodes core_nodes flush_nodes s
      }
      else Some s)"

definition run_core_markers :: "'p run_state \<Rightarrow> 'p contractor option" where
  "run_core_markers s = (let c = rs_contractor s; orig_map = ct_orig_node_id_from_new_node_id_map c in
     if length (rs_remaining_nodes s) > 2 then do {
       is_core_node \<leftarrow> foldM (\<lambda>node is_core_node. do {
         x \<leftarrow> (if length orig_map > 0 then nth_opt orig_map (rn_id node) else Some (rn_id node));
         upd_opt is_core_node x True
       }) (rs_remaining_nodes s) (ct_is_core_node c);
       Some (c\<lparr>ct_is_core_node := is_core_node\<rparr>)
     }
     else Some (c\<lparr>ct_is_core_node := []\<rparr>))"

text \<open>\<open>fh1\<close> and \<open>fh2\<close> are the tables of the heaps made before and after the flush.\<close>

definition Run ::
  "'p float_ops \<Rightarrow> (contractor_edge list \<Rightarrow> contractor_edge list) \<Rightarrow> xor_fast_hash \<Rightarrow> xor_fast_hash \<Rightarrow> xor_fast_hash
   \<Rightarrow> (nat \<Rightarrow> nat) \<Rightarrow> (nat \<Rightarrow> nat) \<Rightarrow> 'p contractor \<Rightarrow> 'p contractor option" where
  "Run fl parallel_sort fh1 fh2 fast_hash core_nodes flush_nodes c = do {
     let number_of_nodes = dg_number_of_nodes (ct_contractor_graph c);
     s \<leftarrow> run_init fl fh1 c;
     s \<leftarrow> run_loop fl parallel_sort fh2 fast_hash (ct_node_levels c \<noteq> []) number_of_nodes
       (core_nodes number_of_nodes) (flush_nodes number_of_nodes) s;
     run_core_markers s
   }"

section \<open>Results\<close>

definition GetCoreMarker :: "'p contractor \<Rightarrow> bool list \<Rightarrow> bool list \<times> 'p contractor" where
  "GetCoreMarker c out_is_core_node = (ct_is_core_node c, c\<lparr>ct_is_core_node := out_is_core_node\<rparr>)"

definition GetNodeLevels :: "'p contractor \<Rightarrow> 'p list \<Rightarrow> 'p list \<times> 'p contractor" where
  "GetNodeLevels c out_node_levels = (ct_node_levels c, c\<lparr>ct_node_levels := out_node_levels\<rparr>)"

definition output_edge ::
  "contractor_graph \<Rightarrow> NodeID list \<Rightarrow> NodeID \<Rightarrow> EdgeID \<Rightarrow> query_edge_data input_edge list
   \<Rightarrow> query_edge_data input_edge list option" where
  "output_edge g orig_map node edge edges = do {
     target \<leftarrow> dg_GetTarget g edge;
     data \<leftarrow> dg_GetEdgeData g edge;
     new_source \<leftarrow> (if orig_map \<noteq> [] then nth_opt orig_map node else Some node);
     new_target \<leftarrow> (if orig_map \<noteq> [] then nth_opt orig_map target else Some target);
     assert_opt (UINT_MAX \<noteq> new_source);
     assert_opt (UINT_MAX \<noteq> new_target);
     i \<leftarrow> (if \<not> ce_is_original_via_node_ID data \<and> orig_map \<noteq> [] then nth_opt orig_map (ce_id data)
       else Some (ce_id data));
     let new_data = QueryEdge_EdgeData (data\<lparr>ce_id := i\<rparr>);
     assert_opt (int (qe_id new_data) \<noteq> INT_MAX);
     Some (edges @ [\<lparr>ie_source = new_source, ie_target = new_target, ie_data = new_data\<rparr>])
   }"

text \<open>The graph is released as well; the object holds no graph afterwards.\<close>

definition GetEdges ::
  "'p contractor \<Rightarrow> query_edge_data input_edge list \<Rightarrow> (query_edge_data input_edge list \<times> 'p contractor) option" where
  "GetEdges c edges = do {
     let g = ct_contractor_graph c;
     edges \<leftarrow> foldM (\<lambda>node edges. do {
       range \<leftarrow> dg_GetAdjacentEdgeRange g node;
       foldM (output_edge g (ct_orig_node_id_from_new_node_id_map c) node) range edges
     }) [0..<dg_number_of_nodes g] edges;
     Some (edges @ ct_external_edge_list c,
       c\<lparr>ct_orig_node_id_from_new_node_id_map := [], ct_external_edge_list := []\<rparr>)
   }"

end
