(* ===== verification/Witness_Search.thy ===== *)
theory Witness_Search
  imports Contraction
begin

text \<open>
  The limited Dijkstra search of the contractor. Every label it leaves in the heap is the
  length of a way that does not enter the node to be contracted, or the initial label of a
  target; the search never runs off the heap, the hash table or the graph as long as the
  degrees are moderate and the weights leave room for three of them in an \<^verbatim>\<open>int\<close>.
\<close>

section \<open>Edges and walks\<close>

text \<open>
  A forward entry at \<open>u\<close> is an edge from \<open>u\<close>, a backward entry at \<open>u\<close> is an edge
  towards \<open>u\<close>.
\<close>

definition fedge :: "contractor_graph \<Rightarrow> NodeID \<Rightarrow> NodeID \<Rightarrow> int \<Rightarrow> bool" where
  "fedge g u v w \<longleftrightarrow> u < dg_number_of_nodes g \<and> (\<exists>x \<in> set (dg_out g u). ee_target x = v
     \<and> ce_forward (ee_data x) \<and> ce_distance (ee_data x) = w)"

definition bedge :: "contractor_graph \<Rightarrow> NodeID \<Rightarrow> NodeID \<Rightarrow> int \<Rightarrow> bool" where
  "bedge g u v w \<longleftrightarrow> u < dg_number_of_nodes g \<and> (\<exists>x \<in> set (dg_out g u). ee_target x = v
     \<and> ce_backward (ee_data x) \<and> ce_distance (ee_data x) = w)"

inductive walk :: "(NodeID \<Rightarrow> NodeID \<Rightarrow> int \<Rightarrow> bool) \<Rightarrow> NodeID \<Rightarrow> NodeID \<Rightarrow> int \<Rightarrow> bool"
  for E :: "NodeID \<Rightarrow> NodeID \<Rightarrow> int \<Rightarrow> bool" where
  walk_refl [intro!, simp]: "walk E u u 0"
| walk_step: "walk E u v d \<Longrightarrow> E v w c \<Longrightarrow> walk E u w (d + c)"

lemma walk_edge: "E u v c \<Longrightarrow> walk E u v c"
  using walk_step [OF walk_refl, of E u v c] by simp

lemma walk_trans: "walk E u v d \<Longrightarrow> walk E v w e \<Longrightarrow> walk E u w (d + e)"
  by (rotate_tac, induction rule: walk.induct) (auto simp: add.assoc [symmetric] intro: walk_step)

lemma walk_mono:
  assumes "walk E u v d" and "\<And>a b c. E a b c \<Longrightarrow> F a b c"
  shows "walk F u v d"
  using assms by (induction rule: walk.induct) (auto intro: walk_step)

text \<open>The edges that the search for witnesses around \<open>mid\<close> may use.\<close>

definition around :: "contractor_graph \<Rightarrow> NodeID \<Rightarrow> NodeID \<Rightarrow> NodeID \<Rightarrow> int \<Rightarrow> bool" where
  "around g mid u v w \<longleftrightarrow> fedge g u v w \<and> v \<noteq> mid"

lemma around_fedge: "walk (around g mid) u v d \<Longrightarrow> walk (fedge g) u v d"
  by (erule walk_mono) (simp add: around_def)

section \<open>Graphs the contractor can handle\<close>

definition weight_limit :: int where
  "weight_limit = INT_MAX div 3"

definition cg_ok :: "nat \<Rightarrow> contractor_graph \<Rightarrow> bool" where
  "cg_ok deg g \<longleftrightarrow> dg_ok g \<and> (\<forall>v < dg_number_of_nodes g. length (dg_out g v) \<le> deg
     \<and> (\<forall>x \<in> set (dg_out g v). ee_target x \<noteq> v
          \<and> 0 < ce_distance (ee_data x) \<and> ce_distance (ee_data x) \<le> weight_limit))"

lemma cg_okD:
  assumes "cg_ok deg g"
  shows "dg_ok g" and "v < dg_number_of_nodes g \<Longrightarrow> length (dg_out g v) \<le> deg"
    and "v < dg_number_of_nodes g \<Longrightarrow> x \<in> set (dg_out g v) \<Longrightarrow> ee_target x < dg_number_of_nodes g"
    and "v < dg_number_of_nodes g \<Longrightarrow> x \<in> set (dg_out g v) \<Longrightarrow> ee_target x \<noteq> v"
    and "v < dg_number_of_nodes g \<Longrightarrow> x \<in> set (dg_out g v) \<Longrightarrow> 0 < ce_distance (ee_data x)"
    and "v < dg_number_of_nodes g \<Longrightarrow> x \<in> set (dg_out g v) \<Longrightarrow> ce_distance (ee_data x) \<le> weight_limit"
  using assms dg_okD(3) by (auto simp: cg_ok_def)

lemma fedgeD:
  assumes "cg_ok deg g" and "fedge g u v w"
  shows "u < dg_number_of_nodes g" and "v < dg_number_of_nodes g" and "u \<noteq> v" and "0 < w" and "w \<le> weight_limit"
  using assms cg_okD(3-6) [OF assms(1)] by (auto simp: fedge_def)

lemma walk_nonneg: "cg_ok deg g \<Longrightarrow> walk (fedge g) u v d \<Longrightarrow> 0 \<le> d"
  by (rotate_tac, induction rule: walk.induct) (auto dest: fedgeD(4))

text \<open>The edge range of a node and what is read at its positions.\<close>

definition dg_range :: "'d dynamic_graph \<Rightarrow> NodeID \<Rightarrow> EdgeID list" where
  "dg_range g v = [first_of g v..<past_of g v]"

lemma dg_range:
  assumes "dg_ok g" and "v < dg_number_of_nodes g"
  shows "dg_GetAdjacentEdgeRange g v = Some (dg_range g v)"
    and "i \<in> set (dg_range g v) \<Longrightarrow> dg_GetEdgeData g i = Some (ee_data (dg_edge_list g ! i))"
    and "i \<in> set (dg_range g v) \<Longrightarrow> dg_GetTarget g i = Some (ee_target (dg_edge_list g ! i))"
    and "i \<in> set (dg_range g v) \<Longrightarrow> dg_edge_list g ! i \<in> set (dg_out g v)"
    and "map ((!) (dg_edge_list g)) (dg_range g v) = dg_out g v"
    and "length (dg_range g v) = length (dg_out g v)"
  using dg_okD(1,2) [OF assms]
  by (auto simp: dg_range_def dg_GetAdjacentEdgeRange_def dg_BeginEdges_def dg_EndEdges_def dg_GetEdgeData_def
      dg_GetTarget_def dg_out_def set_seg seg_def)

section \<open>The heap of the contractor\<close>

abbreviation cinv :: "xor_fast_hash \<Rightarrow> contractor_heap \<Rightarrow> bool" where
  "cinv fh h \<equiv> heap_inv (XORFastHashStorage fh) (xor_ok fh) h"

abbreviation label :: "contractor_heap \<Rightarrow> NodeID \<Rightarrow> int" where
  "label h v \<equiv> the (heap_keys h v)"

abbreviation settled :: "contractor_heap \<Rightarrow> NodeID set" where
  "settled h \<equiv> heap_nodes h - heap_queue h"

text \<open>How often the heap can be cleared before the time stamp of its storage wraps around.\<close>

definition clears_left :: "contractor_heap \<Rightarrow> nat \<Rightarrow> bool" where
  "clears_left h c \<longleftrightarrow> xs_current_timestamp (node_index h) + c < UINT_MAX"

definition extends :: "contractor_heap \<Rightarrow> contractor_heap \<Rightarrow> bool" where
  "extends h h' \<longleftrightarrow> heap_nodes h \<subseteq> heap_nodes h' \<and> (\<forall>v \<in> heap_nodes h. label h' v \<le> label h v)
     \<and> (\<forall>c. clears_left h c \<longrightarrow> clears_left h' c)"

lemma extends_refl [simp]: "extends h h"
  by (simp add: extends_def)

lemma extends_trans: "extends h h1 \<Longrightarrow> extends h1 h2 \<Longrightarrow> extends h h2"
  unfolding extends_def by (meson order_trans subsetD subsetI)

lemma extendsI:
  assumes "heap_nodes h \<subseteq> heap_nodes h'" and "\<And>v. v \<in> heap_nodes h \<Longrightarrow> label h' v \<le> label h v"
    and "\<forall>c. xs_current_timestamp (node_index h) + c < UINT_MAX \<longrightarrow> xs_current_timestamp (node_index h') + c < UINT_MAX"
  shows "extends h h'"
  using assms by (simp add: extends_def clears_left_def)

lemma xor_limit_insert: "card (heap_nodes h) < 65536 \<Longrightarrow> xor_limit (insert n (heap_nodes h))"
  using card_insert_le_m1 [of 65536 "heap_nodes h" n] by (simp add: xor_limit_def)

lemmas x_WasInserted = xor_st.WasInserted_law [OF _ xor_limit_insert]
lemmas x_Insert = xor_st.Insert_law [OF _ _ xor_limit_insert]

section \<open>The invariant of the search\<close>

definition labelled :: "(NodeID \<Rightarrow> NodeID \<Rightarrow> int \<Rightarrow> bool) \<Rightarrow> NodeID \<Rightarrow> contractor_heap \<Rightarrow> bool" where
  "labelled E src h \<longleftrightarrow> (\<forall>v \<in> heap_nodes h. label h v = INT_MAX \<or> walk E src v (label h v))"

definition witness_inv :: "xor_fast_hash \<Rightarrow> contractor_graph \<Rightarrow> NodeID \<Rightarrow> NodeID \<Rightarrow> contractor_heap \<Rightarrow> bool" where
  "witness_inv fh g mid src h \<longleftrightarrow> cinv fh h \<and> heap_nodes h \<subseteq> {..<dg_number_of_nodes g}
     \<and> labelled (around g mid) src h \<and> (\<forall>r \<in> settled h. \<forall>q \<in> heap_queue h. label h r \<le> label h q)"

lemma witness_invD:
  assumes "witness_inv fh g mid src h"
  shows "cinv fh h" and "heap_nodes h \<subseteq> {..<dg_number_of_nodes g}"
    and "v \<in> heap_nodes h \<Longrightarrow> label h v \<noteq> INT_MAX \<Longrightarrow> walk (around g mid) src v (label h v)"
    and "r \<in> settled h \<Longrightarrow> q \<in> heap_queue h \<Longrightarrow> label h r \<le> label h q"
  using assms by (auto simp: witness_inv_def labelled_def)

lemma witness_invI:
  assumes "cinv fh h" and "heap_nodes h \<subseteq> {..<dg_number_of_nodes g}"
    and "\<And>v. v \<in> heap_nodes h \<Longrightarrow> label h v \<noteq> INT_MAX \<Longrightarrow> walk (around g mid) src v (label h v)"
    and "\<And>r q. r \<in> settled h \<Longrightarrow> q \<in> heap_queue h \<Longrightarrow> label h r \<le> label h q"
  shows "witness_inv fh g mid src h"
  unfolding witness_inv_def labelled_def using assms by blast

text \<open>While the edges of \<open>node\<close> are relaxed.\<close>

definition settling :: "xor_fast_hash \<Rightarrow> contractor_graph \<Rightarrow> NodeID \<Rightarrow> NodeID \<Rightarrow> NodeID \<Rightarrow> int \<Rightarrow> contractor_heap \<Rightarrow> bool" where
  "settling fh g mid src node dist h \<longleftrightarrow> witness_inv fh g mid src h \<and> node \<in> settled h \<and> label h node = dist
     \<and> (\<forall>r \<in> settled h. label h r \<le> dist) \<and> (\<forall>q \<in> heap_queue h. dist \<le> label h q)"

lemma settlingD:
  assumes "settling fh g mid src node dist h"
  shows "witness_inv fh g mid src h" and "node \<in> settled h" and "label h node = dist"
    and "r \<in> settled h \<Longrightarrow> label h r \<le> dist" and "q \<in> heap_queue h \<Longrightarrow> dist \<le> label h q"
  using assms by (simp_all add: settling_def)

lemma add_distance_small:
  assumes "0 \<le> a" and "a \<le> 2 * weight_limit" and "0 < b" and "b \<le> weight_limit"
  shows "add_distance a b = a + b" and "a + b \<le> INT_MAX" and "INT_MIN \<le> a + b"
proof -
  have "a + b \<le> 2147483646"
    using assms(2,4) unfolding weight_limit_def INT_MAX_def by simp
  then show "add_distance a b = a + b" "a + b \<le> INT_MAX" "INT_MIN \<le> a + b"
    using assms(1,3) by (simp_all add: add_distance_def INT_MAX_def INT_MIN_def)
qed

text \<open>A new or improved label.\<close>

lemma settling_relabel:
  assumes set: "settling fh g mid src node dist h" and cg: "cg_ok deg g" and dist: "0 \<le> dist" "dist < INT_MAX"
    and e: "around g mid node t w"
    and h': "cinv fh h'" "heap_keys h' = (heap_keys h)(t \<mapsto> dist + w)" "heap_queue h' = insert t (heap_queue h)"
    and t: "t \<notin> settled h"
  shows "settling fh g mid src node dist h'"
proof -
  note D = settlingD [OF set] and I = witness_invD [OF settlingD(1) [OF set]]
  have f: "fedge g node t w"
    using e by (simp add: around_def)
  note F = fedgeD [OF cg f]
  have nodes: "heap_nodes h' = insert t (heap_nodes h)"
    using dom_heap_keys [of h'] dom_heap_keys [of h] unfolding h'(2) by (metis dom_fun_upd option.distinct(1))
  have sett: "settled h' = settled h"
    using t unfolding nodes h'(3) by auto
  have lab: "label h' v = (if v = t then dist + w else label h v)" for v
    by (simp add: h'(2))
  have "walk (around g mid) src node dist"
    using I(3) [of node] D(2,3) dist(2) by auto
  then have way: "walk (around g mid) src t (dist + w)"
    using e by (rule walk_step)
  have "witness_inv fh g mid src h'"
  proof (rule witness_invI)
    show "heap_nodes h' \<subseteq> {..<dg_number_of_nodes g}"
      using I(2) F(2) by (simp add: nodes)
    show "walk (around g mid) src v (label h' v)" if "v \<in> heap_nodes h'" "label h' v \<noteq> INT_MAX" for v
      using that way I(3) [of v] by (auto simp: nodes lab split: if_splits)
    show "label h' r \<le> label h' q" if "r \<in> settled h'" "q \<in> heap_queue h'" for r q
      using that I(4) [of r q] D(4) [of r] F(4) t unfolding sett by (auto simp: lab h'(3))
  qed fact
  then show ?thesis
    using D t F(4) unfolding settling_def sett by (auto simp: lab h'(3))
qed

lemma witness_relax_law:
  assumes set: "settling fh g mid src node dist h" and cg: "cg_ok deg g"
    and dist: "0 \<le> dist" "dist \<le> 2 * weight_limit" and room: "card (heap_nodes h) < 65536"
    and i: "i \<in> set (dg_range g node)"
  shows "\<exists>h'. witness_relax fh g mid dist hop i h = Some h' \<and> settling fh g mid src node dist h' \<and> extends h h'
    \<and> card (heap_nodes h') \<le> Suc (card (heap_nodes h))"
proof -
  note D = settlingD [OF set] and I = witness_invD [OF settlingD(1) [OF set]]
  let ?x = "dg_edge_list g ! i"
  let ?t = "ee_target ?x" and ?w = "ce_distance (ee_data ?x)"
  have node: "node < dg_number_of_nodes g"
    using D(2) I(2) by auto
  note R = dg_range [OF cg_okD(1) [OF cg] node]
  note x = R(2,3,4) [OF i]
  show ?thesis
  proof (cases "ce_forward (ee_data ?x) \<and> mid \<noteq> ?t")
    case False
    then show ?thesis
      using set x by (intro exI [of _ h]) (auto simp: witness_relax_def)
  next
    case True
    have e: "around g mid node ?t ?w"
      using True x(3) node unfolding around_def fedge_def by blast
    have f: "fedge g node ?t ?w"
      using e by (simp add: around_def)
    note F = fedgeD [OF cg f] and A = add_distance_small [OF dist F(4,5)]
    have dmax: "dist < INT_MAX"
      using F(4) A(2) by linarith
    note relab = settling_relabel [OF set cg dist(1) dmax e]
    let ?S = "XORFastHashStorage fh"
    have run: "witness_relax fh g mid dist hop i h =
        (if ?t \<notin> heap_nodes h then Insert ?S ?t (dist + ?w) \<lparr>ch_hop = hop, ch_target = False\<rparr> h
         else if dist + ?w < label h ?t then do {
           h1 \<leftarrow> DecreaseKey ?S ?t (dist + ?w) h;
           d \<leftarrow> GetData ?S h1 ?t;
           SetData ?S h1 ?t (d\<lparr>ch_hop := hop\<rparr>)
         }
         else Some h)"
      using x True A(1) x_WasInserted [OF I(1) room] xor_st.GetKey_law [OF I(1), of ?t]
      by (simp add: witness_relax_def Let_def)
    consider "?t \<notin> heap_nodes h" | "?t \<in> heap_nodes h" "dist + ?w < label h ?t"
      | "?t \<in> heap_nodes h" "label h ?t \<le> dist + ?w"
      by linarith
    then show ?thesis
    proof cases
      case 1
      obtain h' where run': "Insert ?S ?t (dist + ?w) \<lparr>ch_hop = hop, ch_target = False\<rparr> h = Some h'"
        and h': "cinv fh h'" "heap_keys h' = (heap_keys h)(?t \<mapsto> dist + ?w)" "heap_queue h' = insert ?t (heap_queue h)"
        and cl: "\<forall>c. xs_current_timestamp (node_index h) + c < UINT_MAX \<longrightarrow> xs_current_timestamp (node_index h') + c < UINT_MAX"
        using x_Insert [OF I(1) 1 room A(3)] by blast
      have nodes: "heap_nodes h' = insert ?t (heap_nodes h)"
        using dom_heap_keys [of h'] dom_heap_keys [of h] unfolding h'(2) by (metis dom_fun_upd option.distinct(1))
      have "extends h h'"
        using 1 by (intro extendsI cl) (auto simp: nodes h'(2))
      then show ?thesis
        using relab [OF h'] 1 run run' nodes by (auto simp: card_insert_if)
    next
      case 2
      have tq: "?t \<in> heap_queue h"
        using 2 D(4) [of ?t] F(4) by (cases "?t \<in> heap_queue h") auto
      have tmax: "?t \<noteq> UINT_MAX"
        using F(2) cg_okD(1) [OF cg] by (auto simp: dg_ok_def)
      have le: "dist + ?w \<le> label h ?t"
        using 2(2) by simp
      obtain h1 where h1: "DecreaseKey ?S ?t (dist + ?w) h = Some h1" "cinv fh h1"
        "heap_keys h1 = (heap_keys h)(?t \<mapsto> dist + ?w)" "heap_data h1 = heap_data h"
        "heap_queue h1 = heap_queue h" "node_index h1 = node_index h"
        using xor_st.DecreaseKey_law [OF I(1) tq A(3) le tmax] by blast
      have nodes: "heap_nodes h1 = heap_nodes h"
        using dom_heap_keys [of h1] dom_heap_keys [of h] 2(1) unfolding h1(3) by (auto simp: insert_absorb)
      then have t1: "?t \<in> heap_nodes h1"
        using 2(1) by simp
      then obtain d where d: "GetData ?S h1 ?t = Some d"
        using xor_st.GetData_law [OF h1(2) t1] t1 by (metis dom_heap_data domD)
      obtain h2 where h2: "SetData ?S h1 ?t (d\<lparr>ch_hop := hop\<rparr>) = Some h2" "cinv fh h2" "heap_keys h2 = heap_keys h1"
        "heap_queue h2 = heap_queue h1" "node_index h2 = node_index h1"
        using xor_st.SetData_law [OF h1(2) t1] by blast
      have nodes2: "heap_nodes h2 = heap_nodes h"
        using dom_heap_keys [of h2] dom_heap_keys [of h1] nodes unfolding h2(3) by simp
      have "settling fh g mid src node dist h2"
        using relab [OF h2(2)] h2(3,4) h1(3,5) tq by (auto simp: insert_absorb)
      moreover have "extends h h2"
        using nodes2 h2(3,5) h1(3,6) le by (simp add: extends_def clears_left_def)
      ultimately show ?thesis
        using 2 run h1(1) d h2(1) nodes2 by auto
    next
      case 3
      then show ?thesis
        using set run by (intro exI [of _ h]) auto
    qed
  qed
qed

lemma witness_relax_all:
  assumes set: "settling fh g mid src node dist h" and cg: "cg_ok deg g"
    and dist: "0 \<le> dist" "dist \<le> 2 * weight_limit" and room: "card (heap_nodes h) + deg \<le> 65536"
  shows "\<exists>h'. foldM (witness_relax fh g mid dist hop) (dg_range g node) h = Some h'
    \<and> settling fh g mid src node dist h' \<and> extends h h' \<and> card (heap_nodes h') \<le> card (heap_nodes h) + deg"
proof -
  let ?I = "\<lambda>done h'. settling fh g mid src node dist h' \<and> extends h h'
    \<and> card (heap_nodes h') \<le> card (heap_nodes h) + length done"
  have node: "node < dg_number_of_nodes g"
    using settlingD(2) [OF set] witness_invD(2) [OF settlingD(1) [OF set]] by auto
  have len: "length (dg_range g node) \<le> deg"
    using dg_range(6) [OF cg_okD(1) [OF cg] node] cg_okD(2) [OF cg node] by simp
  have "\<exists>h'. foldM (witness_relax fh g mid dist hop) (dg_range g node) h = Some h' \<and> ?I (dg_range g node) h'"
  proof (rule foldM_invariant [where I = ?I])
    fix i "done" todo h1
    assume r: "dg_range g node = done @ i # todo" and I1: "?I done h1"
    have "i \<in> set (dg_range g node)" "length done < length (dg_range g node)"
      by (simp_all add: r)
    moreover from this have "card (heap_nodes h1) < 65536"
      using I1 room len by linarith
    ultimately obtain h2 where "witness_relax fh g mid dist hop i h1 = Some h2" "settling fh g mid src node dist h2"
      "extends h1 h2" "card (heap_nodes h2) \<le> Suc (card (heap_nodes h1))"
      using witness_relax_law [OF _ cg dist, of fh mid src node h1 i hop] I1 by blast
    then show "\<exists>h'. witness_relax fh g mid dist hop i h1 = Some h' \<and> ?I (done @ [i]) h'"
      using I1 extends_trans by (auto intro: exI [of _ h2])
  qed (use set in simp)
  with len show ?thesis by fastforce
qed

lemma DeleteMin_settling:
  assumes inv: "witness_inv fh g mid src h" and ne: "\<not> Empty h"
  shows "\<exists>node h'. DeleteMin h = Some (node, h') \<and> settling fh g mid src node (label h node) h'
    \<and> extends h h' \<and> heap_nodes h' = heap_nodes h \<and> label h' node = label h node"
proof -
  note I = witness_invD [OF inv]
  have q: "heap_queue h \<noteq> {}"
    using ne Empty_queue [OF I(1)] by simp
  obtain n h' where n: "DeleteMin h = Some (n, h')" "Min_node h = Some n" "cinv fh h'" "heap_keys h' = heap_keys h"
    "heap_queue h' = heap_queue h - {n}" "node_index h' = node_index h"
    using xor_st.DeleteMin_law [OF I(1) q] by blast
  have m: "n \<in> heap_queue h" "\<And>m. m \<in> heap_queue h \<Longrightarrow> label h n \<le> label h m"
    using xor_st.Min_law [OF I(1) q] n(2) by auto
  have nodes: "heap_nodes h' = heap_nodes h"
    using dom_heap_keys [of h'] dom_heap_keys [of h] unfolding n(4) by simp
  have sett: "settled h' = insert n (settled h)"
    using m(1) heap_queue_subset [of h] unfolding nodes n(5) by auto
  have "witness_inv fh g mid src h'"
  proof (rule witness_invI)
    show "walk (around g mid) src v (label h' v)" if "v \<in> heap_nodes h'" "label h' v \<noteq> INT_MAX" for v
      using that I(3) [of v] by (simp add: nodes n(4))
    show "label h' r \<le> label h' q" if "r \<in> settled h'" "q \<in> heap_queue h'" for r q
      using that I(4) [of r q] m(2) [of q] unfolding sett by (auto simp: n(4,5))
  qed (use n(3) I(2) nodes in auto)
  then have "settling fh g mid src n (label h n) h'"
    using m I(4) [of _ n] unfolding settling_def sett by (auto simp: n(4,5))
  moreover have "extends h h'"
    by (simp add: extends_def clears_left_def nodes n(4,6))
  ultimately show ?thesis
    using n(1,4) nodes by auto
qed

lemma witness_loop_law:
  assumes cg: "cg_ok deg g" and M: "max_distance \<le> 2 * weight_limit"
    and inv: "witness_inv fh g mid src h" and room: "card (heap_nodes h) + (maxNodes - nodes) * deg \<le> 65536"
  shows "\<exists>h'. witness_loop fh g max_distance number_of_targets maxNodes mid nodes found h = Some h'
    \<and> witness_inv fh g mid src h' \<and> extends h h'"
  using inv room
proof (induction "maxNodes - nodes" arbitrary: nodes found h rule: less_induct)
  case (less nodes found h)
  note run = witness_loop.simps [of fh g max_distance number_of_targets maxNodes mid nodes found h]
  show ?case
  proof (cases "Empty h")
    case True
    then have "witness_loop fh g max_distance number_of_targets maxNodes mid nodes found h = Some h"
      by (simp only: run if_True)
    with less.prems(1) show ?thesis by auto
  next
    case False
    obtain n h1 where n: "DeleteMin h = Some (n, h1)" "settling fh g mid src n (label h n) h1" "extends h h1"
      "heap_nodes h1 = heap_nodes h" "label h1 n = label h n"
      using DeleteMin_settling [OF less.prems(1) False] by blast
    note D = settlingD [OF n(2)] and I = witness_invD [OF settlingD(1) [OF n(2)]]
    have nn: "n \<in> heap_nodes h1" "n < dg_number_of_nodes g"
      using D(2) I(2) by auto
    obtain d where d: "GetData (XORFastHashStorage fh) h1 n = Some d"
      using xor_st.GetData_law [OF I(1) nn(1)] nn(1) by (metis dom_heap_data domD)
    have key: "GetKey (XORFastHashStorage fh) h1 n = Some (label h n, h1)"
      using xor_st.GetKey_law [OF I(1) nn(1)] n(5) by simp
    show ?thesis
    proof (cases "nodes + 1 > maxNodes \<or> label h n > max_distance \<or> ch_target d \<and> found + 1 \<ge> number_of_targets")
      case True
      then show ?thesis
        using False n(1,3) D(1) key d by (subst run) (auto simp: Let_def)
    next
      case go: False
      have "label h n \<noteq> INT_MAX"
        using go M by (auto simp: weight_limit_def INT_MAX_def)
      then have "walk (around g mid) src n (label h n)"
        using I(3) [OF nn(1)] n(5) by simp
      then have dist: "0 \<le> label h n" "label h n \<le> 2 * weight_limit"
        using walk_nonneg [OF cg around_fedge] go M by (blast, linarith)
      have budget: "maxNodes - nodes = Suc (maxNodes - (nodes + 1))"
        using go by linarith
      then have "card (heap_nodes h1) + deg \<le> 65536"
        using less.prems(2) n(4) by simp
      then obtain h2 where h2: "foldM (witness_relax fh g mid (label h n) (signed_take_bit 15 (ch_hop d + 1))) (dg_range g n) h1 = Some h2"
        "settling fh g mid src n (label h n) h2" "extends h1 h2" "card (heap_nodes h2) \<le> card (heap_nodes h1) + deg"
        using witness_relax_all [OF n(2) cg dist] by blast
      have "card (heap_nodes h2) + (maxNodes - (nodes + 1)) * deg \<le> 65536"
        using less.prems(2) h2(4) n(4) budget by simp
      then obtain h3 where "witness_loop fh g max_distance number_of_targets maxNodes mid (nodes + 1)
          (if ch_target d then found + 1 else found) h2 = Some h3" "witness_inv fh g mid src h3" "extends h2 h3"
        using less.hyps [OF _ settlingD(1) [OF h2(2)]] budget by fastforce
      moreover have "witness_loop fh g max_distance number_of_targets maxNodes mid nodes found h =
          witness_loop fh g max_distance number_of_targets maxNodes mid (nodes + 1)
            (if ch_target d then found + 1 else found) h2"
        by (subst run) (use go in \<open>simp add: False n(1) key d h2(1) dg_range(1) [OF cg_okD(1) [OF cg] nn(2)] Let_def, blast\<close>)
      ultimately show ?thesis
        using extends_trans [OF n(3) extends_trans [OF h2(3)]] by auto
    qed
  qed
qed

end
