(* ===== verification/Node_Contraction.thy ===== *)
theory Node_Contraction
  imports Witness_Search
begin

text \<open>
  What \<^verbatim>\<open>ContractNode\<close> achieves: for every way through the contracted node it leaves a
  shortcut or has found a way around the node that is not longer, and every shortcut stands
  for a way through the node.
\<close>

section \<open>The clean-up of new edges\<close>

text \<open>A reference version of the two nested loops on the list of new edges.\<close>

definition same_way :: "contractor_edge \<Rightarrow> contractor_edge \<Rightarrow> bool" where
  "same_way e f \<longleftrightarrow> ie_source e = ie_source f \<and> ie_target e = ie_target f
     \<and> ce_distance (ie_data e) = ce_distance (ie_data f) \<and> ce_shortcut (ie_data e) = ce_shortcut (ie_data f)"

definition add_flags :: "contractor_edge \<Rightarrow> contractor_edge \<Rightarrow> contractor_edge" where
  "add_flags e f = f\<lparr>ie_data := (ie_data f)\<lparr>ce_forward := ce_forward (ie_data f) \<or> ce_forward (ie_data e),
     ce_backward := ce_backward (ie_data f) \<or> ce_backward (ie_data e)\<rparr>\<rparr>"

lemma same_way_simps [simp]:
  "same_way e e" "same_way (add_flags e f) h = same_way f h" "ce_id (ie_data (add_flags e f)) = ce_id (ie_data f)"
  by (auto simp: same_way_def add_flags_def)

lemma same_way_eq: "same_way e f \<Longrightarrow> same_way e h = same_way f h" "same_way e f \<Longrightarrow> same_way h e = same_way h f"
  by (auto simp: same_way_def)

fun merge_first :: "contractor_edge \<Rightarrow> contractor_edge list \<Rightarrow> contractor_edge list option" where
  "merge_first e [] = None"
| "merge_first e (f # fs) = (if same_way f e then Some (add_flags e f # fs) else map_option ((#) f) (merge_first e fs))"

lemma merge_first_length: "merge_first e fs = Some fs' \<Longrightarrow> length fs' = length fs"
  by (induction fs arbitrary: fs') (auto split: if_splits)

function dedup :: "contractor_edge list \<Rightarrow> contractor_edge list" where
  "dedup [] = []"
| "dedup (e # es) = (case merge_first e es of None \<Rightarrow> e # dedup es | Some es' \<Rightarrow> dedup es')"
  by pat_completeness auto
termination
  by (relation "measure length") (auto simp: merge_first_length)

lemma dedup_length: "length (dedup es) \<le> length es"
  by (induction es rule: dedup.induct) (use merge_first_length in \<open>fastforce split: option.splits\<close>)+

lemma merge_into_later_first:
  assumes "i < length A"
  shows "merge_into_later i [length A..<length A + length R] (A @ R) =
    Some (case merge_first (A ! i) R of None \<Rightarrow> (False, A @ R) | Some R' \<Rightarrow> (True, A @ R'))"
  using assms
proof (induction R arbitrary: A)
  case Nil
  then show ?case by simp
next
  case (Cons f R)
  have range: "[length A..<length A + length (f # R)] = length A # [length (A @ [f])..<length (A @ [f]) + length R]"
    by (simp add: upt_conv_Cons del: upt_Suc)
  show ?case
  proof (cases "same_way f (A ! i)")
    case True
    with Cons.prems show ?thesis
      unfolding range by (simp add: same_way_def add_flags_def nth_append)
  next
    case False
    have "merge_into_later i (length A # [length (A @ [f])..<length (A @ [f]) + length R]) (A @ f # R)
        = merge_into_later i [length (A @ [f])..<length (A @ [f]) + length R] ((A @ [f]) @ R)"
      using False Cons.prems by (auto simp: same_way_def nth_append)
    with Cons.IH [of "A @ [f]"] Cons.prems False show ?thesis
      unfolding range by (simp add: nth_append split: option.splits)
  qed
qed

lemma keep_unmerged_loop:
  "\<exists>es. foldM (keep_unmerged (length (K @ J @ R))) [length (K @ J)..<length (K @ J @ R)] (length K, K @ J @ R)
      = Some (length (K @ dedup R), es) \<and> take (length (K @ dedup R)) es = K @ dedup R"
proof (induction "length R" arbitrary: K J R)
  case 0
  then show ?case by simp
next
  case (Suc n)
  then obtain e R1 where R: "R = e # R1" "length R1 = n"
    by (auto simp: Suc_length_conv)
  let ?n = "length (K @ J @ R)"
  have range: "[length (K @ J)..<?n] = length (K @ J) # [Suc (length (K @ J))..<?n]"
    by (simp add: R upt_conv_Cons del: upt_Suc)
  have later: "merge_into_later (length (K @ J)) [length (K @ J) + 1..<?n] (K @ J @ R) =
      Some (case merge_first e R1 of None \<Rightarrow> (False, K @ J @ e # R1) | Some R' \<Rightarrow> (True, K @ J @ e # R'))"
    using merge_into_later_first [of "length (K @ J)" "K @ J @ [e]" R1]
    by (simp add: R nth_append add.assoc del: upt_Suc split: option.splits)
  show ?case
  proof (cases "merge_first e R1")
    case None
    obtain J' where J': "(K @ J @ e # R1)[length K := e] = (K @ [e]) @ J' @ R1" "length J' = length J"
      by (cases J) (auto simp: R list_update_append)
    have step: "keep_unmerged ?n (length (K @ J)) (length K, K @ J @ R) = Some (length (K @ [e]), (K @ [e]) @ J' @ R1)"
      using later None J'(1) by (simp add: keep_unmerged_def R nth_append)
    have "[Suc (length (K @ J))..<?n] = [length ((K @ [e]) @ J')..<length ((K @ [e]) @ J' @ R1)]" "?n = length ((K @ [e]) @ J' @ R1)"
      using J'(2) by (simp_all add: R)
    with Suc.hyps(1) [of R1 "K @ [e]" J'] R step None show ?thesis
      unfolding range by simp
  next
    case (Some R')
    have step: "keep_unmerged ?n (length (K @ J)) (length K, K @ J @ R) = Some (length K, K @ (J @ [e]) @ R')"
      using later Some by (simp add: keep_unmerged_def)
    have "[Suc (length (K @ J))..<?n] = [length (K @ (J @ [e]))..<length (K @ (J @ [e]) @ R')]" "?n = length (K @ (J @ [e]) @ R')"
      using merge_first_length [OF Some] by (simp_all add: R)
    with Suc.hyps(1) [of R' K "J @ [e]"] R step Some merge_first_length [OF Some] show ?thesis
      unfolding range by simp
  qed
qed

text \<open>The directed edges that a list of edges stands for; \<open>True\<close> is forward.\<close>

definition ways :: "contractor_edge list \<Rightarrow> (NodeID \<times> NodeID \<times> int \<times> bool) set" where
  "ways es = {(ie_source e, ie_target e, ce_distance (ie_data e), b) | e b. e \<in> set es
     \<and> (if b then ce_forward (ie_data e) else ce_backward (ie_data e))}"

lemma ways_Nil [simp]: "ways [] = {}"
  by (simp add: ways_def)

lemma ways_Cons: "ways (e # es) = ways [e] \<union> ways es"
  by (auto simp: ways_def)

lemma ways_single: "ways [e] = (if ce_forward (ie_data e) then {(ie_source e, ie_target e, ce_distance (ie_data e), True)} else {})
  \<union> (if ce_backward (ie_data e) then {(ie_source e, ie_target e, ce_distance (ie_data e), False)} else {})"
  by (auto simp: ways_def)

lemma ways_append [simp]: "ways (es @ fs) = ways es \<union> ways fs"
  by (auto simp: ways_def)

lemma ways_add_flags: "same_way f e \<Longrightarrow> ways [add_flags e f] = ways [e] \<union> ways [f]"
  by (auto simp: ways_def same_way_def add_flags_def split: if_splits)

lemma ways_merge_first: "merge_first e fs = Some fs' \<Longrightarrow> ways fs' = ways [e] \<union> ways fs"
proof (induction fs arbitrary: fs')
  case (Cons f fs)
  show ?case
  proof (cases "same_way f e")
    case True
    with Cons.prems have "fs' = add_flags e f # fs" by simp
    then show ?thesis
      using ways_add_flags [OF True] ways_Cons [of "add_flags e f" fs] ways_Cons [of f fs] by auto
  next
    case False
    with Cons.prems obtain gs where "merge_first e fs = Some gs" "fs' = f # gs"
      by auto
    with Cons.IH show ?thesis
      using ways_Cons [of f gs] ways_Cons [of f fs] by auto
  qed
qed simp

lemma ways_dedup: "ways (dedup es) = ways es"
proof (induction es rule: dedup.induct)
  case (2 e es)
  then show ?case
    using ways_Cons [of e es] ways_Cons [of e "dedup es"] ways_merge_first [of e es]
    by (auto split: option.splits)
qed simp

text \<open>No two edges that are left could have been merged.\<close>

lemma merge_first_None: "merge_first e fs = None \<longleftrightarrow> (\<forall>f \<in> set fs. \<not> same_way f e)"
  by (induction fs) auto

definition gains_flags :: "contractor_edge \<Rightarrow> contractor_edge \<Rightarrow> bool" where
  "gains_flags f' f \<longleftrightarrow> same_way f' f \<and> ce_id (ie_data f') = ce_id (ie_data f)
     \<and> (ce_forward (ie_data f) \<longrightarrow> ce_forward (ie_data f')) \<and> (ce_backward (ie_data f) \<longrightarrow> ce_backward (ie_data f'))"

lemma gains_flags_simps [simp]: "gains_flags f f" "gains_flags (add_flags e f) f"
  by (simp_all add: gains_flags_def) (simp add: add_flags_def)

lemma gains_flags_trans: "gains_flags f g \<Longrightarrow> gains_flags g h \<Longrightarrow> gains_flags f h"
  by (auto simp: gains_flags_def same_way_def)

lemma merge_first_keys:
  assumes "merge_first e fs = Some fs'" and "f' \<in> set fs'"
  shows "\<exists>f \<in> set fs. gains_flags f' f"
  using assms
proof (induction fs arbitrary: fs')
  case (Cons f fs)
  show ?case
  proof (cases "same_way f e")
    case False
    with Cons.prems obtain gs where "merge_first e fs = Some gs" "fs' = f # gs"
      by auto
    with Cons show ?thesis by fastforce
  qed (use Cons.prems in fastforce)
qed simp

lemma dedup_keys: "f' \<in> set (dedup es) \<Longrightarrow> \<exists>f \<in> set es. gains_flags f' f"
proof (induction es arbitrary: f' rule: dedup.induct)
  case (2 e es)
  show ?case
  proof (cases "merge_first e es")
    case None
    with 2 show ?thesis by fastforce
  next
    case (Some es')
    with 2 obtain f where f: "f \<in> set es'" "gains_flags f' f"
      by auto
    from merge_first_keys [OF Some f(1)] gains_flags_trans [OF f(2)] show ?thesis
      by auto
  qed
qed simp

definition unmerged :: "contractor_edge list \<Rightarrow> bool" where
  "unmerged es \<longleftrightarrow> sorted_wrt (\<lambda>e f. \<not> same_way e f) es"

lemma unmerged_dedup: "unmerged (dedup es)"
proof (induction es rule: dedup.induct)
  case 1
  then show ?case by (simp add: unmerged_def)
next
  case (2 e es)
  have "\<not> same_way e f" if "f \<in> set (dedup es)" "merge_first e es = None" for f
    using dedup_keys [OF that(1)] that(2) unfolding gains_flags_def
    by (metis merge_first_None same_way_eq(1) same_way_simps(1))
  with 2 show ?case
    by (auto simp: unmerged_def split: option.splits)
qed

section \<open>The targets of the search\<close>

text \<open>The heap before the search: the source at distance 0, the targets at infinity.\<close>

definition starting :: "xor_fast_hash \<Rightarrow> contractor_graph \<Rightarrow> NodeID \<Rightarrow> contractor_heap \<Rightarrow> bool" where
  "starting fh g src h \<longleftrightarrow> cinv fh h \<and> heap_nodes h \<subseteq> {..<dg_number_of_nodes g} \<and> src \<in> heap_nodes h
     \<and> heap_queue h = heap_nodes h \<and> (\<forall>v \<in> heap_nodes h. label h v = (if v = src then 0 else INT_MAX))"

lemma startingD:
  assumes "starting fh g src h"
  shows "cinv fh h" and "heap_nodes h \<subseteq> {..<dg_number_of_nodes g}" and "src \<in> heap_nodes h"
    and "heap_queue h = heap_nodes h" and "v \<in> heap_nodes h \<Longrightarrow> label h v = (if v = src then 0 else INT_MAX)"
  using assms by (simp_all add: starting_def)

lemma starting_witness: "starting fh g src h \<Longrightarrow> witness_inv fh g mid src h"
  by (rule witness_invI) (auto simp: starting_def split: if_splits)

lemma nodes_of_keys: "heap_keys h' = (heap_keys h)(n \<mapsto> w) \<Longrightarrow> heap_nodes h' = insert n (heap_nodes h)"
  using dom_heap_keys [of h'] dom_heap_keys [of h] by (metis dom_fun_upd option.distinct(1))

lemma starting_new:
  assumes inv: "cinv fh h" and cl: "clears_left h (Suc c)" and src: "src < dg_number_of_nodes g"
  shows "\<exists>h'. Insert (XORFastHashStorage fh) src 0 d (Clear (XORFastHashStorage fh) h) = Some h'
    \<and> starting fh g src h' \<and> clears_left h' c \<and> card (heap_nodes h') = 1"
proof -
  let ?h = "Clear (XORFastHashStorage fh) h"
  have C: "cinv fh ?h" "heap_keys ?h = Map.empty" "heap_queue ?h = {}" "xs_current_timestamp (node_index ?h) + c < UINT_MAX"
    using xor_st.Clear_law [OF inv] cl by (auto simp: clears_left_def)
  have nodes: "heap_nodes ?h = {}"
    using dom_heap_keys [of ?h] C(2) by simp
  have "src \<notin> heap_nodes ?h" "card (heap_nodes ?h) < 65536" "INT_MIN \<le> 0"
    by (simp_all add: nodes INT_MIN_def)
  from x_Insert [OF C(1) this] obtain h' where h': "Insert (XORFastHashStorage fh) src 0 d ?h = Some h'" "cinv fh h'"
    "heap_keys h' = (heap_keys ?h)(src \<mapsto> 0)" "heap_queue h' = insert src (heap_queue ?h)"
    "\<forall>c. xs_current_timestamp (node_index ?h) + c < UINT_MAX \<longrightarrow> xs_current_timestamp (node_index h') + c < UINT_MAX"
    by blast
  have "heap_nodes h' = {src}"
    using nodes_of_keys [OF h'(3)] nodes by simp
  then show ?thesis
    using h' C(3,4) src by (auto simp: starting_def clears_left_def)
qed

lemma add_target_law:
  assumes cg: "cg_ok deg g" and node: "node < dg_number_of_nodes g" and i: "i \<in> set (dg_range g node)"
    and st: "starting fh g src h" and room: "card (heap_nodes h) < 65536"
    and a: "0 < ce_distance in_data" "ce_distance in_data \<le> weight_limit"
    and M: "0 \<le> M" "M \<le> 2 * weight_limit"
  shows "\<exists>h' M' k'. add_target fh g in_data i (h, M, k) = Some (h', M', k') \<and> starting fh g src h' \<and> extends h h'
    \<and> card (heap_nodes h') \<le> Suc (card (heap_nodes h)) \<and> M \<le> M' \<and> M' \<le> 2 * weight_limit
    \<and> (ce_forward (ee_data (dg_edge_list g ! i)) \<longrightarrow> ee_target (dg_edge_list g ! i) \<in> heap_nodes h')"
proof -
  let ?x = "dg_edge_list g ! i"
  let ?t = "ee_target ?x" and ?d = "ce_distance in_data + ce_distance (ee_data ?x)"
  note R = dg_range [OF cg_okD(1) [OF cg] node]
  note x = R(2,3,4) [OF i] and S = startingD [OF st]
  note w = cg_okD(3,5,6) [OF cg node x(3)]
  have add: "add_distance (ce_distance in_data) (ce_distance (ee_data ?x)) = ?d"
    using add_distance_small(1) [of "ce_distance in_data"] a w(2,3) by simp
  have run: "add_target fh g in_data i (h, M, k) =
      (if \<not> ce_forward (ee_data ?x) then Some (h, M, k)
       else if ?t \<in> heap_nodes h then Some (h, max M ?d, k)
       else do {
         h' \<leftarrow> Insert (XORFastHashStorage fh) ?t INT_MAX \<lparr>ch_hop = 0, ch_target = True\<rparr> h;
         Some (h', max M ?d, k + 1)
       })"
    using x add x_WasInserted [OF S(1) room] by (simp add: add_target_def Let_def)
  have M': "M \<le> max M ?d" "max M ?d \<le> 2 * weight_limit"
    using M a w by auto
  consider "\<not> ce_forward (ee_data ?x)" | "ce_forward (ee_data ?x)" "?t \<in> heap_nodes h"
    | "ce_forward (ee_data ?x)" "?t \<notin> heap_nodes h"
    by blast
  then show ?thesis
  proof cases
    case 3
    have "INT_MIN \<le> INT_MAX"
      by (simp add: INT_MIN_def INT_MAX_def)
    from x_Insert [OF S(1) 3(2) room this] obtain h' where h': "cinv fh h'"
      "Insert (XORFastHashStorage fh) ?t INT_MAX \<lparr>ch_hop = 0, ch_target = True\<rparr> h = Some h'"
      "heap_keys h' = (heap_keys h)(?t \<mapsto> INT_MAX)" "heap_queue h' = insert ?t (heap_queue h)"
      "\<forall>c. xs_current_timestamp (node_index h) + c < UINT_MAX \<longrightarrow> xs_current_timestamp (node_index h') + c < UINT_MAX"
      by blast
    note nodes = nodes_of_keys [OF h'(3)]
    have "starting fh g src h'"
      unfolding starting_def nodes using S h'(1,3,4) w(1) 3(2) by (auto simp: h'(3))
    moreover have "extends h h'"
      using nodes h'(5) 3(2) by (intro extendsI) (auto simp: h'(3))
    ultimately show ?thesis
      using 3 run h'(2) M' nodes by (auto simp: card_insert_if)
  qed (use run st M M' in auto)
qed

lemma add_targets:
  assumes cg: "cg_ok deg g" and node: "node < dg_number_of_nodes g"
    and st: "starting fh g src h" and room: "card (heap_nodes h) + deg \<le> 65536"
    and a: "0 < ce_distance in_data" "ce_distance in_data \<le> weight_limit"
  shows "\<exists>h' M k. foldM (add_target fh g in_data) (dg_range g node) (h, 0, 0) = Some (h', M, k)
    \<and> starting fh g src h' \<and> extends h h' \<and> card (heap_nodes h') \<le> card (heap_nodes h) + deg
    \<and> M \<le> 2 * weight_limit
    \<and> (\<forall>y \<in> set (dg_out g node). ce_forward (ee_data y) \<longrightarrow> ee_target y \<in> heap_nodes h')"
proof -
  let ?I = "\<lambda>done (h', M, k :: nat). starting fh g src h' \<and> extends h h' \<and> card (heap_nodes h') \<le> card (heap_nodes h) + length done
    \<and> 0 \<le> M \<and> M \<le> 2 * weight_limit
    \<and> (\<forall>i \<in> set done. ce_forward (ee_data (dg_edge_list g ! i)) \<longrightarrow> ee_target (dg_edge_list g ! i) \<in> heap_nodes h')"
  note R = dg_range [OF cg_okD(1) [OF cg] node]
  have len: "length (dg_range g node) \<le> deg"
    using R(6) cg_okD(2) [OF cg node] by simp
  have "\<exists>s. foldM (add_target fh g in_data) (dg_range g node) (h, 0, 0) = Some s \<and> ?I (dg_range g node) s"
  proof (rule foldM_invariant [where I = ?I])
    fix i "done" todo s
    assume r: "dg_range g node = done @ i # todo" and I: "?I done s"
    obtain h1 M and k :: nat where s: "s = (h1, M, k)"
      by (rule prod_cases3)
    have i: "i \<in> set (dg_range g node)" and l: "length done < length (dg_range g node)"
      by (simp_all add: r)
    have room1: "card (heap_nodes h1) < 65536"
      using I l len room by (simp add: s)
    have st1: "starting fh g src h1" and M: "0 \<le> M" "M \<le> 2 * weight_limit"
      using I by (simp_all add: s)
    from add_target_law [OF cg node i st1 room1 a M, of k] obtain h2 M2 k2 where
      "add_target fh g in_data i (h1, M, k) = Some (h2, M2, k2)" "starting fh g src h2" "extends h1 h2"
      "card (heap_nodes h2) \<le> Suc (card (heap_nodes h1))" "M \<le> M2" "M2 \<le> 2 * weight_limit"
      "ce_forward (ee_data (dg_edge_list g ! i)) \<longrightarrow> ee_target (dg_edge_list g ! i) \<in> heap_nodes h2"
      by (elim exE conjE) (rule that)
    moreover have "heap_nodes h1 \<subseteq> heap_nodes h2"
      using \<open>extends h1 h2\<close> by (simp add: extends_def)
    moreover have "extends h h2"
      using extends_trans [of h h1 h2] \<open>extends h1 h2\<close> I by (simp add: s)
    ultimately show "\<exists>s'. add_target fh g in_data i s = Some s' \<and> ?I (done @ [i]) s'"
      using I M by (auto simp: s)
  qed (use st in \<open>simp add: weight_limit_def INT_MAX_def\<close>)
  then obtain h' M k where "foldM (add_target fh g in_data) (dg_range g node) (h, 0, 0) = Some (h', M, k)"
    "?I (dg_range g node) (h', M, k)"
    by auto
  moreover from this have "\<forall>y \<in> set (dg_out g node). ce_forward (ee_data y) \<longrightarrow> ee_target y \<in> heap_nodes h'"
    unfolding R(5) [symmetric] by simp
  ultimately show ?thesis
    using len by (intro exI [of _ h'] exI [of _ M] exI [of _ k]) simp
qed

section \<open>Shortcuts\<close>

definition path_length :: "contractor_edge_data edge_entry \<Rightarrow> contractor_edge_data edge_entry \<Rightarrow> int" where
  "path_length x y = ce_distance (ee_data x) + ce_distance (ee_data y)"

text \<open>The shortcut from the neighbour behind entry \<open>x\<close> to the one behind \<open>y\<close>, stored at both.\<close>

definition shortcut_pair ::
  "NodeID \<Rightarrow> contractor_edge_data edge_entry \<Rightarrow> contractor_edge_data edge_entry \<Rightarrow> contractor_edge list" where
  "shortcut_pair node x y = (let original_edges = ce_originalEdges (ee_data y) + ce_originalEdges (ee_data x) in
     [\<lparr>ie_source = ee_target x, ie_target = ee_target y,
       ie_data = ContractorEdgeData (path_length x y) original_edges node True True False\<rparr>,
      \<lparr>ie_source = ee_target y, ie_target = ee_target x,
       ie_data = ContractorEdgeData (path_length x y) original_edges node True False True\<rparr>])"

definition missing_witness ::
  "contractor_heap \<Rightarrow> contractor_edge_data edge_entry \<Rightarrow> contractor_edge_data edge_entry \<Rightarrow> bool" where
  "missing_witness h x y \<longleftrightarrow> ce_forward (ee_data y) \<and> path_length x y < label h (ee_target y)"

lemma path_length_small:
  assumes "cg_ok deg g" and "node < dg_number_of_nodes g" and "x \<in> set (dg_out g node)" and "y \<in> set (dg_out g node)"
  shows "add_distance (ce_distance (ee_data x)) (ce_distance (ee_data y)) = path_length x y"
    and "0 < path_length x y" and "path_length x y \<le> 2 * weight_limit"
    and "path_length x y < INT_MAX" and "path_length x y mod 2 ^ 32 = path_length x y"
proof -
  note w = cg_okD(5,6) [OF assms(1,2)]
  show "add_distance (ce_distance (ee_data x)) (ce_distance (ee_data y)) = path_length x y"
    using add_distance_small(1) [of "ce_distance (ee_data x)"] w [OF assms(3)] w [OF assms(4)]
    by (simp add: path_length_def)
  show p: "0 < path_length x y" "path_length x y \<le> 2 * weight_limit"
    using w [OF assms(3)] w [OF assms(4)] by (simp_all add: path_length_def)
  then show "path_length x y < INT_MAX" "path_length x y mod 2 ^ 32 = path_length x y"
    by (simp_all add: weight_limit_def INT_MAX_def)
qed

lemma add_shortcut_law:
  assumes cg: "cg_ok deg g" and node: "node < dg_number_of_nodes g" and x: "x \<in> set (dg_out g node)"
    and i: "i \<in> set (dg_range g node)" and inv: "cinv (td_hash data) (td_heap data)"
    and t: "ce_forward (ee_data (dg_edge_list g ! i)) \<Longrightarrow> ee_target (dg_edge_list g ! i) \<in> heap_nodes (td_heap data)"
  shows "\<exists>stats'. add_shortcut sim g node (ee_target x) (ee_data x) i (data, stats)
    = Some (data\<lparr>td_inserted_edges := td_inserted_edges data
        @ (if \<not> sim \<and> missing_witness (td_heap data) x (dg_edge_list g ! i) then shortcut_pair node x (dg_edge_list g ! i) else [])\<rparr>, stats')"
proof -
  let ?y = "dg_edge_list g ! i"
  note y = dg_range(2-4) [OF cg_okD(1) [OF cg] node i]
  note p = path_length_small(1) [OF cg node x y(3)]
  show ?thesis
  proof (cases "ce_forward (ee_data ?y)")
    case False
    then show ?thesis
      using y by (simp add: add_shortcut_def missing_witness_def)
  next
    case True
    from xor_st.GetKey_law [OF inv t [OF True]] y True p show ?thesis
      by (auto simp: add_shortcut_def missing_witness_def shortcut_pair_def Let_def)
  qed
qed

lemma add_shortcuts:
  assumes cg: "cg_ok deg g" and node: "node < dg_number_of_nodes g" and x: "x \<in> set (dg_out g node)"
    and inv: "cinv (td_hash data) (td_heap data)"
    and t: "\<forall>y \<in> set (dg_out g node). ce_forward (ee_data y) \<longrightarrow> ee_target y \<in> heap_nodes (td_heap data)"
  shows "\<exists>stats'. foldM (add_shortcut sim g node (ee_target x) (ee_data x)) (dg_range g node) (data, stats)
    = Some (data\<lparr>td_inserted_edges := td_inserted_edges data
        @ (if sim then [] else concat (map (shortcut_pair node x) (filter (missing_witness (td_heap data) x) (dg_out g node))))\<rparr>, stats')"
proof -
  note R = dg_range [OF cg_okD(1) [OF cg] node]
  have "\<exists>stats'. foldM (add_shortcut sim g node (ee_target x) (ee_data x)) js (d, stats)
    = Some (d\<lparr>td_inserted_edges := td_inserted_edges d
        @ (if sim then [] else concat (map (shortcut_pair node x) (filter (missing_witness (td_heap data) x) (map ((!) (dg_edge_list g)) js))))\<rparr>, stats')"
    if "set js \<subseteq> set (dg_range g node)" "td_hash d = td_hash data" "td_heap d = td_heap data" for js d
    using that
  proof (induction js arbitrary: d stats)
    case Nil
    then show ?case by simp
  next
    case (Cons i js)
    have i: "i \<in> set (dg_range g node)"
      using Cons.prems by simp
    have t': "ee_target (dg_edge_list g ! i) \<in> heap_nodes (td_heap d)" if "ce_forward (ee_data (dg_edge_list g ! i))"
      using t R(4) [OF i] that Cons.prems(3) by simp
    have inv': "cinv (td_hash d) (td_heap d)"
      using inv Cons.prems by simp
    obtain stats1 where step: "add_shortcut sim g node (ee_target x) (ee_data x) i (d, stats)
      = Some (d\<lparr>td_inserted_edges := td_inserted_edges d
        @ (if \<not> sim \<and> missing_witness (td_heap d) x (dg_edge_list g ! i) then shortcut_pair node x (dg_edge_list g ! i) else [])\<rparr>, stats1)"
      using add_shortcut_law [OF cg node x i inv' t'] by blast
    have "set js \<subseteq> set (dg_range g node)"
      using Cons.prems by simp
    note IH = Cons.IH [OF this, of "d\<lparr>td_inserted_edges := td_inserted_edges d
        @ (if \<not> sim \<and> missing_witness (td_heap d) x (dg_edge_list g ! i) then shortcut_pair node x (dg_edge_list g ! i) else [])\<rparr>" stats1]
    show ?case
      using IH step Cons.prems(2,3)
      by (cases sim; cases "missing_witness (td_heap data) x (dg_edge_list g ! i)") simp_all
  qed
  from this [of "dg_range g node" data, unfolded R(5)] show ?thesis by blast
qed

section \<open>The edges into the node\<close>

text \<open>
  What the edges \<open>new\<close> are worth after the incoming entries \<open>xs\<close> have been treated:
  every way through the node has a witness or a shortcut, every shortcut is such a way.
\<close>

definition bypassed ::
  "contractor_graph \<Rightarrow> NodeID \<Rightarrow> contractor_edge list \<Rightarrow> contractor_edge_data edge_entry \<Rightarrow> contractor_edge_data edge_entry
   \<Rightarrow> bool" where
  "bypassed g node new x y \<longleftrightarrow>
     (\<exists>d \<le> path_length x y. walk (around g node) (ee_target x) (ee_target y) d) \<or> set (shortcut_pair node x y) \<subseteq> set new"

definition through :: "contractor_graph \<Rightarrow> NodeID \<Rightarrow> contractor_edge_data edge_entry \<Rightarrow> contractor_edge_data edge_entry \<Rightarrow> bool" where
  "through g node x y \<longleftrightarrow> x \<in> set (dg_out g node) \<and> y \<in> set (dg_out g node) \<and> ce_backward (ee_data x) \<and> ce_forward (ee_data y)"

definition stands_for ::
  "contractor_graph \<Rightarrow> NodeID \<Rightarrow> contractor_edge list \<Rightarrow> contractor_edge \<Rightarrow> bool" where
  "stands_for g node new e \<longleftrightarrow> (\<exists>x y. through g node x y \<and> ee_target x \<noteq> ee_target y
     \<and> e \<in> set (shortcut_pair node x y) \<and> set (shortcut_pair node x y) \<subseteq> set new)"

definition bypasses ::
  "contractor_graph \<Rightarrow> NodeID \<Rightarrow> contractor_edge_data edge_entry set \<Rightarrow> contractor_edge list \<Rightarrow> bool" where
  "bypasses g node xs new \<longleftrightarrow> (\<forall>x \<in> xs. \<forall>y. through g node x y \<longrightarrow> bypassed g node new x y)
     \<and> (\<forall>e \<in> set new. stands_for g node new e)"

lemma bypasses_empty: "bypasses g node {} []"
  by (simp add: bypasses_def)

lemma bypassed_mono: "bypassed g node new x y \<Longrightarrow> set new \<subseteq> set new' \<Longrightarrow> bypassed g node new' x y"
  unfolding bypassed_def by (meson order_trans)

lemma stands_for_mono: "stands_for g node new e \<Longrightarrow> set new \<subseteq> set new' \<Longrightarrow> stands_for g node new' e"
  unfolding stands_for_def by (meson order_trans)

lemma bypasses_union:
  assumes "bypasses g node xs new" and "bypasses g node ys new'"
  shows "bypasses g node (xs \<union> ys) (new @ new')"
proof -
  have "set new \<subseteq> set (new @ new')" "set new' \<subseteq> set (new @ new')"
    by auto
  with assms show ?thesis
    unfolding bypasses_def by (metis (mono_tags) Un_iff bypassed_mono set_append stands_for_mono)
qed

definition search_room :: "nat \<Rightarrow> bool" where
  "search_room deg \<longleftrightarrow> 1 + 2001 * deg \<le> 65536"

lemma search_finds:
  assumes cg: "cg_ok deg g" and sr: "search_room deg" and node: "node < dg_number_of_nodes g"
    and x: "x \<in> set (dg_out g node)" and inv: "cinv (td_hash data) (td_heap data)"
    and cl: "clears_left (td_heap data) (Suc c)" and m: "m \<le> 2000"
  shows "\<exists>h1 h2 M k data'. Insert (XORFastHashStorage (td_hash data)) (ee_target x) 0 \<lparr>ch_hop = 0, ch_target = False\<rparr>
        (Clear (XORFastHashStorage (td_hash data)) (td_heap data)) = Some h1
    \<and> foldM (add_target (td_hash data) g (ee_data x)) (dg_range g node) (h1, 0, 0) = Some (h2, M, k)
    \<and> Dijkstra g M k m (data\<lparr>td_heap := h2\<rparr>) node = Some data'
    \<and> data' = data\<lparr>td_heap := td_heap data'\<rparr> \<and> cinv (td_hash data) (td_heap data') \<and> clears_left (td_heap data') c
    \<and> witness_inv (td_hash data) g node (ee_target x) (td_heap data') \<and> label (td_heap data') (ee_target x) \<le> 0
    \<and> (\<forall>y \<in> set (dg_out g node). ce_forward (ee_data y) \<longrightarrow> ee_target y \<in> heap_nodes (td_heap data'))"
proof -
  let ?fh = "td_hash data"
  note w = cg_okD(3,5,6) [OF cg node x]
  obtain h1 where h1: "Insert (XORFastHashStorage ?fh) (ee_target x) 0 \<lparr>ch_hop = 0, ch_target = False\<rparr>
      (Clear (XORFastHashStorage ?fh) (td_heap data)) = Some h1" "starting ?fh g (ee_target x) h1"
    "clears_left h1 c" "card (heap_nodes h1) = 1"
    using starting_new [OF inv cl w(1)] by blast
  have "card (heap_nodes h1) + deg \<le> 65536"
    using sr h1(4) by (simp add: search_room_def)
  from add_targets [OF cg node h1(2) this w(2,3)] obtain h2 M k where
    h2: "foldM (add_target ?fh g (ee_data x)) (dg_range g node) (h1, 0, 0) = Some (h2, M, k)"
    "starting ?fh g (ee_target x) h2" "extends h1 h2" "card (heap_nodes h2) \<le> card (heap_nodes h1) + deg"
    "M \<le> 2 * weight_limit" "\<forall>y \<in> set (dg_out g node). ce_forward (ee_data y) \<longrightarrow> ee_target y \<in> heap_nodes h2"
    by (elim exE conjE) (rule that)
  have "m * deg \<le> 2000 * deg"
    by (rule mult_le_mono1 [OF m])
  then have "card (heap_nodes h2) + (m - 0) * deg \<le> 65536"
    using sr h1(4) h2(4) unfolding search_room_def minus_nat.diff_0 by linarith
  from witness_loop_law [OF cg h2(5) starting_witness [OF h2(2)] this] obtain h3 where
    h3: "witness_loop ?fh g M k m node 0 0 h2 = Some h3" "witness_inv ?fh g node (ee_target x) h3" "extends h2 h3"
    by blast
  have "clears_left h3 c" "heap_nodes h2 \<subseteq> heap_nodes h3" "label h3 (ee_target x) \<le> 0"
    using h1(3) h2(3) h3(3) startingD(3,5) [OF h2(2)] by (auto simp: extends_def)
  with h1(1) h2(1,6) h3(1,2) witness_invD(1) [OF h3(2)] show ?thesis
    by (intro exI [of _ h1] exI [of _ h2] exI [of _ M] exI [of _ k] exI [of _ "data\<lparr>td_heap := h3\<rparr>"])
       (auto simp: Dijkstra_def)
qed

lemma bypasses_witness:
  assumes cg: "cg_ok deg g" and node: "node < dg_number_of_nodes g" and x: "x \<in> set (dg_out g node)"
    and bk: "ce_backward (ee_data x)" and inv: "witness_inv fh g node (ee_target x) h" and src: "label h (ee_target x) \<le> 0"
    and t: "\<forall>y \<in> set (dg_out g node). ce_forward (ee_data y) \<longrightarrow> ee_target y \<in> heap_nodes h"
  shows "bypasses g node {x} (concat (map (shortcut_pair node x) (filter (missing_witness h x) (dg_out g node))))"
  unfolding bypasses_def
proof (intro conjI ballI allI impI)
  let ?new = "concat (map (shortcut_pair node x) (filter (missing_witness h x) (dg_out g node)))"
  fix x' y
  assume x': "x' \<in> {x}" and thr: "through g node x' y"
  then have y: "y \<in> set (dg_out g node)" "ce_forward (ee_data y)"
    by (auto simp: through_def)
  note p = path_length_small(4) [OF cg node x y(1)]
  have ty: "ee_target y \<in> heap_nodes h"
    using t y by blast
  show "bypassed g node ?new x' y"
  proof (cases "missing_witness h x y")
    case True
    with x' y show ?thesis by (auto simp: bypassed_def)
  next
    case False
    then have "label h (ee_target y) \<le> path_length x y"
      using y(2) by (simp add: missing_witness_def)
    moreover from this p have "walk (around g node) (ee_target x) (ee_target y) (label h (ee_target y))"
      by (intro witness_invD(3) [OF inv ty]) simp
    ultimately show ?thesis
      using x' unfolding bypassed_def by blast
  qed
next
  let ?new = "concat (map (shortcut_pair node x) (filter (missing_witness h x) (dg_out g node)))"
  fix e
  assume "e \<in> set ?new"
  then obtain y where y: "y \<in> set (dg_out g node)" "missing_witness h x y" "e \<in> set (shortcut_pair node x y)"
    by auto
  have "ee_target x \<noteq> ee_target y"
    using y(2) src path_length_small(2) [OF cg node x y(1)] by (auto simp: missing_witness_def)
  moreover have "through g node x y"
    using y(1,2) x bk by (simp add: missing_witness_def through_def)
  moreover have "set (shortcut_pair node x y) \<subseteq> set ?new"
    using y(1,2) by auto
  ultimately show "stands_for g node ?new e"
    using y(3) unfolding stands_for_def by blast
qed

lemma length_shortcuts: "length (concat (map (shortcut_pair node x) ys)) = 2 * length ys"
  by (induction ys) (auto simp: shortcut_pair_def Let_def)

text \<open>What stays fixed while a worker contracts a node.\<close>

definition worker_ok :: "contractor_thread_data \<Rightarrow> nat \<Rightarrow> contractor_thread_data \<Rightarrow> bool" where
  "worker_ok data c data' \<longleftrightarrow> td_hash data' = td_hash data \<and> cinv (td_hash data) (td_heap data')
     \<and> clears_left (td_heap data') c"

lemma clears_left_le: "clears_left h c \<Longrightarrow> c' \<le> c \<Longrightarrow> clears_left h c'"
  by (simp add: clears_left_def)

lemma contract_in_edge_law:
  assumes cg: "cg_ok deg g" and sr: "search_room deg" and node: "node < dg_number_of_nodes g"
    and i: "i \<in> set (dg_range g node)" and w: "worker_ok data0 (Suc c) data"
  shows "\<exists>data' stats' new. contract_in_edge sim g node i (data, stats) = Some (data', stats') \<and> worker_ok data0 c data'
    \<and> td_inserted_edges data' = td_inserted_edges data @ (if sim then [] else new)
    \<and> bypasses g node {dg_edge_list g ! i} new \<and> length new \<le> 2 * deg"
proof -
  let ?x = "dg_edge_list g ! i"
  note R = dg_range [OF cg_okD(1) [OF cg] node]
  note x = R(2-4) [OF i]
  have w': "td_hash data = td_hash data0" "cinv (td_hash data) (td_heap data)" "clears_left (td_heap data) (Suc c)"
    using w by (simp_all add: worker_ok_def)
  show ?thesis
  proof (cases "ce_backward (ee_data ?x)")
    case False
    then have "bypasses g node {?x} []"
      by (simp add: bypasses_def through_def)
    moreover have "worker_ok data0 c data"
      using w' clears_left_le [OF w'(3), of c] by (simp add: worker_ok_def)
    ultimately show ?thesis
      using False x by (intro exI [of _ data] exI exI [of _ "[]"]) (simp add: contract_in_edge_def Let_def)
  next
    case True
    let ?m = "if sim then 1000 else 2000 :: nat"
    have m: "?m \<le> 2000" by simp
    obtain h1 h2 M k data1 where s: "Insert (XORFastHashStorage (td_hash data)) (ee_target ?x) 0 \<lparr>ch_hop = 0, ch_target = False\<rparr>
        (Clear (XORFastHashStorage (td_hash data)) (td_heap data)) = Some h1"
      "foldM (add_target (td_hash data) g (ee_data ?x)) (dg_range g node) (h1, 0, 0) = Some (h2, M, k)"
      "Dijkstra g M k ?m (data\<lparr>td_heap := h2\<rparr>) node = Some data1" "data1 = data\<lparr>td_heap := td_heap data1\<rparr>"
      "cinv (td_hash data) (td_heap data1)" "clears_left (td_heap data1) c"
      "witness_inv (td_hash data) g node (ee_target ?x) (td_heap data1)" "label (td_heap data1) (ee_target ?x) \<le> 0"
      "\<forall>y \<in> set (dg_out g node). ce_forward (ee_data y) \<longrightarrow> ee_target y \<in> heap_nodes (td_heap data1)"
      using search_finds [OF cg sr node x(3) w'(2,3) m] by (elim exE conjE) (rule that)
    have fields: "td_hash data1 = td_hash data" "td_inserted_edges data1 = td_inserted_edges data"
      by (subst s(4), simp)+
    define new where "new = concat (map (shortcut_pair node ?x) (filter (missing_witness (td_heap data1) ?x) (dg_out g node)))"
    have inv1: "cinv (td_hash data1) (td_heap data1)"
      using s(5) fields by simp
    define stats1 where "stats1 = (if sim
       then stats\<lparr>edges_deleted_count := edges_deleted_count stats + 1,
         original_edges_deleted_count := original_edges_deleted_count stats + int (ce_originalEdges (ee_data ?x))\<rparr>
       else stats)"
    obtain stats' where run: "foldM (add_shortcut sim g node (ee_target ?x) (ee_data ?x)) (dg_range g node) (data1, stats1)
      = Some (data1\<lparr>td_inserted_edges := td_inserted_edges data1 @ (if sim then [] else new)\<rparr>, stats')"
      using add_shortcuts [OF cg node x(3) inv1 s(9), of sim stats1] unfolding new_def by blast
    have "contract_in_edge sim g node i (data, stats)
        = foldM (add_shortcut sim g node (ee_target ?x) (ee_data ?x)) (dg_range g node) (data1, stats1)"
      unfolding contract_in_edge_def stats1_def using True x(1,2) R(1) s(1-3) by (simp add: Let_def cong del: if_weak_cong)
    moreover have "bypasses g node {?x} new"
      unfolding new_def by (rule bypasses_witness [OF cg node x(3) True s(7-9)])
    moreover have "length new \<le> 2 * deg"
      using length_filter_le [of "missing_witness (td_heap data1) ?x" "dg_out g node"] cg_okD(2) [OF cg node]
      unfolding new_def length_shortcuts by linarith
    ultimately show ?thesis
      using run s(5,6) w'(1) fields by (auto simp: worker_ok_def)
  qed
qed

lemma contract_in_edges:
  assumes cg: "cg_ok deg g" and sr: "search_room deg" and node: "node < dg_number_of_nodes g"
    and w: "worker_ok data0 (c + length (dg_out g node)) data"
  shows "\<exists>data' stats' new. foldM (contract_in_edge sim g node) (dg_range g node) (data, stats) = Some (data', stats')
    \<and> worker_ok data0 c data' \<and> td_inserted_edges data' = td_inserted_edges data @ (if sim then [] else new)
    \<and> bypasses g node (set (dg_out g node)) new \<and> length new \<le> length (dg_out g node) * (2 * deg)"
proof -
  note R = dg_range [OF cg_okD(1) [OF cg] node]
  have "\<exists>data' stats' new. foldM (contract_in_edge sim g node) js (d, st) = Some (data', stats')
    \<and> worker_ok data0 c data' \<and> td_inserted_edges data' = td_inserted_edges d @ (if sim then [] else new)
    \<and> bypasses g node (set (map ((!) (dg_edge_list g)) js)) new \<and> length new \<le> length js * (2 * deg)"
    if "set js \<subseteq> set (dg_range g node)" "worker_ok data0 (c + length js) d" for js d st
    using that
  proof (induction js arbitrary: d st)
    case Nil
    then show ?case by (simp add: bypasses_empty exI [of _ "[]"])
  next
    case (Cons i js)
    have i: "i \<in> set (dg_range g node)" and js: "set js \<subseteq> set (dg_range g node)"
      and wd: "worker_ok data0 (Suc (c + length js)) d"
      using Cons.prems by auto
    obtain d1 st1 new1 where d1: "contract_in_edge sim g node i (d, st) = Some (d1, st1)" "worker_ok data0 (c + length js) d1"
      "td_inserted_edges d1 = td_inserted_edges d @ (if sim then [] else new1)" "bypasses g node {dg_edge_list g ! i} new1"
      "length new1 \<le> 2 * deg"
      using contract_in_edge_law [OF cg sr node i wd] by blast
    obtain d2 st2 new2 where d2: "foldM (contract_in_edge sim g node) js (d1, st1) = Some (d2, st2)" "worker_ok data0 c d2"
      "td_inserted_edges d2 = td_inserted_edges d1 @ (if sim then [] else new2)"
      "bypasses g node (set (map ((!) (dg_edge_list g)) js)) new2" "length new2 \<le> length js * (2 * deg)"
      using Cons.IH [OF js d1(2)] by blast
    show ?case
      using d1 d2 bypasses_union [OF d1(4) d2(4)] by (intro exI [of _ d2] exI [of _ st2] exI [of _ "new1 @ new2"]) auto
  qed
  from this [of "dg_range g node" data stats, unfolded R(5)] w R(6) show ?thesis by simp
qed

lemma ContractNode_law:
  assumes cg: "cg_ok deg g" and sr: "search_room deg" and node: "node < dg_number_of_nodes g"
    and w: "worker_ok data0 (c + length (dg_out g node)) data"
  shows "\<exists>data' stats' new. ContractNode sim g data node stats = Some (data', stats') \<and> worker_ok data0 c data'
    \<and> td_inserted_edges data' = td_inserted_edges data @ (if sim then [] else dedup new)
    \<and> bypasses g node (set (dg_out g node)) new \<and> length (dedup new) \<le> deg * (2 * deg)"
proof -
  obtain d1 st1 new where d1: "foldM (contract_in_edge sim g node) (dg_range g node) (data, stats) = Some (d1, st1)"
    "worker_ok data0 c d1" "td_inserted_edges d1 = td_inserted_edges data @ (if sim then [] else new)"
    "bypasses g node (set (dg_out g node)) new" "length new \<le> length (dg_out g node) * (2 * deg)"
    using contract_in_edges [OF cg sr node w] by blast
  have len: "length (dedup new) \<le> deg * (2 * deg)"
    using dedup_length [of new] d1(5) mult_le_mono1 [OF cg_okD(2) [OF cg node], of "2 * deg"] by linarith
  note R = dg_range(1) [OF cg_okD(1) [OF cg] node]
  show ?thesis
  proof (cases sim)
    case True
    with d1 R len show ?thesis
      by (intro exI [of _ d1] exI [of _ st1] exI [of _ new]) (simp add: ContractNode_def)
  next
    case False
    let ?K = "td_inserted_edges data"
    obtain es where es: "foldM (keep_unmerged (length (?K @ new))) [length ?K..<length (?K @ new)] (length ?K, ?K @ new)
        = Some (length (?K @ dedup new), es)" "take (length (?K @ dedup new)) es = ?K @ dedup new"
      using keep_unmerged_loop [of ?K "[]" new] by auto
    have "ContractNode sim g data node stats = Some (d1\<lparr>td_inserted_edges := ?K @ dedup new\<rparr>, st1)"
      using False R d1(1,3) es by (simp add: ContractNode_def)
    with d1(2,4) len False show ?thesis
      by (auto simp: worker_ok_def)
  qed
qed

section \<open>Contraction of a node, seen from outside\<close>

text \<open>
  \<open>new\<close> makes node \<open>node\<close> superfluous: every way from a neighbour \<open>u\<close> through the node
  to a neighbour \<open>v\<close> is matched by a way around the node that is not longer or by a
  shortcut, stored forward at \<open>u\<close> and backward at \<open>v\<close>; and there are no other shortcuts.
\<close>

definition replaces :: "contractor_graph \<Rightarrow> NodeID \<Rightarrow> contractor_edge list \<Rightarrow> bool" where
  "replaces g node new \<longleftrightarrow>
     (\<forall>u v a b. bedge g node u a \<and> fedge g node v b \<longrightarrow>
        (\<exists>d \<le> a + b. walk (around g node) u v d) \<or> (u, v, a + b, True) \<in> ways new)
     \<and> (\<forall>u v d. (u, v, d, True) \<in> ways new \<longleftrightarrow> (v, u, d, False) \<in> ways new)
     \<and> (\<forall>u v d. (u, v, d, True) \<in> ways new \<longrightarrow> u \<noteq> v \<and> (\<exists>a b. bedge g node u a \<and> fedge g node v b \<and> d = a + b))
     \<and> (\<forall>e \<in> set new. ce_shortcut (ie_data e) \<and> ce_id (ie_data e) = node
          \<and> (ce_forward (ie_data e) \<or> ce_backward (ie_data e)))"

lemma ways_shortcut_pair:
  assumes "cg_ok deg g" and "node < dg_number_of_nodes g" and "through g node x y"
  shows "ways (shortcut_pair node x y) =
    {(ee_target x, ee_target y, path_length x y, True), (ee_target y, ee_target x, path_length x y, False)}"
proof -
  have "path_length x y mod 2 ^ 32 = path_length x y"
    using assms path_length_small(5) unfolding through_def by blast
  then show ?thesis
    unfolding shortcut_pair_def Let_def ContractorEdgeData_def
    by (subst ways_Cons) (simp only: ways_single, simp add: insert_commute)
qed

lemma shortcut_pair_kind:
  "f \<in> set (shortcut_pair node x y) \<Longrightarrow>
   ce_shortcut (ie_data f) \<and> ce_id (ie_data f) = node \<and> (ce_forward (ie_data f) \<or> ce_backward (ie_data f))"
  by (auto simp: shortcut_pair_def Let_def ContractorEdgeData_def)

lemma ways_mono: "set es \<subseteq> set fs \<Longrightarrow> ways es \<subseteq> ways fs"
  unfolding ways_def by blast

lemma ways_stands_for:
  assumes cg: "cg_ok deg g" and node: "node < dg_number_of_nodes g"
    and st: "\<forall>e \<in> set new. stands_for g node new e" and p: "(u, v, d, b) \<in> ways new"
  obtains x y where "through g node x y" and "ee_target x \<noteq> ee_target y" and "set (shortcut_pair node x y) \<subseteq> set new"
    and "d = path_length x y" and "if b then u = ee_target x \<and> v = ee_target y else u = ee_target y \<and> v = ee_target x"
proof -
  from p obtain e where e: "e \<in> set new" "(u, v, d, b) \<in> ways [e]"
    by (auto simp: ways_def)
  with st obtain x y where xy: "through g node x y" "ee_target x \<noteq> ee_target y" "e \<in> set (shortcut_pair node x y)"
    "set (shortcut_pair node x y) \<subseteq> set new"
    by (meson stands_for_def)
  have "(u, v, d, b) \<in> ways (shortcut_pair node x y)"
    using e(2) ways_mono [of "[e]" "shortcut_pair node x y"] xy(3) by auto
  then show thesis
    unfolding ways_shortcut_pair [OF cg node xy(1)] using that [OF xy(1,2,4)] by auto
qed

lemma throughD:
  assumes "node < dg_number_of_nodes g" and "through g node x y"
  shows "bedge g node (ee_target x) (ce_distance (ee_data x))" and "fedge g node (ee_target y) (ce_distance (ee_data y))"
  using assms unfolding through_def bedge_def fedge_def by blast+

lemma replaces_dedup:
  assumes cg: "cg_ok deg g" and node: "node < dg_number_of_nodes g"
    and bp: "bypasses g node (set (dg_out g node)) new"
  shows "replaces g node (dedup new)"
proof -
  have st: "\<forall>e \<in> set new. stands_for g node new e"
    using bp by (simp add: bypasses_def)
  have pair: "(ee_target x, ee_target y, path_length x y, True) \<in> ways new"
    "(ee_target y, ee_target x, path_length x y, False) \<in> ways new"
    if "through g node x y" "set (shortcut_pair node x y) \<subseteq> set new" for x y
    using ways_mono [OF that(2)] unfolding ways_shortcut_pair [OF cg node that(1)] by auto
  have complete: "(\<exists>d \<le> a + b. walk (around g node) u v d) \<or> (u, v, a + b, True) \<in> ways new"
    if "bedge g node u a" "fedge g node v b" for u v a b
  proof -
    from that obtain x y where xy: "through g node x y" "ee_target x = u" "ee_target y = v" "path_length x y = a + b"
      by (auto simp: bedge_def fedge_def through_def path_length_def)
    then have "bypassed g node new x y"
      using bp unfolding bypasses_def through_def by blast
    with pair(1) [OF xy(1)] xy show ?thesis
      unfolding bypassed_def by auto
  qed
  have sym: "(u, v, d, True) \<in> ways new \<longleftrightarrow> (v, u, d, False) \<in> ways new" for u v d
    by (rule iffI; erule ways_stands_for [OF cg node st]) (auto dest: pair)
  have sound: "u \<noteq> v \<and> (\<exists>a b. bedge g node u a \<and> fedge g node v b \<and> d = a + b)" if "(u, v, d, True) \<in> ways new" for u v d
    using that by (rule ways_stands_for [OF cg node st]) (auto simp: path_length_def dest: throughD [OF node])
  have kind: "ce_shortcut (ie_data e) \<and> ce_id (ie_data e) = node \<and> (ce_forward (ie_data e) \<or> ce_backward (ie_data e))"
    if e: "e \<in> set (dedup new)" for e
  proof -
    obtain f where f: "f \<in> set new" "gains_flags e f"
      using dedup_keys [OF e] by blast
    with st obtain x y where "f \<in> set (shortcut_pair node x y)"
      by (meson stands_for_def)
    from shortcut_pair_kind [OF this] f(2) show ?thesis
      unfolding gains_flags_def same_way_def by metis
  qed
  show ?thesis
    unfolding replaces_def ways_dedup
  proof (intro conjI)
    show "\<forall>u v a b. bedge g node u a \<and> fedge g node v b \<longrightarrow>
        (\<exists>d \<le> a + b. walk (around g node) u v d) \<or> (u, v, a + b, True) \<in> ways new"
      using complete by simp
    show "\<forall>u v d. (u, v, d, True) \<in> ways new \<longrightarrow> u \<noteq> v \<and> (\<exists>a b. bedge g node u a \<and> fedge g node v b \<and> d = a + b)"
      using sound by simp
  qed (use sym kind in simp_all)
qed

text \<open>A graph to evaluate the theorems at: two edges in a row, passable in both directions.\<close>

definition two_way :: "NodeID \<Rightarrow> int \<Rightarrow> contractor_edge_data edge_entry" where
  "two_way v w = \<lparr>ee_target = v, ee_data = ContractorEdgeData w 1 0 False True True\<rparr>"

definition sample_contractor_graph :: contractor_graph where
  "sample_contractor_graph = \<lparr>dg_number_of_nodes = 3, dg_number_of_edges = 4,
     dg_node_array = [\<lparr>dn_first_edge = 0, dn_edges = 1\<rparr>, \<lparr>dn_first_edge = 1, dn_edges = 2\<rparr>,
       \<lparr>dn_first_edge = 3, dn_edges = 1\<rparr>, \<lparr>dn_first_edge = 4, dn_edges = 0\<rparr>],
     dg_edge_list = [two_way 1 2, two_way 0 2, two_way 2 3, two_way 1 3]\<rparr>"

lemma sample_contractor_out:
  "dg_number_of_nodes sample_contractor_graph = 3"
  "dg_out sample_contractor_graph 0 = [two_way 1 2]"
  "dg_out sample_contractor_graph (Suc 0) = [two_way 0 2, two_way 2 3]"
  "dg_out sample_contractor_graph 2 = [two_way 1 3]"
  by (simp_all add: sample_contractor_graph_def dg_out_def seg_def upt_rec [of 0] upt_rec [of "Suc 0"] upt_rec [of 2] upt_rec [of 3])

lemma less_3_cases: "(v :: nat) < 3 \<longleftrightarrow> v = 0 \<or> v = Suc 0 \<or> v = 2"
  by auto

lemma sample_contractor_ok: "cg_ok 2 sample_contractor_graph"
proof -
  have "dg_ok sample_contractor_graph"
    unfolding dg_ok_def
    by (auto simp: sample_contractor_out less_3_cases)
       (auto simp: sample_contractor_graph_def two_way_def UINT_MAX_def)
  then show ?thesis
    by (auto simp: cg_ok_def sample_contractor_out less_3_cases two_way_def ContractorEdgeData_def weight_limit_def INT_MAX_def)
qed

lemma worker_new: "worker_ok (ContractorThreadData fh n) 1000000 (ContractorThreadData fh n)"
  using xor_new_heap(1) [of fh n]
  by (simp add: worker_ok_def ContractorThreadData_def clears_left_def BinaryHeap_def Clear_def XORFastHashStorage_def
      xor_Clear_def xor_storage_new_def UINT_MAX_def)

text \<open>
  C33: \<^verbatim>\<open>ContractNode\<close> always ends without leaving the heap, the hash table or the
  graph, given weights that leave room for three of them in an \<^verbatim>\<open>int\<close>, at most 32 edges
  per node, and a heap that can still be cleared once per edge of the node. It appends
  edges that replace the node: for every edge into the node and every edge out of it there
  is a way around the node that is not longer, or a shortcut of exactly the length of the
  way through the node, stored in both directions. There are no shortcuts beyond these, and
  none of the new edges could be merged with another.
\<close>

theorem ContractNode_correct:
  assumes "cg_ok deg g" and "search_room deg" and "node < dg_number_of_nodes g"
    and "cinv (td_hash data) (td_heap data)" and "clears_left (td_heap data) (length (dg_out g node))"
  shows "\<exists>data' stats' new. ContractNode False g data node stats = Some (data', stats')
    \<and> td_inserted_edges data' = td_inserted_edges data @ new \<and> replaces g node new \<and> unmerged new"
proof -
  have "worker_ok data (0 + length (dg_out g node)) data"
    using assms(4,5) by (simp add: worker_ok_def)
  from ContractNode_law [OF assms(1-3) this, of False stats] obtain data' stats' new
    where "ContractNode False g data node stats = Some (data', stats')"
      "td_inserted_edges data' = td_inserted_edges data @ dedup new" "bypasses g node (set (dg_out g node)) new"
    by auto
  with replaces_dedup [OF assms(1,3), of new] unmerged_dedup [of new] show ?thesis by blast
qed

theorem ContractNode_correct_witness:
  "\<exists>data' stats' new. ContractNode False sample_contractor_graph (ContractorThreadData (XORFastHash id id) 3) 1 ContractionStats
      = Some (data', stats') \<and> td_inserted_edges data' = new \<and> replaces sample_contractor_graph 1 new"
proof -
  let ?d = "ContractorThreadData (XORFastHash id id) 3"
  have "cinv (td_hash ?d) (td_heap ?d)" "clears_left (td_heap ?d) (length (dg_out sample_contractor_graph 1))"
    using worker_new [of "XORFastHash id id" 3] clears_left_le [of "td_heap ?d" 1000000]
    by (auto simp: worker_ok_def sample_contractor_out)
  moreover have "search_room 2" "1 < dg_number_of_nodes sample_contractor_graph" "td_inserted_edges ?d = []"
    by (simp_all add: search_room_def sample_contractor_out ContractorThreadData_def)
  ultimately show ?thesis
    using ContractNode_correct [OF sample_contractor_ok, of 1 ?d ContractionStats] by auto
qed

end
