(* ===== verification/Independent_Set.thy ===== *)
theory Independent_Set
  imports Node_Contraction
begin

text \<open>
  The choice of the nodes that one round contracts. \<^verbatim>\<open>IsNodeIndependent\<close> accepts a node
  when no other node within two hops goes before it; \<^verbatim>\<open>bias\<close> breaks ties. Two accepted
  nodes are therefore never adjacent and have no common neighbour, and there always is one
  as long as the comparison of priorities orders them.
\<close>

section \<open>Neighbours\<close>

definition nbrs :: "'d dynamic_graph \<Rightarrow> NodeID \<Rightarrow> NodeID set" where
  "nbrs g u = ee_target ` set (dg_out g u)"

text \<open>
  The nodes \<open>R\<close> that are still in the graph: their edges stay among them, and every edge is
  known at both of its ends with the same length, or a shorter one.
\<close>

definition mirrored :: "NodeID set \<Rightarrow> contractor_graph \<Rightarrow> bool" where
  "mirrored R g \<longleftrightarrow> R \<subseteq> {..<dg_number_of_nodes g}
     \<and> (\<forall>u \<in> R. \<forall>x \<in> set (dg_out g u). ee_target x \<in> R \<and> (ce_forward (ee_data x) \<or> ce_backward (ee_data x)))
     \<and> (\<forall>u \<in> R. \<forall>v w. fedge g u v w \<longrightarrow> (\<exists>w' \<le> w. bedge g v u w'))
     \<and> (\<forall>u \<in> R. \<forall>v w. bedge g u v w \<longrightarrow> (\<exists>w' \<le> w. fedge g v u w'))"

lemma mirroredD:
  assumes "mirrored R g"
  shows "u \<in> R \<Longrightarrow> u < dg_number_of_nodes g"
    and "u \<in> R \<Longrightarrow> x \<in> set (dg_out g u) \<Longrightarrow> ee_target x \<in> R"
    and "u \<in> R \<Longrightarrow> x \<in> set (dg_out g u) \<Longrightarrow> ce_forward (ee_data x) \<or> ce_backward (ee_data x)"
    and "u \<in> R \<Longrightarrow> fedge g u v w \<Longrightarrow> \<exists>w' \<le> w. bedge g v u w'"
    and "u \<in> R \<Longrightarrow> bedge g u v w \<Longrightarrow> \<exists>w' \<le> w. fedge g v u w'"
  using assms by (auto simp: mirrored_def)

lemma fedge_nbrs: "fedge g u v w \<Longrightarrow> v \<in> nbrs g u" "bedge g u v w \<Longrightarrow> v \<in> nbrs g u"
  by (auto simp: fedge_def bedge_def nbrs_def)

lemma nbrs_cases:
  assumes "mirrored R g" and "u \<in> R" and "v \<in> nbrs g u"
  obtains w where "fedge g u v w" | w where "bedge g u v w"
proof -
  from assms(3) obtain x where "x \<in> set (dg_out g u)" "ee_target x = v"
    by (auto simp: nbrs_def)
  with mirroredD(1,3) [OF assms(1,2)] that show thesis
    unfolding fedge_def bedge_def by blast
qed

lemma nbrs_in: "mirrored R g \<Longrightarrow> u \<in> R \<Longrightarrow> v \<in> nbrs g u \<Longrightarrow> v \<in> R"
  by (auto simp: nbrs_def dest: mirroredD(2))

lemma nbrs_sym:
  assumes "mirrored R g" and "u \<in> R" and "v \<in> nbrs g u"
  shows "u \<in> nbrs g v"
  using assms by (rule nbrs_cases) (use assms mirroredD(4,5) fedge_nbrs in blast)+

section \<open>The test\<close>

text \<open>The order of contraction: \<open>a\<close> waits for \<open>b\<close>.\<close>

definition waits :: "'p float_ops \<Rightarrow> xor_fast_hash \<Rightarrow> 'p list \<Rightarrow> NodeID \<Rightarrow> NodeID \<Rightarrow> bool" where
  "waits fl fh priorities a b \<longleftrightarrow> fl_greater fl (priorities ! a) (priorities ! b)
     \<or> fl_close fl (priorities ! a) (priorities ! b) \<and> bias fh a b"

text \<open>Priorities for all nodes, none of them negative or undefined.\<close>

definition priorities_ok :: "'p float_ops \<Rightarrow> contractor_graph \<Rightarrow> 'p list \<Rightarrow> bool" where
  "priorities_ok fl g priorities \<longleftrightarrow> dg_number_of_nodes g \<le> length priorities
     \<and> (\<forall>v < dg_number_of_nodes g. fl_nonneg fl (priorities ! v))"

lemma lower_neighbour_loop_law:
  assumes ok: "dg_ok g" and u: "u < dg_number_of_nodes g" and p: "priorities_ok fl g priorities"
    and "set is \<subseteq> set (dg_range g u)"
  shows "lower_neighbour_loop fl fh g priorities node (priorities ! node) is acc
    = Some (if \<exists>i \<in> set is. ee_target (dg_edge_list g ! i) \<noteq> node \<and> waits fl fh priorities node (ee_target (dg_edge_list g ! i))
        then None else Some (acc @ filter (\<lambda>v. v \<noteq> node) (map (\<lambda>i. ee_target (dg_edge_list g ! i)) is)))"
  using assms(4)
proof (induction "is" arbitrary: acc)
  case (Cons i "is")
  let ?t = "ee_target (dg_edge_list g ! i)"
  have i: "i \<in> set (dg_range g u)"
    using Cons.prems by simp
  note x = dg_range(3,4) [OF ok u i]
  have "?t < dg_number_of_nodes g"
    using dg_okD(3) [OF ok u x(2)] .
  then have "?t < length priorities" "fl_nonneg fl (priorities ! ?t)"
    using p by (auto simp: priorities_ok_def)
  with Cons x(1) show ?case
    by (auto simp: waits_def)
qed simp

lemma lower_neighbours:
  assumes "dg_ok g" and "u < dg_number_of_nodes g" and "priorities_ok fl g priorities"
  shows "lower_neighbour_loop fl fh g priorities node (priorities ! node) (dg_range g u) []
    = Some (if \<exists>v \<in> nbrs g u. v \<noteq> node \<and> waits fl fh priorities node v then None
        else Some (filter (\<lambda>v. v \<noteq> node) (map ee_target (dg_out g u))))"
proof -
  have m: "map (\<lambda>i. ee_target (dg_edge_list g ! i)) (dg_range g u) = map ee_target (dg_out g u)"
    unfolding dg_range(5) [OF assms(1,2), symmetric] by simp
  have "(\<exists>i \<in> set (dg_range g u). ee_target (dg_edge_list g ! i) \<noteq> node
      \<and> waits fl fh priorities node (ee_target (dg_edge_list g ! i)))
      \<longleftrightarrow> (\<exists>v \<in> set (map (\<lambda>i. ee_target (dg_edge_list g ! i)) (dg_range g u)). v \<noteq> node \<and> waits fl fh priorities node v)"
    by simp
  also have "\<dots> \<longleftrightarrow> (\<exists>v \<in> nbrs g u. v \<noteq> node \<and> waits fl fh priorities node v)"
    unfolding m by (simp add: nbrs_def)
  finally show ?thesis
    using lower_neighbour_loop_law [OF assms, of "dg_range g u" fh node "[]"] m by simp
qed

lemma two_hops_loop_law:
  assumes ok: "dg_ok g" and p: "priorities_ok fl g priorities" and "set us \<subseteq> {..<dg_number_of_nodes g}"
  shows "two_hops_loop fl fh g priorities node (priorities ! node) us
    = Some (\<forall>u \<in> set us. \<forall>v \<in> nbrs g u. v \<noteq> node \<longrightarrow> \<not> waits fl fh priorities node v)"
  using assms(3)
proof (induction us)
  case (Cons u us)
  then have u: "u < dg_number_of_nodes g" by simp
  from Cons show ?case
    using dg_range(1) [OF ok u] lower_neighbours [OF ok u p, of fh node] by auto
qed simp

lemma IsNodeIndependent_law:
  assumes ok: "dg_ok g" and p: "priorities_ok fl g priorities" and node: "node < dg_number_of_nodes g"
  shows "IsNodeIndependent fl fh g priorities node
    = Some (\<forall>v \<in> nbrs g node \<union> (\<Union>u \<in> nbrs g node - {node}. nbrs g u). v \<noteq> node \<longrightarrow> \<not> waits fl fh priorities node v)"
proof -
  have len: "node < length priorities"
    using p node by (simp add: priorities_ok_def)
  let ?us = "remdups_adj (sort (filter (\<lambda>v. v \<noteq> node) (map ee_target (dg_out g node))))"
  have us: "set ?us = nbrs g node - {node}"
    by (auto simp: nbrs_def)
  then have sub: "set ?us \<subseteq> {..<dg_number_of_nodes g}"
    using dg_okD(3) [OF ok node] by (auto simp: nbrs_def)
  note two = two_hops_loop_law [OF ok p sub, of fh node, unfolded us]
  show ?thesis
    using len dg_range(1) [OF ok node] lower_neighbours [OF ok node p, of fh node] two
    by (auto simp: IsNodeIndependent_def)
qed

section \<open>Accepted nodes are far apart\<close>

lemma bias_total: "a \<noteq> b \<Longrightarrow> bias fh a b \<or> bias fh b a"
  by (auto simp: bias_def Let_def)

text \<open>
  Two priorities are comparable when one is greater or they are close in both directions,
  as it is for all floating-point numbers that are neither undefined nor infinite.
\<close>

definition comparable :: "'p float_ops \<Rightarrow> 'p \<Rightarrow> 'p \<Rightarrow> bool" where
  "comparable fl p q \<longleftrightarrow> fl_greater fl p q \<or> fl_greater fl q p \<or> fl_close fl p q \<and> fl_close fl q p"

lemma waits_total:
  assumes "a \<noteq> b" and "comparable fl (priorities ! a) (priorities ! b)"
  shows "waits fl fh priorities a b \<or> waits fl fh priorities b a"
  using assms bias_total [of a b fh] by (auto simp: comparable_def waits_def)

definition far_apart :: "'d dynamic_graph \<Rightarrow> NodeID set \<Rightarrow> bool" where
  "far_apart g S \<longleftrightarrow> (\<forall>a \<in> S. \<forall>b \<in> S. a \<noteq> b \<longrightarrow> b \<notin> nbrs g a \<and> nbrs g a \<inter> nbrs g b = {})"

lemma far_apartD:
  assumes "far_apart g S" and "a \<in> S" and "b \<in> S"
  shows "a \<noteq> b \<Longrightarrow> b \<notin> nbrs g a" and "u \<in> nbrs g a \<Longrightarrow> u \<in> nbrs g b \<Longrightarrow> a = b"
  using assms by (auto simp: far_apart_def)

lemma independent_far_apart:
  assumes ok: "dg_ok g" and p: "priorities_ok fl g priorities" and m: "mirrored R g"
    and cmp: "\<forall>a \<in> R. \<forall>b \<in> R. comparable fl (priorities ! a) (priorities ! b)"
    and loop: "\<forall>u \<in> R. u \<notin> nbrs g u"
  shows "far_apart g {a \<in> R. IsNodeIndependent fl fh g priorities a = Some True}"
  unfolding far_apart_def
proof (intro ballI impI)
  fix a b
  assume "a \<in> {a \<in> R. IsNodeIndependent fl fh g priorities a = Some True}"
    and "b \<in> {a \<in> R. IsNodeIndependent fl fh g priorities a = Some True}" and ne: "a \<noteq> b"
  then have R: "a \<in> R" "b \<in> R" and ind: "IsNodeIndependent fl fh g priorities a = Some True"
    "IsNodeIndependent fl fh g priorities b = Some True"
    by auto
  have free: "\<not> waits fl fh priorities x v"
    if "x \<in> R" "IsNodeIndependent fl fh g priorities x = Some True" "v \<noteq> x"
      "v \<in> nbrs g x \<union> (\<Union>u \<in> nbrs g x - {x}. nbrs g u)" for x v
    using IsNodeIndependent_law [OF ok p mirroredD(1) [OF m that(1)], of fh] that by simp
  have w: "waits fl fh priorities a b \<or> waits fl fh priorities b a"
    using waits_total [OF ne] cmp R by blast
  have "b \<notin> nbrs g a"
    using free [OF R(1) ind(1), of b] free [OF R(2) ind(2), of a] w ne nbrs_sym [OF m R(1), of b] by blast
  moreover have "nbrs g a \<inter> nbrs g b = {}"
  proof (rule ccontr)
    assume "nbrs g a \<inter> nbrs g b \<noteq> {}"
    then obtain u where u: "u \<in> nbrs g a" "u \<in> nbrs g b"
      by auto
    then have "a \<in> nbrs g u" "b \<in> nbrs g u" "u \<noteq> a" "u \<noteq> b"
      using nbrs_sym [OF m] R loop by auto
    with u free [OF R(1) ind(1), of b] free [OF R(2) ind(2), of a] w ne show False
      by blast
  qed
  ultimately show "b \<notin> nbrs g a \<and> nbrs g a \<inter> nbrs g b = {}"
    by blast
qed

section \<open>Marking the nodes of a round\<close>

lemma mark_independent_law:
  assumes ok: "dg_ok g" and p: "priorities_ok fl g priorities"
    and "\<forall>node \<in> set remaining. rn_id node < dg_number_of_nodes g"
  shows "mark_independent fl fh g priorities remaining
    = Some (map (\<lambda>node. node\<lparr>rn_is_independent := IsNodeIndependent fl fh g priorities (rn_id node) = Some True\<rparr>) remaining)"
proof -
  let ?f = "\<lambda>node. node\<lparr>rn_is_independent := IsNodeIndependent fl fh g priorities (rn_id node) = Some True\<rparr>"
  let ?I = "\<lambda>i r. length r = length remaining \<and> (\<forall>j < length r. r ! j = (if j < i then ?f (remaining ! j) else remaining ! j))"
  let ?step = "\<lambda>i remaining. do {
     node \<leftarrow> nth_opt remaining i;
     b \<leftarrow> IsNodeIndependent fl fh g priorities (rn_id node);
     upd_opt remaining i (node\<lparr>rn_is_independent := b\<rparr>)
   }"
  have "\<exists>r. foldM ?step [0..<length remaining] remaining = Some r \<and> ?I (length remaining) r"
  proof (rule foldM_upt_invariant [where I = ?I])
    fix i r
    assume i: "i < length remaining" and I: "?I i r"
    then have ri: "r ! i = remaining ! i" "i < length r"
      by auto
    have "rn_id (remaining ! i) < dg_number_of_nodes g"
      using assms(3) i by simp
    then obtain b where b: "IsNodeIndependent fl fh g priorities (rn_id (remaining ! i)) = Some b"
      using IsNodeIndependent_law [OF ok p] by blast
    then show "\<exists>r'. ?step i r = Some r' \<and> ?I (Suc i) r'"
      using ri I by (auto simp: nth_list_update less_Suc_eq)
  qed auto
  then obtain r where r: "foldM ?step [0..<length remaining] remaining = Some r" "?I (length remaining) r"
    by blast
  then have "r = map ?f remaining"
    by (intro nth_equalityI) auto
  with r(1) show ?thesis
    by (simp add: mark_independent_def)
qed

text \<open>The nodes that a list of remaining nodes contracts in this round.\<close>

definition marked :: "remaining_node_data list \<Rightarrow> NodeID set" where
  "marked remaining = set (map rn_id (filter rn_is_independent remaining))"

lemma marked_mark:
  "marked (map (\<lambda>node. node\<lparr>rn_is_independent := P (rn_id node)\<rparr>) remaining) = {x \<in> rn_id ` set remaining. P x}"
  by (auto simp: marked_def filter_map o_def)

lemma bias_asym: "bias fh a b \<Longrightarrow> \<not> bias fh b a"
  by (auto simp: bias_def Let_def split: if_splits)

lemma bias_trans: "bias fh a b \<Longrightarrow> bias fh b c \<Longrightarrow> bias fh a c"
  by (auto simp: bias_def Let_def split: if_splits)

text \<open>The comparisons agree with the order of the values of the priorities.\<close>

definition exact_order :: "('p \<Rightarrow> 'k::linorder) \<Rightarrow> 'p float_ops \<Rightarrow> 'p list \<Rightarrow> NodeID set \<Rightarrow> bool" where
  "exact_order val fl priorities R \<longleftrightarrow> (\<forall>a \<in> R. \<forall>b \<in> R.
     (fl_greater fl (priorities ! a) (priorities ! b) \<longleftrightarrow> val (priorities ! b) < val (priorities ! a))
     \<and> (fl_close fl (priorities ! a) (priorities ! b) \<longleftrightarrow> val (priorities ! a) = val (priorities ! b)))"

lemma waits_exact:
  assumes "exact_order val fl priorities R" and "a \<in> R" and "b \<in> R"
  shows "waits fl fh priorities a b \<longleftrightarrow>
    val (priorities ! b) < val (priorities ! a) \<or> val (priorities ! a) = val (priorities ! b) \<and> bias fh a b"
  using assms by (simp add: exact_order_def waits_def)

lemma some_node_independent:
  assumes ok: "dg_ok g" and p: "priorities_ok fl g priorities" and m: "mirrored R g" and ne: "R \<noteq> {}"
    and ex: "exact_order val fl priorities R"
  shows "\<exists>a \<in> R. IsNodeIndependent fl fh g priorities a = Some True"
proof -
  note W = waits_exact [OF ex]
  have fin: "finite R"
    using m by (auto simp: mirrored_def intro: finite_subset)
  have "asymp_on R (\<lambda>x y. waits fl fh priorities y x)"
    by (rule asymp_onI) (auto simp: W dest: bias_asym)
  moreover have "transp_on R (\<lambda>x y. waits fl fh priorities y x)"
  proof (rule transp_onI)
    fix x y z
    assume "x \<in> R" "y \<in> R" "z \<in> R" "waits fl fh priorities y x" "waits fl fh priorities z y"
    then show "waits fl fh priorities z x"
      using bias_trans [of fh z y x] by (simp only: W) (metis order.strict_trans)
  qed
  ultimately have "\<exists>a \<in> R. \<forall>x \<in> R. x \<noteq> a \<longrightarrow> \<not> waits fl fh priorities a x"
    by (rule Finite_Set.bex_min_element [OF fin _ _ ne])
  then obtain a where a: "a \<in> R" "\<And>x. x \<in> R \<Longrightarrow> x \<noteq> a \<Longrightarrow> \<not> waits fl fh priorities a x"
    by blast
  have two: "v \<in> R" if "v \<in> nbrs g a \<union> (\<Union>u \<in> nbrs g a - {a}. nbrs g u)" for v
    using that nbrs_in [OF m] a(1) by blast
  have "\<forall>v \<in> nbrs g a \<union> (\<Union>u \<in> nbrs g a - {a}. nbrs g u). v \<noteq> a \<longrightarrow> \<not> waits fl fh priorities a v"
    using a(2) two by blast
  then have "IsNodeIndependent fl fh g priorities a = Some True"
    by (subst IsNodeIndependent_law [OF ok p mirroredD(1) [OF m a(1)]]) (rule arg_cong [OF eqTrueI])
  with a(1) show ?thesis by blast
qed

end
