(* ===== verification/Overlay.thy ===== *)
theory Overlay
  imports Witness_Search
begin

text \<open>
  The graph-theoretic core of contraction hierarchies, about edge relations only. A set
  \<open>S\<close> of nodes is taken out of the graph \<open>E\<close>; \<open>F\<close> is the overlay graph with the
  shortcuts. When no two nodes of \<open>S\<close> are adjacent or have a common predecessor, the
  witnesses may be searched in \<open>E\<close> for every node of \<open>S\<close> on its own: all distances
  between the other nodes survive, although a witness for one node may run through another
  node that is contracted at the same time.
\<close>

section \<open>Walks\<close>

lemma walk_le:
  assumes "walk E u v d" and "\<And>a b w. E a b w \<Longrightarrow> \<exists>w' \<le> w. F a b w'"
  shows "\<exists>d' \<le> d. walk F u v d'"
  using assms(1)
proof (induction rule: walk.induct)
  case (walk_step u v d w c)
  then obtain d' c' where "d' \<le> d" "walk F u v d'" "c' \<le> c" "F v w c'"
    using assms(2) by blast
  then have "d' + c' \<le> d + c" "walk F u w (d' + c')"
    by (auto intro: walk.walk_step)
  then show ?case by blast
qed auto

locale positive_edges =
  fixes E :: "NodeID \<Rightarrow> NodeID \<Rightarrow> int \<Rightarrow> bool"
  assumes positive: "E u v w \<Longrightarrow> 0 < w"
begin

lemma walk_ge_0: "walk E u v d \<Longrightarrow> 0 \<le> d"
  by (induction rule: walk.induct) (auto dest: positive)

lemma walk_0: "walk E u v 0 \<Longrightarrow> u = v"
  by (erule walk.cases) (use positive walk_ge_0 in fastforce)+

end

section \<open>The overlay graph\<close>

locale overlay = positive_edges E for E +
  fixes F :: "NodeID \<Rightarrow> NodeID \<Rightarrow> int \<Rightarrow> bool" and S :: "NodeID set"
  assumes no_edge_inside: "E u v w \<Longrightarrow> u \<in> S \<Longrightarrow> v \<notin> S"
    and no_common_source: "E a x w \<Longrightarrow> E a y w' \<Longrightarrow> x \<in> S \<Longrightarrow> y \<in> S \<Longrightarrow> x = y"
    and kept: "E u v w \<Longrightarrow> u \<notin> S \<Longrightarrow> v \<notin> S \<Longrightarrow> \<exists>w' \<le> w. F u v w'"
    and bypass: "E a x w \<Longrightarrow> E x b w' \<Longrightarrow> x \<in> S \<Longrightarrow>
      (\<exists>d \<le> w + w'. walk (\<lambda>u v c. E u v c \<and> v \<noteq> x) a b d) \<or> (\<exists>d \<le> w + w'. F a b d)"
    and real: "F u v w \<Longrightarrow> u \<notin> S \<Longrightarrow> v \<notin> S \<and> (\<exists>d \<le> w. walk E u v d)"
begin

text \<open>A walk avoids \<open>S\<close> or has a first visit to it.\<close>

definition visit :: "(NodeID \<Rightarrow> NodeID \<Rightarrow> int \<Rightarrow> bool) \<Rightarrow> NodeID \<Rightarrow> NodeID \<Rightarrow> int \<Rightarrow> bool" where
  "visit G u v d \<longleftrightarrow> (\<exists>a x b d1 w1 w2 d2. walk G u a d1 \<and> G a x w1 \<and> x \<in> S \<and> a \<notin> S \<and> G x b w2 \<and> walk G b v d2
     \<and> d = d1 + w1 + w2 + d2)"

lemma visitI:
  assumes "walk G u a d1" and "G a x w1" and "x \<in> S" and "a \<notin> S" and "G x b w2" and "walk G b v d2"
    and "d = d1 + w1 + w2 + d2"
  shows "visit G u v d"
  unfolding visit_def using assms
  by (intro exI [of _ a] exI [of _ x] exI [of _ b] exI [of _ d1] exI [of _ w1] exI [of _ w2] exI [of _ d2] conjI)

lemma walk_split:
  assumes "walk G u v d" and "u \<notin> S"
  shows "v \<notin> S \<and> walk (\<lambda>a b w. G a b w \<and> a \<notin> S \<and> b \<notin> S) u v d
    \<or> (v \<in> S \<and> (\<exists>a d1 w1. walk G u a d1 \<and> a \<notin> S \<and> G a v w1 \<and> d = d1 + w1)) \<or> visit G u v d"
  using assms
proof (induction rule: walk.induct)
  case (walk_refl u)
  then show ?case by auto
next
  case (walk_step u v d w c)
  from walk_step.IH [OF walk_step.prems] show ?case
  proof (elim disjE conjE exE)
    assume v: "v \<notin> S" "walk (\<lambda>a b w. G a b w \<and> a \<notin> S \<and> b \<notin> S) u v d"
    show ?case
    proof (cases "w \<in> S")
      case True
      then show ?thesis
        using v(1) walk_step.hyps by (intro disjI2 disjI1 conjI exI [of _ v] exI [of _ d] exI [of _ c]) auto
    next
      case False
      with v walk_step.hyps(2) show ?thesis
        by (auto intro: walk.walk_step)
    qed
  next
    fix a d1 w1
    assume "v \<in> S" "walk G u a d1" "a \<notin> S" "G a v w1" "d = d1 + w1"
    then have "visit G u w (d + c)"
      using walk_step.hyps(2) by (intro visitI [of G u a d1 v w1 w c w 0]) simp_all
    then show ?case by (intro disjI2)
  next
    assume "visit G u v d"
    then obtain a x b d1 w1 w2 d2 where "walk G u a d1" "G a x w1" "x \<in> S" "a \<notin> S" "G x b w2" "walk G b v d2"
      "d = d1 + w1 + w2 + d2"
      unfolding visit_def by (elim exE conjE)
    moreover from this(6) walk_step.hyps(2) have "walk G b w (d2 + c)"
      by (rule walk.walk_step)
    ultimately have "visit G u w (d + c)"
      by (intro visitI [of G u a d1 x w1 b w2 w "d2 + c"]) simp_all
    then show ?case by (intro disjI2)
  qed
qed

text \<open>Three pieces that survive make a walk that survives.\<close>

lemma join:
  assumes "\<exists>d' \<le> d1. walk F u a d'" and "\<exists>d' \<le> d2. walk F a b d'" and "\<exists>d' \<le> d3. walk F b v d'"
  shows "\<exists>d' \<le> d1 + d2 + d3. walk F u v d'"
proof -
  obtain e1 e2 e3 where "e1 \<le> d1" "walk F u a e1" "e2 \<le> d2" "walk F a b e2" "e3 \<le> d3" "walk F b v e3"
    using assms by blast
  then have "e1 + e2 + e3 \<le> d1 + d2 + d3" "walk F u v (e1 + e2 + e3)"
    using walk_trans [OF walk_trans, of F u a e1 b e2 v e3] by auto
  then show ?thesis by blast
qed

lemma visit_shorter:
  assumes IH: "\<And>u v e. e < d \<Longrightarrow> walk E u v e \<Longrightarrow> u \<notin> S \<Longrightarrow> v \<notin> S \<Longrightarrow> \<exists>e' \<le> e. walk F u v e'"
    and w: "walk E u a d1" "E a x w1" "E x b w2" "walk E b v d2" and d: "d = d1 + w1 + w2 + d2" "0 < d1 \<or> 0 < d2"
    and S: "x \<in> S" "a \<notin> S" "u \<notin> S" "v \<notin> S"
  shows "\<exists>d' \<le> d. walk F u v d'"
proof -
  have b: "b \<notin> S"
    using no_edge_inside [OF w(3) S(1)] .
  have pos: "0 < w1" "0 < w2" "0 \<le> d1" "0 \<le> d2"
    using positive [OF w(2)] positive [OF w(3)] walk_ge_0 [OF w(1)] walk_ge_0 [OF w(4)] by auto
  have "walk E a b (w1 + w2)"
    using walk_step [of E a x w1 b w2] walk_edge [of E a x w1] w(2,3) by simp
  from join [OF IH [OF _ w(1) S(3,2)] IH [OF _ this S(2) b] IH [OF _ w(4) b S(4)]] show ?thesis
    using d pos by (auto simp: add.assoc)
qed

lemma distances_survive: "walk E u v d \<Longrightarrow> u \<notin> S \<Longrightarrow> v \<notin> S \<Longrightarrow> \<exists>d' \<le> d. walk F u v d'"
proof (induction "nat d" arbitrary: u v d rule: less_induct)
  case less
  have IH: "\<exists>e' \<le> e. walk F u v e'" if "e < d" "walk E u v e" "u \<notin> S" "v \<notin> S" for u v e
    using less.hyps [OF _ that(2-4)] walk_ge_0 [OF that(2)] that(1) by simp
  have clean: "\<exists>d' \<le> e. walk F u v d'" if "walk (\<lambda>a b w. G a b w \<and> a \<notin> S \<and> b \<notin> S) u v e" "\<And>a b w. G a b w \<Longrightarrow> E a b w"
    for G u v e
    by (rule walk_le [OF that(1)]) (use that(2) kept in blast)
  from walk_split [OF less.prems(1,2)] less.prems(3)
  consider "walk (\<lambda>a b w. E a b w \<and> a \<notin> S \<and> b \<notin> S) u v d" | "visit E u v d"
    by blast
  then show ?case
  proof cases
    case 1
    then show ?thesis by (rule clean)
  next
    case 2
    then obtain a x b d1 w1 w2 d2 where w: "walk E u a d1" "E a x w1" "E x b w2" "walk E b v d2" and S: "x \<in> S" "a \<notin> S"
      and d: "d = d1 + w1 + w2 + d2"
      unfolding visit_def by blast
    show ?thesis
    proof (cases "0 < d1 \<or> 0 < d2")
      case True
      from visit_shorter [OF IH w d this S less.prems(2,3)] show ?thesis .
    next
      case False
      then have "d1 = 0" "d2 = 0"
        using walk_ge_0 [OF w(1)] walk_ge_0 [OF w(4)] by auto
      then have uv: "u = a" "v = b" "d = w1 + w2"
        using walk_0 w(1,4) d by auto
      from bypass [OF w(2,3) S(1)] show ?thesis
      proof (elim disjE exE conjE)
        fix e
        assume e: "e \<le> w1 + w2" "walk (\<lambda>u v c. E u v c \<and> v \<noteq> x) a b e"
        have eE: "walk E a b e"
          using e(2) by (rule walk_mono) simp
        show ?thesis
        proof (cases "e < d")
          case True
          have "\<exists>e' \<le> e. walk F a b e'"
            using IH [OF True eE] less.prems(2,3) uv(1,2) by simp
          with True uv(1,2) show ?thesis by (meson less_imp_le order_trans)
        next
          case False
          with e(1) uv(3) have "e = d" by simp
          have aS: "a \<notin> S" and bS: "b \<notin> S"
            using less.prems uv by auto
          from walk_split [OF e(2) aS] bS
          consider "walk (\<lambda>p q w. (E p q w \<and> q \<noteq> x) \<and> p \<notin> S \<and> q \<notin> S) a b e" | "visit (\<lambda>u v c. E u v c \<and> v \<noteq> x) a b e"
            by blast
          then show ?thesis
          proof cases
            case 1
            then have "\<exists>d' \<le> e. walk F a b d'"
              by (rule clean) simp
            with uv \<open>e = d\<close> show ?thesis by simp
          next
            case 2
            then obtain p y q e1 c1 c2 e2 where v: "walk (\<lambda>u v c. E u v c \<and> v \<noteq> x) a p e1" "E p y c1" "y \<noteq> x" "E y q c2"
              "walk (\<lambda>u v c. E u v c \<and> v \<noteq> x) q b e2" and y: "y \<in> S" "p \<notin> S" and ed: "e = e1 + c1 + c2 + e2"
              unfolding visit_def by blast
            have vE: "walk E a p e1" "walk E q b e2"
              using walk_mono [OF v(1)] walk_mono [OF v(5)] by auto
            have "0 < e1 \<or> 0 < e2"
            proof (rule ccontr)
              assume "\<not> (0 < e1 \<or> 0 < e2)"
              then have "e1 = 0"
                using walk_ge_0 [OF vE(1)] by simp
              then have "p = a"
                using walk_0 [of a p] vE(1) by simp
              then show False
                using no_common_source [OF w(2) _ S(1) y(1)] v(2,3) by blast
            qed
            from visit_shorter [OF IH vE(1) v(2,4) vE(2) _ this y aS bS] show ?thesis
              using ed uv \<open>e = d\<close> by simp
          qed
        qed
      next
        fix e
        assume "e \<le> w1 + w2" "F a b e"
        with uv show ?thesis by (auto intro: walk_edge)
      qed
    qed
  qed
qed

lemma distances_real: "walk F u v d \<Longrightarrow> u \<notin> S \<Longrightarrow> v \<notin> S \<and> (\<exists>d' \<le> d. walk E u v d')"
proof (induction rule: walk.induct)
  case (walk_step u v d w c)
  then obtain d' where d': "v \<notin> S" "d' \<le> d" "walk E u v d'" by blast
  from real [OF walk_step.hyps(2) d'(1)] obtain c' where "w \<notin> S" "c' \<le> c" "walk E v w c'" by blast
  with d' have "w \<notin> S" "d' + c' \<le> d + c" "walk E u w (d' + c')"
    by (auto intro: walk_trans)
  then show ?case by blast
qed auto

end

end
