(* ===== verification/Contraction_Round.thy ===== *)
theory Contraction_Round
  imports Independent_Set Overlay
begin

text \<open>
  One round of the contractor on the graph: contraction of a set of nodes that are far
  apart, removal of the edges into them, insertion of the shortcuts. The graph that is left
  refines the abstract notion of an overlay graph: it has the same distances between the
  nodes that stay, and it is again in the form that the next round needs.
\<close>

section \<open>Removing the edges into a node\<close>

lemma distinct_unique: "sorted xs \<Longrightarrow> distinct (remdups_adj xs)"
  for xs :: "'a::linorder list"
  by (induction xs rule: remdups_adj.induct) (auto simp: le_less)

lemma foldM_targets:
  assumes "dg_ok g" and "u < dg_number_of_nodes g"
  shows "foldM (\<lambda>e neighbours. do { v \<leftarrow> dg_GetTarget g e; Some (if v \<noteq> u then neighbours @ [v] else neighbours) })
      (dg_range g u) [] = Some (filter (\<lambda>v. v \<noteq> u) (map ee_target (dg_out g u)))"
proof -
  have "foldM (\<lambda>e neighbours. do { v \<leftarrow> dg_GetTarget g e; Some (if v \<noteq> u then neighbours @ [v] else neighbours) }) js acc
      = Some (acc @ filter (\<lambda>v. v \<noteq> u) (map (\<lambda>i. ee_target (dg_edge_list g ! i)) js))"
    if "set js \<subseteq> set (dg_range g u)" for js acc
    using that
  proof (induction js arbitrary: acc)
    case (Cons i js)
    then show ?case
      using dg_range(3) [OF assms, of i] by simp
  qed simp
  from this [of "dg_range g u" "[]"] show ?thesis
    unfolding dg_range(5) [OF assms, symmetric] by (simp add: comp_def)
qed

text \<open>The memory that the graph takes.\<close>

definition not_larger :: "contractor_graph \<Rightarrow> contractor_graph \<Rightarrow> bool" where
  "not_larger g g' \<longleftrightarrow> length (dg_edge_list g') = length (dg_edge_list g)
     \<and> (\<forall>v < dg_number_of_nodes g. length (dg_out g' v) \<le> length (dg_out g v))"

lemma move_edge_length: "move_edge i j es = Some es' \<Longrightarrow> length es' = length es"
  by (auto simp: move_edge_def upd_opt_Some_iff split: bind_splits)

lemma makeDummy_length: "makeDummy i es = Some es' \<Longrightarrow> length es' = length es"
  by (auto simp: makeDummy_def upd_opt_Some_iff split: bind_splits)

lemma delete_run_length: "delete_run t i iend d es = Some (d', es') \<Longrightarrow> length es' = length es"
proof (induction t i iend d es arbitrary: d' es' rule: delete_run.induct)
  case (1 t i iend d es)
  note run = "1.prems" [unfolded delete_run.simps [of t i iend d es] Let_def]
  have pos: "\<not> iend \<le> d"
    using run by (simp split: if_splits)
  obtain es1 es2 again where s: "move_edge i (iend - (d + 1)) es = Some es1" "makeDummy (iend - (d + 1)) es1 = Some es2"
    "(if i < iend - (d + 1) then do { x \<leftarrow> nth_opt es2 i; Some (ee_target x = t) } else Some False) = Some again"
    "(if again then delete_run t i iend (d + 1) es2 else Some (d + 1, es2)) = Some (d', es')"
    using run unfolding if_not_P [OF pos] bind_eq_Some_conv by blast
  have "length es' = length es2"
    using "1.IH" [OF pos refl s(1,2,3)] s(4) by (cases again) auto
  with move_edge_length [OF s(1)] makeDummy_length [OF s(2)] show ?case by simp
qed

lemma delete_loop_length: "delete_loop t i iend d es = Some (d', es') \<Longrightarrow> length es' = length es"
proof (induction t i iend d es arbitrary: d' es' rule: delete_loop.induct)
  case (1 t i iend d es)
  note run = "1.prems" [unfolded delete_loop.simps [of t i iend d es]]
  show ?case
  proof (cases "i < iend - d")
    case True
    obtain x d1 es1 where s: "nth_opt es i = Some x"
      "(if ee_target x = t then delete_run t i iend d es else Some (d, es)) = Some (d1, es1)"
      "delete_loop t (i + 1) iend d1 es1 = Some (d', es')"
      using run unfolding if_P [OF True] bind_eq_Some_conv by auto
    have "length es' = length es1"
      using "1.IH" [OF True s(1,2) refl s(3)] .
    moreover have "length es1 = length es"
      using s(2) delete_run_length by (auto split: if_splits)
    ultimately show ?thesis by simp
  qed (use run in simp)
qed

lemma DeleteEdgesTo_length: "dg_DeleteEdgesTo v t g = Some (n, g') \<Longrightarrow> length (dg_edge_list g') = length (dg_edge_list g)"
  by (auto simp: dg_DeleteEdgesTo_def split: bind_splits prod.splits dest!: delete_loop_length)

text \<open>What the graph looks like after the edges from \<open>U\<close> to \<open>t\<close> are gone.\<close>

definition cut_edges :: "contractor_graph \<Rightarrow> NodeID set \<Rightarrow> NodeID \<Rightarrow> contractor_graph \<Rightarrow> bool" where
  "cut_edges g U t g' \<longleftrightarrow> dg_ok g' \<and> dg_number_of_nodes g' = dg_number_of_nodes g \<and> not_larger g g'
     \<and> (\<forall>v < dg_number_of_nodes g. if v \<in> U then set (dg_out g' v) = {x \<in> set (dg_out g v). ee_target x \<noteq> t}
          else dg_out g' v = dg_out g v)"

lemma cut_edgesD:
  assumes "cut_edges g U t g'"
  shows "dg_ok g'" and "dg_number_of_nodes g' = dg_number_of_nodes g"
    and "v < dg_number_of_nodes g \<Longrightarrow> v \<in> U \<Longrightarrow> set (dg_out g' v) = {x \<in> set (dg_out g v). ee_target x \<noteq> t}"
    and "v < dg_number_of_nodes g \<Longrightarrow> v \<notin> U \<Longrightarrow> dg_out g' v = dg_out g v" and "not_larger g g'"
  using assms by (simp_all add: cut_edges_def)

lemma delete_from_all:
  assumes "dg_ok g" and "set us \<subseteq> {..<dg_number_of_nodes g}" and "distinct us"
  shows "\<exists>g'. foldM (\<lambda>u g. do { (deleted, g) \<leftarrow> dg_DeleteEdgesTo u t g; Some g }) us g = Some g' \<and> cut_edges g (set us) t g'"
  using assms
proof (induction us arbitrary: g)
  case Nil
  then show ?case by (simp add: cut_edges_def not_larger_def)
next
  case (Cons u us)
  have u: "u < dg_number_of_nodes g"
    using Cons.prems by simp
  obtain n g1 where g1: "dg_DeleteEdgesTo u t g = Some (n, g1)" "dg_ok g1" "dg_number_of_nodes g1 = dg_number_of_nodes g"
    "mset (dg_out g1 u) = filter_mset (\<lambda>x. ee_target x \<noteq> t) (mset (dg_out g u))"
    "\<forall>w < dg_number_of_nodes g. w \<noteq> u \<longrightarrow> dg_out g1 w = dg_out g w"
    using DeleteEdgesTo_law [OF Cons.prems(1) u, of t] by blast
  have "length (dg_out g1 u) \<le> length (dg_out g u)"
    using arg_cong [OF g1(4), of size] by (simp flip: mset_filter)
  then have nl: "not_larger g g1"
    using g1(5) DeleteEdgesTo_length [OF g1(1)] unfolding not_larger_def by (metis order_refl)
  have set1: "set (dg_out g1 u) = {x \<in> set (dg_out g u). ee_target x \<noteq> t}"
    using arg_cong [OF g1(4), of set_mset] by auto
  have "set us \<subseteq> {..<dg_number_of_nodes g1}" "distinct us"
    using Cons.prems g1(3) by auto
  from Cons.IH [OF g1(2) this] obtain g2 where
    "foldM (\<lambda>u g. do { (deleted, g) \<leftarrow> dg_DeleteEdgesTo u t g; Some g }) us g1 = Some g2" "cut_edges g1 (set us) t g2"
    by blast
  moreover from this(2) nl g1(3) have "not_larger g g2"
    unfolding cut_edges_def not_larger_def by (metis order_trans)
  moreover from calculation(2) set1 g1(3,5) Cons.prems(3) have "cut_edges g (set (u # us)) t g2"
    using calculation(3) by (auto simp: cut_edges_def)
  ultimately show ?case
    using g1(1) by simp
qed

lemma DeleteIncomingEdges_law:
  assumes "dg_ok g" and "t < dg_number_of_nodes g"
  shows "\<exists>neighbours g'. DeleteIncomingEdges data t g = Some (data\<lparr>td_neighbours := neighbours\<rparr>, g')
    \<and> cut_edges g (nbrs g t - {t}) t g'"
proof -
  let ?us = "remdups_adj (sort (filter (\<lambda>v. v \<noteq> t) (map ee_target (dg_out g t))))"
  have us: "set ?us = nbrs g t - {t}"
    by (auto simp: nbrs_def)
  have "set ?us \<subseteq> {..<dg_number_of_nodes g}" "distinct ?us"
    using dg_okD(3) [OF assms] unfolding us by (auto simp: nbrs_def distinct_unique)
  from delete_from_all [OF assms(1) this] obtain g' where
    "foldM (\<lambda>u g. do { (deleted, g) \<leftarrow> dg_DeleteEdgesTo u t g; Some g }) ?us g = Some g'" "cut_edges g (nbrs g t - {t}) t g'"
    unfolding us by blast
  with foldM_targets [OF assms] dg_range(1) [OF assms] show ?thesis
    by (auto simp: DeleteIncomingEdges_def Let_def)
qed

text \<open>
  Removing all edges into the nodes of a set that is far apart. The order of the nodes does
  not matter, since the lists of the set itself stay as they are.
\<close>

definition without_edges_to :: "contractor_graph \<Rightarrow> NodeID set \<Rightarrow> NodeID set \<Rightarrow> NodeID set \<Rightarrow> contractor_graph \<Rightarrow> bool" where
  "without_edges_to g R S T g' \<longleftrightarrow> dg_ok g' \<and> dg_number_of_nodes g' = dg_number_of_nodes g \<and> not_larger g g'
     \<and> (\<forall>v \<in> S. dg_out g' v = dg_out g v) \<and> (\<forall>v < dg_number_of_nodes g. v \<notin> R \<longrightarrow> dg_out g' v = dg_out g v)
     \<and> (\<forall>v \<in> R - S. set (dg_out g' v) = {x \<in> set (dg_out g v). ee_target x \<notin> T})"

lemma without_edges_toD:
  assumes "without_edges_to g R S T g'"
  shows "dg_ok g'" and "dg_number_of_nodes g' = dg_number_of_nodes g" and "v \<in> S \<Longrightarrow> dg_out g' v = dg_out g v"
    and "v \<in> R - S \<Longrightarrow> set (dg_out g' v) = {x \<in> set (dg_out g v). ee_target x \<notin> T}" and "not_larger g g'"
    and "v < dg_number_of_nodes g \<Longrightarrow> v \<notin> R \<Longrightarrow> dg_out g' v = dg_out g v"
  using assms by (simp_all add: without_edges_to_def)

lemma without_edges_to_step:
  assumes W: "without_edges_to g R S T g1" and C: "cut_edges g1 (nbrs g1 t - {t}) t g2"
    and m: "mirrored R g" and far: "far_apart g S" and S: "S \<subseteq> R" and t: "t \<in> S"
  shows "without_edges_to g R S (insert t T) g2"
proof -
  note W' = without_edges_toD [OF W] and C' = cut_edgesD [OF C]
  have nb: "nbrs g1 t = nbrs g t"
    by (simp add: nbrs_def W'(3) [OF t])
  have n: "v < dg_number_of_nodes g1" if "v \<in> R" for v
    using mirroredD(1) [OF m that] W'(2) by simp
  have "dg_out g2 v = dg_out g v" if v: "v \<in> S" for v
  proof -
    have "v \<notin> nbrs g1 t - {t}"
      using far_apartD(1) [OF far t v] by (auto simp: nb)
    then have "dg_out g2 v = dg_out g1 v"
      using n v S by (intro C'(4)) auto
    with W'(3) [OF v] show ?thesis by simp
  qed
  moreover have "set (dg_out g2 v) = {x \<in> set (dg_out g v). ee_target x \<notin> insert t T}" if v: "v \<in> R - S" for v
  proof -
    have vn: "v < dg_number_of_nodes g1"
      using n v by simp
    have "set (dg_out g2 v) = {x \<in> set (dg_out g1 v). ee_target x \<noteq> t}"
    proof (cases "v \<in> nbrs g1 t - {t}")
      case True
      then show ?thesis by (rule C'(3) [OF vn])
    next
      case False
      then have "v \<notin> nbrs g t"
        using v t by (auto simp: nb)
      then have "t \<notin> nbrs g v"
        using nbrs_sym [OF m, of v t] v by blast
      then have "\<forall>x \<in> set (dg_out g1 v). ee_target x \<noteq> t"
        unfolding W'(4) [OF v] nbrs_def by blast
      with C'(4) [OF vn False] show ?thesis by auto
    qed
    with W'(4) [OF v] show ?thesis by auto
  qed
  moreover have "not_larger g g2"
    using W'(2,5) C'(5) unfolding not_larger_def by (metis order_trans)
  moreover have "dg_out g2 v = dg_out g v" if v: "v < dg_number_of_nodes g" "v \<notin> R" for v
  proof -
    have "v \<notin> nbrs g1 t - {t}"
      using nbrs_in [OF m, of t v] t S v(2) by (auto simp: nb)
    with C'(4) [of v] W'(2) v(1) W'(6) [OF v] show ?thesis by simp
  qed
  ultimately show ?thesis
    using C'(1,2) W'(2) by (simp add: without_edges_to_def)
qed

lemma delete_all_law:
  assumes ok: "dg_ok g" and m: "mirrored R g" and far: "far_apart g (set nodes)" and S: "set nodes \<subseteq> R"
  shows "\<exists>data' g'. delete_all nodes (data, g) = Some (data', g') \<and> without_edges_to g R (set nodes) (set nodes) g'
    \<and> td_hash data' = td_hash data \<and> td_heap data' = td_heap data \<and> td_inserted_edges data' = td_inserted_edges data"
proof -
  let ?I = "\<lambda>done (data' :: contractor_thread_data, g'). without_edges_to g R (set nodes) (set done) g'
    \<and> td_hash data' = td_hash data \<and> td_heap data' = td_heap data \<and> td_inserted_edges data' = td_inserted_edges data"
  have "\<exists>s. foldM (\<lambda>x (data, g). DeleteIncomingEdges data x g) nodes (data, g) = Some s \<and> ?I nodes s"
  proof (rule foldM_invariant [where I = ?I])
    show "?I [] (data, g)"
      using ok by (simp add: without_edges_to_def not_larger_def)
  next
    fix t "done" todo s
    assume split: "nodes = done @ t # todo" and I: "?I done s"
    obtain d1 g1 where s: "s = (d1, g1)"
      by (rule prod.exhaust)
    have W: "without_edges_to g R (set nodes) (set done) g1"
      using I by (simp add: s)
    have t: "t \<in> set nodes"
      by (simp add: split)
    then have "t < dg_number_of_nodes g1" "dg_ok g1"
      using W mirroredD(1) [OF m] S by (auto simp: without_edges_to_def)
    from DeleteIncomingEdges_law [OF this(2,1), of d1] obtain ns g2 where
      "DeleteIncomingEdges d1 t g1 = Some (d1\<lparr>td_neighbours := ns\<rparr>, g2)" "cut_edges g1 (nbrs g1 t - {t}) t g2"
      by blast
    with without_edges_to_step [OF W this(2) m far S t] I
    show "\<exists>s'. (case s of (data, g) \<Rightarrow> DeleteIncomingEdges data t g) = Some s' \<and> ?I (done @ [t]) s'"
      by (simp add: s)
  qed
  then show ?thesis
    by (auto simp: delete_all_def)
qed

section \<open>Contracting all nodes of the round\<close>

lemma contract_all_law:
  assumes cg: "cg_ok deg g" and sr: "search_room deg" and "set nodes \<subseteq> {..<dg_number_of_nodes g}"
    and "worker_ok data0 (c + (\<Sum>x \<leftarrow> nodes. length (dg_out g x))) data"
  shows "\<exists>data' news. contract_all g nodes data = Some data' \<and> worker_ok data0 c data'
    \<and> td_inserted_edges data' = td_inserted_edges data @ concat news \<and> list_all2 (replaces g) nodes news
    \<and> length (concat news) \<le> length nodes * (deg * (2 * deg))"
  using assms(3,4)
proof (induction nodes arbitrary: data)
  case Nil
  then show ?case
    by (simp add: contract_all_def exI [of _ "[]"])
next
  case (Cons x nodes)
  have x: "x < dg_number_of_nodes g" and nodes: "set nodes \<subseteq> {..<dg_number_of_nodes g}"
    and w: "worker_ok data0 ((c + (\<Sum>x \<leftarrow> nodes. length (dg_out g x))) + length (dg_out g x)) data"
    using Cons.prems by (auto simp: ac_simps)
  obtain d1 st new where d1: "ContractNode False g data x ContractionStats = Some (d1, st)"
    "worker_ok data0 (c + (\<Sum>x \<leftarrow> nodes. length (dg_out g x))) d1"
    "td_inserted_edges d1 = td_inserted_edges data @ dedup new" "bypasses g x (set (dg_out g x)) new"
    "length (dedup new) \<le> deg * (2 * deg)"
    using ContractNode_law [OF cg sr x w, of False ContractionStats] by auto
  obtain d2 news where d2: "contract_all g nodes d1 = Some d2" "worker_ok data0 c d2"
    "td_inserted_edges d2 = td_inserted_edges d1 @ concat news" "list_all2 (replaces g) nodes news"
    "length (concat news) \<le> length nodes * (deg * (2 * deg))"
    using Cons.IH [OF nodes d1(2)] by blast
  have "contract_all g (x # nodes) data = Some d2"
    using d1(1) d2(1) by (simp add: contract_all_def)
  with d1 d2 replaces_dedup [OF cg x d1(4)] show ?case
    by (intro exI [of _ d2] exI [of _ "dedup new # news"]) simp
qed

section \<open>Inserting the shortcuts\<close>

text \<open>Assignment to the data of an edge.\<close>

lemma SetEdgeData_law:
  assumes ok: "dg_ok g" and v: "v < dg_number_of_nodes g" and i: "i \<in> set (dg_range g v)"
  shows "\<exists>g'. dg_SetEdgeData g i d = Some g' \<and> dg_ok g' \<and> dg_number_of_nodes g' = dg_number_of_nodes g
    \<and> (\<forall>w < dg_number_of_nodes g. w \<noteq> v \<longrightarrow> dg_out g' w = dg_out g w)
    \<and> dg_out g' v = (dg_out g v)[i - first_of g v := (dg_edge_list g ! i)\<lparr>ee_data := d\<rparr>]"
proof -
  let ?x = "(dg_edge_list g ! i)\<lparr>ee_data := d\<rparr>"
  let ?g = "g\<lparr>dg_edge_list := (dg_edge_list g)[i := ?x]\<rparr>"
  have i': "first_of g v \<le> i" "i < past_of g v" "i < length (dg_edge_list g)"
    using i dg_okD(2) [OF ok v] by (auto simp: dg_range_def)
  have run: "dg_SetEdgeData g i d = Some ?g"
    using i'(3) by (simp add: dg_SetEdgeData_def)
  have seg: "seg (dg_edge_list ?g) (first_of g v) (past_of g v) = (dg_out g v)[i - first_of g v := ?x]"
    using i' dg_okD(2) [OF ok v] unfolding dg_out_def by (intro nth_equalityI) (auto simp: nth_list_update)
  have xs: "set ((dg_out g v)[i - first_of g v := ?x]) \<subseteq> insert ?x (set (dg_out g v))"
    by (rule set_update_subset_insert)
  have "ee_target ?x < dg_number_of_nodes g"
    using dg_okD(3) [OF ok v dg_range(4) [OF ok v i]] by simp
  then have targets: "\<forall>x \<in> set (seg (dg_edge_list ?g) (first_of g v) (past_of g v)). ee_target x < dg_number_of_nodes g"
    unfolding seg using xs dg_okD(3) [OF ok v] by auto
  have other: "dg_edge_list ?g ! j = dg_edge_list g ! j \<and> (j < first_of g v \<or> past_of g v \<le> j)"
    if "w < dg_number_of_nodes g" "w \<noteq> v" "first_of g w \<le> j" "j < past_of g w" for w j
    using dg_okD(5) [OF ok that(1) v that(2-4)] i' by auto
  have node: "dg_node_array ?g = (dg_node_array g)[v := dg_node_array g ! v]"
    by simp
  note rep = dg_ok_replace [OF ok v _ node _ _ other targets]
  have "dg_ok ?g" "dg_out ?g v = (dg_out g v)[i - first_of g v := ?x]"
    using rep(1) rep(3) seg dg_okD(2) [OF ok v] by simp_all
  moreover have "dg_out ?g w = dg_out g w" if "w < dg_number_of_nodes g" "w \<noteq> v" for w
    using rep(2) that dg_okD(2) [OF ok v] by simp
  ultimately show ?thesis
    using run by auto
qed

lemma foldM_length:
  assumes "\<And>x s s'. f x s = Some s' \<Longrightarrow> length s' = length s"
  shows "foldM f xs s = Some s' \<Longrightarrow> length s' = length s"
  by (induction xs arbitrary: s) (auto split: bind_splits dest!: assms)

lemma relocate_length:
  assumes "relocate entry node es = Some (node', es')"
  shows "length es' = length es + newSize (dn_edges node)"
proof -
  let ?n = "newSize (dn_edges node)" and ?k = "length es"
  let ?move = "\<lambda>i es. do { es \<leftarrow> move_edge (?k + i) (dn_first_edge node + i) es; makeDummy (dn_first_edge node + i) es }"
  obtain r1 es1 r2 where f: "foldM ?move r1 (es @ replicate ?n entry) = Some es1"
    "foldM (\<lambda>i. makeDummy (?k + i)) r2 es1 = Some es'"
    using assms by (auto simp: relocate_def Let_def split: bind_splits)
  have "length es1 = length (es @ replicate ?n entry)"
    by (rule foldM_length [OF _ f(1)]) (auto split: bind_splits dest!: move_edge_length makeDummy_length)
  moreover have "length es' = length es1"
    by (rule foldM_length [OF _ f(2)]) (rule makeDummy_length)
  ultimately show ?thesis by simp
qed

lemma make_room_length: "make_room entry node es = Some (node', es') \<Longrightarrow> length es' \<le> length es + newSize (dn_edges node)"
  by (auto simp: make_room_def Let_def split: bind_splits if_splits dest!: relocate_length move_edge_length)

lemma InsertEdge_length:
  assumes "dg_ok g" and "v < dg_number_of_nodes g" and "dg_InsertEdge entry v t d g = Some (k, g')"
  shows "length (dg_edge_list g') \<le> length (dg_edge_list g) + newSize (length (dg_out g v))"
  using assms(3) dg_okD(1) [OF assms(1,2)]
  by (auto simp: dg_InsertEdge_def dg_out_def upd_opt_Some_iff split: bind_splits prod.splits dest!: make_room_length)

text \<open>An entry that makes another one superfluous, and what insertion of an entry does.\<close>

definition covers :: "contractor_edge_data edge_entry \<Rightarrow> contractor_edge_data edge_entry \<Rightarrow> bool" where
  "covers y z \<longleftrightarrow> ee_target y = ee_target z \<and> ce_forward (ee_data y) = ce_forward (ee_data z)
     \<and> ce_backward (ee_data y) = ce_backward (ee_data z) \<and> ce_distance (ee_data y) \<le> ce_distance (ee_data z)"

definition absorbed :: "contractor_graph \<Rightarrow> NodeID \<Rightarrow> contractor_edge_data edge_entry \<Rightarrow> contractor_graph \<Rightarrow> bool" where
  "absorbed g s y g' \<longleftrightarrow> dg_ok g' \<and> dg_number_of_nodes g' = dg_number_of_nodes g
     \<and> (\<forall>v < dg_number_of_nodes g. v \<noteq> s \<longrightarrow> dg_out g' v = dg_out g v)
     \<and> y \<in> set (dg_out g' s) \<and> set (dg_out g' s) \<subseteq> insert y (set (dg_out g s))
     \<and> (\<forall>z \<in> set (dg_out g s). covers y z \<or> z \<in> set (dg_out g' s))"

lemma dg_FindEdge_cases:
  assumes ok: "dg_ok g" and v: "v < dg_number_of_nodes g" and len: "length (dg_edge_list g) \<le> SPECIAL_EDGEID"
  obtains i where "dg_FindEdge g v t = Some i" "i \<in> set (dg_range g v)" "ee_target (dg_edge_list g ! i) = t"
      "dg_EndEdges g v = Some (past_of g v)" "i < past_of g v"
  | "dg_FindEdge g v t = Some SPECIAL_EDGEID" "dg_EndEdges g v = Some (past_of g v)" "\<not> SPECIAL_EDGEID < past_of g v"
proof -
  have E: "dg_EndEdges g v = Some (past_of g v)"
    using dg_okD(1) [OF ok v] by (simp add: dg_EndEdges_def)
  have "\<forall>i \<in> set (dg_range g v). i < length (dg_edge_list g)"
    using dg_okD(2) [OF ok v] by (auto simp: dg_range_def)
  then show thesis
  proof (rule find_edge_loop_cases [of "dg_range g v" "dg_edge_list g" t])
    fix i
    assume "find_edge_loop (dg_edge_list g) t (dg_range g v) = Some i" "i \<in> set (dg_range g v)" "ee_target (dg_edge_list g ! i) = t"
    with that(1) [of i] E dg_range(1) [OF ok v] show thesis
      by (simp add: dg_FindEdge_def) (simp add: dg_range_def)
  next
    assume "find_edge_loop (dg_edge_list g) t (dg_range g v) = Some SPECIAL_EDGEID"
    with that(2) E dg_range(1) [OF ok v] dg_okD(2) [OF ok v] len show thesis
      by (simp add: dg_FindEdge_def)
  qed
qed

lemma insert_shortcut_law:
  assumes ok: "dg_ok g" and e: "ie_source e < dg_number_of_nodes g" "ie_target e < dg_number_of_nodes g"
    and len: "length (dg_edge_list g) \<le> SPECIAL_EDGEID"
  shows "\<exists>g'. insert_shortcut e g = Some g' \<and> absorbed g (ie_source e) (to_entry e) g'
    \<and> length (dg_out g' (ie_source e)) \<le> Suc (length (dg_out g (ie_source e)))
    \<and> length (dg_edge_list g') \<le> length (dg_edge_list g) + newSize (length (dg_out g (ie_source e)))"
proof -
  let ?s = "ie_source e" and ?t = "ie_target e"
  obtain k g1 where g1: "dg_InsertEdge contractor_entry ?s ?t (ie_data e) g = Some (k, g1)" "dg_ok g1"
    "dg_number_of_nodes g1 = dg_number_of_nodes g"
    "mset (dg_out g1 ?s) = add_mset \<lparr>ee_target = ?t, ee_data = ie_data e\<rparr> (mset (dg_out g ?s))"
    "\<forall>w < dg_number_of_nodes g. w \<noteq> ?s \<longrightarrow> dg_out g1 w = dg_out g w"
    using InsertEdge_law [OF ok e] by blast
  have "set (dg_out g1 ?s) = insert (to_entry e) (set (dg_out g ?s))"
    using arg_cong [OF g1(4), of set_mset] by (simp add: to_entry_def)
  with g1 have ins: "absorbed g ?s (to_entry e) g1"
    by (auto simp: absorbed_def)
  have grown: "length (dg_out g1 ?s) \<le> Suc (length (dg_out g ?s))"
    "length (dg_edge_list g1) \<le> length (dg_edge_list g) + newSize (length (dg_out g ?s))"
    using arg_cong [OF g1(4), of size] InsertEdge_length [OF ok e(1) g1(1)] by simp_all
  show ?thesis
  proof (rule dg_FindEdge_cases [OF ok e(1) len, of ?t])
    fix i
    assume find: "dg_FindEdge g ?s ?t = Some i" and i: "i \<in> set (dg_range g ?s)" and t: "ee_target (dg_edge_list g ! i) = ?t"
      and past: "dg_EndEdges g ?s = Some (past_of g ?s)" "i < past_of g ?s"
    let ?z = "dg_edge_list g ! i"
    let ?better = "ce_shortcut (ee_data ?z) \<and> ce_forward (ie_data e) = ce_forward (ee_data ?z)
           \<and> ce_backward (ie_data e) = ce_backward (ee_data ?z) \<and> ce_distance (ie_data e) < ce_distance (ee_data ?z)"
    note R = dg_range [OF ok e(1)]
    show ?thesis
    proof (cases ?better)
      case False
      then have "insert_shortcut e g = Some g1"
        using find past R(2) [OF i] g1(1) by (auto simp: insert_shortcut_def)
      with ins grown show ?thesis by blast
    next
      case True
      obtain g2 where g2: "dg_SetEdgeData g i (ie_data e) = Some g2" "dg_ok g2" "dg_number_of_nodes g2 = dg_number_of_nodes g"
        "\<forall>w < dg_number_of_nodes g. w \<noteq> ?s \<longrightarrow> dg_out g2 w = dg_out g w"
        "dg_out g2 ?s = (dg_out g ?s)[i - first_of g ?s := ?z\<lparr>ee_data := ie_data e\<rparr>]"
        using SetEdgeData_law [OF ok e(1) i] by blast
      have y: "?z\<lparr>ee_data := ie_data e\<rparr> = to_entry e"
        using t by (simp add: to_entry_def)
      have pos: "i - first_of g ?s < length (dg_out g ?s)" "dg_out g ?s ! (i - first_of g ?s) = ?z"
        using i by (auto simp: dg_range_def dg_out_def)
      have out: "dg_out g2 ?s = (dg_out g ?s)[i - first_of g ?s := to_entry e]"
        using g2(5) by (simp only: y)
      have "covers (to_entry e) ?z"
        using True t by (simp add: covers_def to_entry_def)
      moreover have "z = ?z \<or> z \<in> set (dg_out g2 ?s)" if "z \<in> set (dg_out g ?s)" for z
        using that pos unfolding out by (metis in_set_conv_nth length_list_update nth_list_update_neq)
      moreover have "to_entry e \<in> set (dg_out g2 ?s)" "set (dg_out g2 ?s) \<subseteq> insert (to_entry e) (set (dg_out g ?s))"
        unfolding out by (rule set_update_memI [OF pos(1)], rule set_update_subset_insert)
      ultimately have "absorbed g ?s (to_entry e) g2"
        using g2(2-4) unfolding absorbed_def by blast
      moreover have "insert_shortcut e g = Some g2"
        using find past R(2) [OF i] True g2(1) by (simp add: insert_shortcut_def)
      moreover have "length (dg_out g2 ?s) = length (dg_out g ?s)" "length (dg_edge_list g2) = length (dg_edge_list g)"
        using out g2(1) by (auto simp: dg_SetEdgeData_def upd_opt_Some_iff split: bind_splits)
      ultimately show ?thesis by auto
    qed
  next
    assume "dg_FindEdge g ?s ?t = Some SPECIAL_EDGEID" "dg_EndEdges g ?s = Some (past_of g ?s)" "\<not> SPECIAL_EDGEID < past_of g ?s"
    then have "insert_shortcut e g = Some g1"
      using g1(1) by (simp add: insert_shortcut_def)
    with ins grown show ?thesis by blast
  qed
qed

lemma covers_refl [simp]: "covers y y"
  by (simp add: covers_def)

lemma covers_trans: "covers x y \<Longrightarrow> covers y z \<Longrightarrow> covers x z"
  by (auto simp: covers_def)

text \<open>The graph after all shortcuts are in: nothing is lost, and nothing else is added.\<close>

definition with_shortcuts :: "contractor_graph \<Rightarrow> contractor_edge list \<Rightarrow> contractor_graph \<Rightarrow> bool" where
  "with_shortcuts g es g' \<longleftrightarrow> dg_ok g' \<and> dg_number_of_nodes g' = dg_number_of_nodes g
     \<and> (\<forall>v < dg_number_of_nodes g. \<forall>z \<in> set (dg_out g v). \<exists>y \<in> set (dg_out g' v). covers y z)
     \<and> (\<forall>e \<in> set es. \<exists>y \<in> set (dg_out g' (ie_source e)). covers y (to_entry e))
     \<and> (\<forall>v < dg_number_of_nodes g. set (dg_out g' v) \<subseteq> set (dg_out g v) \<union> to_entry ` {e \<in> set es. ie_source e = v})"

lemma with_shortcutsD:
  assumes "with_shortcuts g es g'"
  shows "dg_ok g'" and "dg_number_of_nodes g' = dg_number_of_nodes g"
    and "v < dg_number_of_nodes g \<Longrightarrow> z \<in> set (dg_out g v) \<Longrightarrow> \<exists>y \<in> set (dg_out g' v). covers y z"
    and "e \<in> set es \<Longrightarrow> \<exists>y \<in> set (dg_out g' (ie_source e)). covers y (to_entry e)"
    and "v < dg_number_of_nodes g \<Longrightarrow> y \<in> set (dg_out g' v) \<Longrightarrow>
      y \<in> set (dg_out g v) \<or> (\<exists>e \<in> set es. ie_source e = v \<and> y = to_entry e)"
  using assms unfolding with_shortcuts_def by blast+

lemma absorbed_step:
  assumes W: "with_shortcuts g es g1" and A: "absorbed g1 (ie_source e) (to_entry e) g2"
    and e: "ie_source e < dg_number_of_nodes g" and src: "\<forall>f \<in> set es. ie_source f < dg_number_of_nodes g"
  shows "with_shortcuts g (es @ [e]) g2"
proof -
  note W' = with_shortcutsD [OF W]
  have A': "dg_ok g2" "dg_number_of_nodes g2 = dg_number_of_nodes g"
    "\<And>v. v < dg_number_of_nodes g \<Longrightarrow> v \<noteq> ie_source e \<Longrightarrow> dg_out g2 v = dg_out g1 v"
    "to_entry e \<in> set (dg_out g2 (ie_source e))"
    "set (dg_out g2 (ie_source e)) \<subseteq> insert (to_entry e) (set (dg_out g1 (ie_source e)))"
    "\<And>z. z \<in> set (dg_out g1 (ie_source e)) \<Longrightarrow> covers (to_entry e) z \<or> z \<in> set (dg_out g2 (ie_source e))"
    using A W'(2) by (auto simp: absorbed_def)
  have keep: "\<exists>y \<in> set (dg_out g2 v). covers y z" if "v < dg_number_of_nodes g" "\<exists>y \<in> set (dg_out g1 v). covers y z" for v z
  proof (cases "v = ie_source e")
    case True
    with that(2) A'(4,6) covers_trans show ?thesis by metis
  next
    case False
    with that A'(3) show ?thesis by simp
  qed
  show ?thesis
    unfolding with_shortcuts_def
  proof (intro conjI allI ballI impI)
    show "\<exists>y \<in> set (dg_out g2 v). covers y z" if "v < dg_number_of_nodes g" "z \<in> set (dg_out g v)" for v z
      using keep [OF that(1)] W'(3) [OF that] by blast
    show "\<exists>y \<in> set (dg_out g2 (ie_source f)). covers y (to_entry f)" if f: "f \<in> set (es @ [e])" for f
    proof (cases "f \<in> set es")
      case True
      then show ?thesis
        using keep [OF _ W'(4)] src by blast
    next
      case False
      with f have "f = e" by simp
      with A'(4) covers_refl show ?thesis by blast
    qed
    show "set (dg_out g2 v) \<subseteq> set (dg_out g v) \<union> to_entry ` {f \<in> set (es @ [e]). ie_source f = v}" if v: "v < dg_number_of_nodes g" for v
    proof
      fix y
      assume y: "y \<in> set (dg_out g2 v)"
      then consider "v = ie_source e" "y = to_entry e" | "y \<in> set (dg_out g1 v)"
        using A'(3) [OF v] A'(5) by (cases "v = ie_source e") auto
      then show "y \<in> set (dg_out g v) \<union> to_entry ` {f \<in> set (es @ [e]). ie_source f = v}"
      proof cases
        case 2
        from W'(5) [OF v this] show ?thesis by auto
      qed auto
    qed
  qed (use A' in auto)
qed

lemma newSize_le: "e \<le> b \<Longrightarrow> newSize e \<le> 2 * b + 2"
  by (simp add: newSize_def)

lemma insert_all_law:
  assumes ok: "dg_ok g" and es: "\<forall>e \<in> set es. ie_source e < dg_number_of_nodes g \<and> ie_target e < dg_number_of_nodes g"
    and B: "\<forall>v < dg_number_of_nodes g. length (dg_out g v) \<le> B"
    and room: "length (dg_edge_list g) + length es * (2 * (B + length es) + 2) \<le> SPECIAL_EDGEID"
  shows "\<exists>g'. foldM insert_shortcut es g = Some g' \<and> with_shortcuts g es g'
    \<and> (\<forall>v < dg_number_of_nodes g. length (dg_out g' v) \<le> B + length es)
    \<and> length (dg_edge_list g') \<le> length (dg_edge_list g) + length es * (2 * (B + length es) + 2)"
proof -
  let ?k = "2 * (B + length es) + 2"
  let ?I = "\<lambda>done g'. with_shortcuts g done g' \<and> (\<forall>v < dg_number_of_nodes g. length (dg_out g' v) \<le> B + length done)
    \<and> length (dg_edge_list g') \<le> length (dg_edge_list g) + length done * ?k"
  have "\<exists>g'. foldM insert_shortcut es g = Some g' \<and> ?I es g'"
  proof (rule foldM_invariant [where I = ?I])
    show "?I [] g"
      using ok B by (auto simp: with_shortcuts_def intro: covers_refl)
  next
    fix e "done" todo g1
    assume split: "es = done @ e # todo" and I: "?I done g1"
    note W = with_shortcutsD [OF conjunct1 [OF I]]
    have e: "ie_source e < dg_number_of_nodes g" "ie_target e < dg_number_of_nodes g"
      and src: "\<forall>f \<in> set done. ie_source f < dg_number_of_nodes g"
      using es by (auto simp: split)
    have dl: "Suc (length done) \<le> length es"
      by (simp add: split)
    then have "length done * ?k \<le> length es * ?k"
      by (intro mult_le_mono1) simp
    then have len: "length (dg_edge_list g1) \<le> SPECIAL_EDGEID"
      using I room by linarith
    obtain g2 where g2: "insert_shortcut e g1 = Some g2" "absorbed g1 (ie_source e) (to_entry e) g2"
      "length (dg_out g2 (ie_source e)) \<le> Suc (length (dg_out g1 (ie_source e)))"
      "length (dg_edge_list g2) \<le> length (dg_edge_list g1) + newSize (length (dg_out g1 (ie_source e)))"
      using insert_shortcut_law [OF W(1) _ _ len, of e] e W(2) by auto
    have "length (dg_out g1 (ie_source e)) \<le> B + length es"
      using I e(1) dl by (meson add_left_mono le_trans less_imp_le_nat Suc_leD)
    then have "length (dg_edge_list g2) \<le> length (dg_edge_list g) + length (done @ [e]) * ?k"
      using g2(4) I newSize_le [of "length (dg_out g1 (ie_source e))" "B + length es"] by simp
    moreover have "length (dg_out g2 v) \<le> B + length (done @ [e])" if v: "v < dg_number_of_nodes g" for v
    proof (cases "v = ie_source e")
      case True
      have "length (dg_out g1 v) \<le> B + length done"
        using I v by blast
      with g2(3) True show ?thesis by simp
    next
      case False
      have "dg_out g2 v = dg_out g1 v"
        using g2(2) v False W(2) by (simp add: absorbed_def)
      with I v show ?thesis by (simp add: le_SucI)
    qed
    ultimately show "\<exists>g'. insert_shortcut e g1 = Some g' \<and> ?I (done @ [e]) g'"
      using absorbed_step [OF conjunct1 [OF I] g2(2) e(1) src] g2(1) by blast
  qed
  then show ?thesis by blast
qed

section \<open>The result of a round\<close>

text \<open>All shortcuts of the round together.\<close>

definition shortcuts_for :: "contractor_graph \<Rightarrow> NodeID set \<Rightarrow> contractor_edge list \<Rightarrow> bool" where
  "shortcuts_for g S es \<longleftrightarrow>
     (\<forall>x \<in> S. \<forall>u v a b. bedge g x u a \<and> fedge g x v b \<longrightarrow>
        (\<exists>d \<le> a + b. walk (around g x) u v d) \<or> (u, v, a + b, True) \<in> ways es)
     \<and> (\<forall>u v d. (u, v, d, True) \<in> ways es \<longleftrightarrow> (v, u, d, False) \<in> ways es)
     \<and> (\<forall>u v d. (u, v, d, True) \<in> ways es \<longrightarrow> u \<noteq> v \<and> (\<exists>x \<in> S. \<exists>a b. bedge g x u a \<and> fedge g x v b \<and> d = a + b))
     \<and> (\<forall>e \<in> set es. ce_forward (ie_data e) \<or> ce_backward (ie_data e))"

lemma shortcuts_forD:
  assumes "shortcuts_for g S es"
  shows "x \<in> S \<Longrightarrow> bedge g x u a \<Longrightarrow> fedge g x v b \<Longrightarrow>
      (\<exists>d \<le> a + b. walk (around g x) u v d) \<or> (u, v, a + b, True) \<in> ways es"
    and "(u, v, d, True) \<in> ways es \<longleftrightarrow> (v, u, d, False) \<in> ways es"
    and "(u, v, d, True) \<in> ways es \<Longrightarrow> u \<noteq> v"
    and "(u, v, d, True) \<in> ways es \<Longrightarrow> \<exists>x \<in> S. \<exists>a b. bedge g x u a \<and> fedge g x v b \<and> d = a + b"
    and "e \<in> set es \<Longrightarrow> ce_forward (ie_data e) \<or> ce_backward (ie_data e)"
  using assms unfolding shortcuts_for_def by blast+

lemma ways_cong: "set es = set fs \<Longrightarrow> ways es = ways fs"
  by (simp add: ways_def)

lemma ways_concat: "ways (concat ess) = (\<Union>es \<in> set ess. ways es)"
  by (induction ess) auto

lemma shortcuts_for_all:
  assumes rep: "list_all2 (replaces g) nodes news" and es: "set es = set (concat news)"
  shows "shortcuts_for g (set nodes) es"
proof -
  have w: "ways es = (\<Union>new \<in> set news. ways new)"
    using ways_cong [OF es] ways_concat by simp
  have from_node: "\<exists>new \<in> set news. replaces g x new" if "x \<in> set nodes" for x
    using rep that by (metis in_set_conv_nth list_all2_conv_all_nth)
  have from_news: "\<exists>x \<in> set nodes. replaces g x new" if "new \<in> set news" for new
    using rep that by (metis in_set_conv_nth list_all2_conv_all_nth)
  show ?thesis
    unfolding shortcuts_for_def
  proof (intro conjI ballI allI impI)
    fix x u v a b
    assume x: "x \<in> set nodes" and "bedge g x u a \<and> fedge g x v b"
    with from_node [OF x] show "(\<exists>d \<le> a + b. walk (around g x) u v d) \<or> (u, v, a + b, True) \<in> ways es"
      unfolding w replaces_def by blast
  next
    fix u v d
    have "(u, v, d, True) \<in> ways new \<longleftrightarrow> (v, u, d, False) \<in> ways new" if "new \<in> set news" for new
      using from_news [OF that] unfolding replaces_def by blast
    then show "(u, v, d, True) \<in> ways es \<longleftrightarrow> (v, u, d, False) \<in> ways es"
      unfolding w by auto
    assume "(u, v, d, True) \<in> ways es"
    then obtain new where new: "new \<in> set news" "(u, v, d, True) \<in> ways new"
      unfolding w by blast
    from from_news [OF new(1)] obtain x where "x \<in> set nodes" "replaces g x new" by blast
    with new(2) show "u \<noteq> v" "\<exists>x \<in> set nodes. \<exists>a b. bedge g x u a \<and> fedge g x v b \<and> d = a + b"
      unfolding replaces_def by blast+
  next
    fix e
    assume "e \<in> set es"
    then obtain new where new: "new \<in> set news" "e \<in> set new"
      unfolding es by auto
    with from_news [OF new(1)] show "ce_forward (ie_data e) \<or> ce_backward (ie_data e)"
      unfolding replaces_def by blast
  qed
qed

definition round_result ::
  "nat \<Rightarrow> NodeID set \<Rightarrow> NodeID set \<Rightarrow> contractor_graph \<Rightarrow> contractor_edge list \<Rightarrow> contractor_graph \<Rightarrow> bool" where
  "round_result deg R S g es g' \<longleftrightarrow> cg_ok deg g \<and> mirrored R g \<and> far_apart g S \<and> S \<subseteq> R \<and> shortcuts_for g S es
     \<and> (\<exists>g1. without_edges_to g R S S g1 \<and> with_shortcuts g1 es g')
     \<and> (\<forall>v < dg_number_of_nodes g. length (dg_out g' v) \<le> deg + length es)
     \<and> length (dg_edge_list g') \<le> length (dg_edge_list g) + length es * (2 * (deg + length es) + 2)"

lemma round_resultD:
  assumes "round_result deg R S g es g'"
  shows "cg_ok deg g" and "mirrored R g" and "far_apart g S" and "S \<subseteq> R" and "shortcuts_for g S es"
    and "dg_ok g'" and "dg_number_of_nodes g' = dg_number_of_nodes g"
    and "v < dg_number_of_nodes g \<Longrightarrow> length (dg_out g' v) \<le> deg + length es"
    and "length (dg_edge_list g') \<le> length (dg_edge_list g) + length es * (2 * (deg + length es) + 2)"
proof -
  obtain g1 where "without_edges_to g R S S g1" "with_shortcuts g1 es g'"
    using assms by (auto simp: round_result_def)
  with without_edges_toD(2) with_shortcutsD(1,2) show "dg_ok g'" "dg_number_of_nodes g' = dg_number_of_nodes g"
    by metis+
qed (use assms in \<open>simp_all add: round_result_def\<close>)

text \<open>Edges in either direction, to treat forward and backward entries together.\<close>

definition dedge :: "contractor_graph \<Rightarrow> bool \<Rightarrow> NodeID \<Rightarrow> NodeID \<Rightarrow> int \<Rightarrow> bool" where
  "dedge g dir u v w \<longleftrightarrow> u < dg_number_of_nodes g \<and> (\<exists>x \<in> set (dg_out g u). ee_target x = v
     \<and> (if dir then ce_forward (ee_data x) else ce_backward (ee_data x)) \<and> ce_distance (ee_data x) = w)"

lemma dedge_simps: "dedge g True = fedge g" "dedge g False = bedge g"
  by (simp_all add: fun_eq_iff dedge_def fedge_def bedge_def)

lemma dedge_covered:
  assumes "covers y z" and "y \<in> set (dg_out g u)" and "u < dg_number_of_nodes g"
    and "if dir then ce_forward (ee_data z) else ce_backward (ee_data z)"
  shows "\<exists>w' \<le> ce_distance (ee_data z). dedge g dir u (ee_target z) w'"
  using assms unfolding covers_def dedge_def by metis

lemma round_keeps:
  assumes r: "round_result deg R S g es g'" and u: "u \<in> R - S" and v: "v \<notin> S" and e: "dedge g dir u v w"
  shows "\<exists>w' \<le> w. dedge g' dir u v w'"
proof -
  obtain g1 where g1: "without_edges_to g R S S g1" "with_shortcuts g1 es g'"
    using r by (auto simp: round_result_def)
  obtain z where z: "z \<in> set (dg_out g u)" "ee_target z = v" "if dir then ce_forward (ee_data z) else ce_backward (ee_data z)"
    "ce_distance (ee_data z) = w" "u < dg_number_of_nodes g"
    using e by (auto simp: dedge_def)
  have "z \<in> set (dg_out g1 u)" "u < dg_number_of_nodes g1"
    using without_edges_toD(2,4) [OF g1(1)] z u v by auto
  then obtain y where "y \<in> set (dg_out g' u)" "covers y z"
    using with_shortcutsD(3) [OF g1(2)] by blast
  then show ?thesis
    using dedge_covered [of y z g' u dir] z round_resultD(7) [OF r] by auto
qed

lemma round_adds:
  assumes r: "round_result deg R S g es g'" and u: "u \<in> R" and e: "(u, v, d, dir) \<in> ways es"
  shows "\<exists>w' \<le> d. dedge g' dir u v w'"
proof -
  obtain g1 where g1: "with_shortcuts g1 es g'"
    using r by (auto simp: round_result_def)
  obtain f where f: "f \<in> set es" "ie_source f = u" "ie_target f = v" "ce_distance (ie_data f) = d"
    "if dir then ce_forward (ie_data f) else ce_backward (ie_data f)"
    using e by (auto simp: ways_def)
  obtain y where "y \<in> set (dg_out g' u)" "covers y (to_entry f)"
    using with_shortcutsD(4) [OF g1 f(1)] f(2) by blast
  then show ?thesis
    using dedge_covered [of y "to_entry f" g' u dir] f mirroredD(1) [OF round_resultD(2) [OF r] u] round_resultD(7) [OF r]
    by (simp add: to_entry_def)
qed

lemma way_ends:
  assumes r: "round_result deg R S g es g'" and e: "(u, v, d, dir) \<in> ways es"
  shows "u \<in> R - S" and "v \<in> R - S"
proof -
  note D = round_resultD [OF r]
  have end_ok: "y \<in> R - S" if "x \<in> S" "y \<in> nbrs g x" for x y
  proof -
    have "x < dg_number_of_nodes g"
      using mirroredD(1) [OF D(2)] D(4) that(1) by blast
    then have "y \<noteq> x"
      using that(2) cg_okD(4) [OF D(1)] by (auto simp: nbrs_def)
    then show ?thesis
      using far_apartD(1) [OF D(3) that(1), of y] nbrs_in [OF D(2), of x y] that D(4) by blast
  qed
  have both: "a \<in> R - S \<and> b \<in> R - S" if "(a, b, d, True) \<in> ways es" for a b
    using shortcuts_forD(4) [OF D(5) that] end_ok fedge_nbrs by blast
  show "u \<in> R - S" "v \<in> R - S"
    using both [of u v] both [of v u] e shortcuts_forD(2) [OF D(5)] by (cases dir; auto)+
qed

lemma round_only:
  assumes r: "round_result deg R S g es g'" and u: "u \<in> R - S" and e: "dedge g' dir u v w"
  shows "v \<in> R - S" and "dedge g dir u v w \<or> (u, v, w, dir) \<in> ways es"
proof -
  note D = round_resultD [OF r]
  obtain g1 where g1: "without_edges_to g R S S g1" "with_shortcuts g1 es g'"
    using r by (auto simp: round_result_def)
  obtain y where y: "y \<in> set (dg_out g' u)" "ee_target y = v" "if dir then ce_forward (ee_data y) else ce_backward (ee_data y)"
    "ce_distance (ee_data y) = w"
    using e by (auto simp: dedge_def)
  have un: "u < dg_number_of_nodes g" "u < dg_number_of_nodes g1"
    using mirroredD(1) [OF D(2)] u without_edges_toD(2) [OF g1(1)] by auto
  from with_shortcutsD(5) [OF g1(2) un(2) y(1)] consider "y \<in> set (dg_out g1 u)"
    | f where "f \<in> set es" "ie_source f = u" "y = to_entry f"
    by blast
  then have "v \<in> R - S \<and> (dedge g dir u v w \<or> (u, v, w, dir) \<in> ways es)"
  proof cases
    case 1
    then have "y \<in> set (dg_out g u)" "v \<notin> S"
      using without_edges_toD(4) [OF g1(1) u] y(2) by auto
    moreover from this(1) have "v \<in> R"
      using mirroredD(2) [OF D(2)] u y(2) by blast
    ultimately show ?thesis
      using y un(1) unfolding dedge_def by blast
  next
    case 2
    with y have "(u, v, w, dir) \<in> ways es"
      unfolding ways_def by (auto simp: to_entry_def)
    with way_ends(2) [OF r this] show ?thesis by blast
  qed
  then show "v \<in> R - S" "dedge g dir u v w \<or> (u, v, w, dir) \<in> ways es"
    by blast+
qed

text \<open>The entries of the nodes that are or were contracted stay, up to a shorter parallel edge.\<close>

lemma round_stays:
  assumes r: "round_result deg R S g es g'" and u: "u \<notin> R - S" and e: "dedge g dir u v w"
  shows "\<exists>w' \<le> w. dedge g' dir u v w'"
proof -
  obtain g1 where g1: "without_edges_to g R S S g1" "with_shortcuts g1 es g'"
    using r by (auto simp: round_result_def)
  obtain z where z: "z \<in> set (dg_out g u)" "ee_target z = v" "if dir then ce_forward (ee_data z) else ce_backward (ee_data z)"
    "ce_distance (ee_data z) = w" "u < dg_number_of_nodes g"
    using e by (auto simp: dedge_def)
  have "dg_out g1 u = dg_out g u" "u < dg_number_of_nodes g1"
    using without_edges_toD(2,3,6) [OF g1(1)] z(5) u by auto
  then obtain y where "y \<in> set (dg_out g' u)" "covers y z"
    using with_shortcutsD(3) [OF g1(2)] z(1) by metis
  then show ?thesis
    using dedge_covered [of y z g' u dir] z round_resultD(7) [OF r] by auto
qed

lemma round_stays_only:
  assumes r: "round_result deg R S g es g'" and u: "u \<notin> R - S" and e: "dedge g' dir u v w"
  shows "dedge g dir u v w"
proof -
  obtain g1 where g1: "without_edges_to g R S S g1" "with_shortcuts g1 es g'"
    using r by (auto simp: round_result_def)
  obtain y where y: "y \<in> set (dg_out g' u)" "ee_target y = v" "if dir then ce_forward (ee_data y) else ce_backward (ee_data y)"
    "ce_distance (ee_data y) = w" "u < dg_number_of_nodes g'"
    using e by (auto simp: dedge_def)
  have un: "u < dg_number_of_nodes g" "u < dg_number_of_nodes g1" "dg_out g1 u = dg_out g u"
    using without_edges_toD(2,3,6) [OF g1(1)] y(5) u round_resultD(7) [OF r] by auto
  from with_shortcutsD(5) [OF g1(2) un(2) y(1)] show ?thesis
  proof
    assume "y \<in> set (dg_out g1 u)"
    then show ?thesis
      using y(2-4) un(1,3) unfolding dedge_def by auto
  next
    assume "\<exists>f \<in> set es. ie_source f = u \<and> y = to_entry f"
    then obtain f where "f \<in> set es" "ie_source f = u" "y = to_entry f"
      by blast
    with y(2-4) have "(u, v, w, dir) \<in> ways es"
      unfolding ways_def by (auto simp: to_entry_def)
    with way_ends(1) [OF r this] u show ?thesis by blast
  qed
qed

lemma round_mirrored:
  assumes r: "round_result deg R S g es g'"
  shows "mirrored (R - S) g'"
proof -
  note D = round_resultD [OF r]
  have mirror: "\<exists>w' \<le> w. dedge g' (\<not> dir) v u w'" if u: "u \<in> R - S" and e: "dedge g' dir u v w" for u v w dir
  proof -
    have v: "v \<in> R - S"
      using round_only(1) [OF r u e] .
    from round_only(2) [OF r u e] show ?thesis
    proof
      assume "dedge g dir u v w"
      then obtain w1 where "w1 \<le> w" "dedge g (\<not> dir) v u w1"
        using mirroredD(4,5) [OF D(2), of u v w] u by (cases dir) (auto simp: dedge_simps)
      with round_keeps [OF r v, of u "\<not> dir" w1] u show ?thesis
        by (meson DiffD2 order_trans)
    next
      assume "(u, v, w, dir) \<in> ways es"
      then have "(v, u, w, \<not> dir) \<in> ways es"
        using shortcuts_forD(2) [OF D(5)] by (cases dir) auto
      with round_adds [OF r, of v u w "\<not> dir"] v show ?thesis by blast
    qed
  qed
  have entry: "ee_target x \<in> R - S \<and> (ce_forward (ee_data x) \<or> ce_backward (ee_data x))"
    if u: "u \<in> R - S" and x: "x \<in> set (dg_out g' u)" for u x
  proof -
    obtain g1 where g1: "without_edges_to g R S S g1" "with_shortcuts g1 es g'"
      using r by (auto simp: round_result_def)
    have un: "u < dg_number_of_nodes g1" "u < dg_number_of_nodes g'"
      using mirroredD(1) [OF D(2)] u without_edges_toD(2) [OF g1(1)] D(7) by auto
    have flag: "ce_forward (ee_data x) \<or> ce_backward (ee_data x)"
      using with_shortcutsD(5) [OF g1(2) un(1) x]
    proof (elim disjE bexE conjE)
      assume "x \<in> set (dg_out g1 u)"
      then have "x \<in> set (dg_out g u)"
        using without_edges_toD(4) [OF g1(1) u] by blast
      then show ?thesis
        using mirroredD(3) [OF D(2)] u by blast
    next
      fix e
      assume "e \<in> set es" "x = to_entry e"
      with shortcuts_forD(5) [OF D(5)] show ?thesis by (simp add: to_entry_def)
    qed
    then have "\<exists>dir. dedge g' dir u (ee_target x) (ce_distance (ee_data x))"
      using x un(2) unfolding dedge_def by (metis (full_types))
    with round_only(1) [OF r u] flag show ?thesis by blast
  qed
  show ?thesis
    unfolding mirrored_def
  proof (intro conjI ballI allI impI)
    show "R - S \<subseteq> {..<dg_number_of_nodes g'}"
      using mirroredD(1) [OF D(2)] D(7) by auto
    show "\<exists>w' \<le> w. bedge g' v u w'" if "u \<in> R - S" "fedge g' u v w" for u v w
      using mirror [OF that(1), of True v w] that(2) by (simp add: dedge_simps)
    show "\<exists>w' \<le> w. fedge g' v u w'" if "u \<in> R - S" "bedge g' u v w" for u v w
      using mirror [OF that(1), of False v w] that(2) by (simp add: dedge_simps)
  qed (use entry in blast)+
qed

section \<open>The round as an overlay graph\<close>

text \<open>The edges before and after a round, among the nodes in question.\<close>

definition old_edge ::
  "nat \<Rightarrow> NodeID set \<Rightarrow> NodeID set \<Rightarrow> contractor_graph \<Rightarrow> contractor_edge list \<Rightarrow> contractor_graph
   \<Rightarrow> NodeID \<Rightarrow> NodeID \<Rightarrow> int \<Rightarrow> bool" where
  "old_edge deg R S g es g' u v w \<longleftrightarrow> round_result deg R S g es g' \<and> u \<in> R \<and> fedge g u v w"

definition new_edge ::
  "nat \<Rightarrow> NodeID set \<Rightarrow> NodeID set \<Rightarrow> contractor_graph \<Rightarrow> contractor_edge list \<Rightarrow> contractor_graph
   \<Rightarrow> NodeID \<Rightarrow> NodeID \<Rightarrow> int \<Rightarrow> bool" where
  "new_edge deg R S g es g' u v w \<longleftrightarrow> round_result deg R S g es g' \<and> u \<in> R - S \<and> fedge g' u v w"

lemma fedge_in: "mirrored R g \<Longrightarrow> u \<in> R \<Longrightarrow> fedge g u v w \<Longrightarrow> v \<in> R"
  using fedge_nbrs(1) nbrs_in by blast

lemma walk_inside:
  assumes m: "mirrored R g" and u: "u \<in> R" and w: "walk F u v d" and F: "\<And>a b c. F a b c \<Longrightarrow> fedge g a b c"
  shows "v \<in> R \<and> walk (\<lambda>a b c. a \<in> R \<and> F a b c) u v d"
  using w u
proof (induction rule: walk.induct)
  case (walk_step u v d w c)
  then have "v \<in> R" "walk (\<lambda>a b c. a \<in> R \<and> F a b c) u v d"
    by auto
  with walk_step.hyps(2) fedge_in [OF m _ F] show ?case
    by (auto intro: walk.walk_step)
qed auto

interpretation round: overlay "old_edge deg R S g es g'" "new_edge deg R S g es g'" S
proof
  fix u v w
  assume "old_edge deg R S g es g' u v w"
  then have r: "round_result deg R S g es g'" and f: "fedge g u v w"
    by (simp_all add: old_edge_def)
  show "0 < w"
    by (rule fedgeD(4) [OF round_resultD(1) [OF r] f])
next
  fix u v w
  assume e: "old_edge deg R S g es g' u v w" and u: "u \<in> S"
  then have r: "round_result deg R S g es g'" and f: "fedge g u v w"
    by (simp_all add: old_edge_def)
  note D = round_resultD [OF r]
  show "v \<notin> S"
    using far_apartD(1) [OF D(3) u, of v] fedge_nbrs(1) [OF f] fedgeD(3) [OF D(1) f] by auto
next
  fix a x y w w'
  assume ex: "old_edge deg R S g es g' a x w" and ey: "old_edge deg R S g es g' a y w'" and x: "x \<in> S" and y: "y \<in> S"
  then have r: "round_result deg R S g es g'" and f: "a \<in> R" "fedge g a x w" "fedge g a y w'"
    by (simp_all add: old_edge_def)
  note D = round_resultD [OF r]
  have "a \<in> nbrs g x" "a \<in> nbrs g y"
    using nbrs_sym [OF D(2) f(1) fedge_nbrs(1) [OF f(2)]] nbrs_sym [OF D(2) f(1) fedge_nbrs(1) [OF f(3)]] .
  then show "x = y"
    by (rule far_apartD(2) [OF D(3) x y])
next
  fix u v w
  assume e: "old_edge deg R S g es g' u v w" and u: "u \<notin> S" and v: "v \<notin> S"
  then have r: "round_result deg R S g es g'" and f: "u \<in> R - S" "dedge g True u v w"
    by (simp_all add: old_edge_def dedge_simps)
  from round_keeps [OF r f(1) v f(2)] r f(1) show "\<exists>w' \<le> w. new_edge deg R S g es g' u v w'"
    by (simp add: new_edge_def dedge_simps)
next
  fix a x w b w'
  assume e1: "old_edge deg R S g es g' a x w" and e2: "old_edge deg R S g es g' x b w'" and x: "x \<in> S"
  then have r: "round_result deg R S g es g'" and a: "a \<in> R" "fedge g a x w" and f: "fedge g x b w'"
    by (simp_all add: old_edge_def)
  note D = round_resultD [OF r]
  obtain w1 where w1: "w1 \<le> w" "bedge g x a w1"
    using mirroredD(4) [OF D(2) a] by blast
  from shortcuts_forD(1) [OF D(5) x w1(2) f]
  show "(\<exists>d \<le> w + w'. walk (\<lambda>u v c. old_edge deg R S g es g' u v c \<and> v \<noteq> x) a b d)
      \<or> (\<exists>d \<le> w + w'. new_edge deg R S g es g' a b d)"
  proof
    assume "\<exists>d \<le> w1 + w'. walk (around g x) a b d"
    then obtain d where d: "d \<le> w1 + w'" "walk (around g x) a b d" by blast
    have "walk (\<lambda>p q c. p \<in> R \<and> around g x p q c) a b d"
      using walk_inside [OF D(2) a(1) d(2)] by (simp add: around_def)
    then have "walk (\<lambda>u v c. old_edge deg R S g es g' u v c \<and> v \<noteq> x) a b d"
      by (rule walk_mono) (simp add: old_edge_def around_def r)
    moreover have "d \<le> w + w'"
      using d(1) w1(1) by simp
    ultimately show ?thesis by blast
  next
    assume way: "(a, b, w1 + w', True) \<in> ways es"
    obtain c where "c \<le> w1 + w'" "fedge g' a b c"
      using round_adds [OF r a(1) way] by (auto simp: dedge_simps)
    moreover have "a \<in> R - S"
      using way_ends(1) [OF r way] .
    ultimately have "new_edge deg R S g es g' a b c" "c \<le> w + w'"
      using r w1(1) by (simp_all add: new_edge_def)
    then show ?thesis by blast
  qed
next
  fix u v w
  assume e: "new_edge deg R S g es g' u v w" and "u \<notin> S"
  then have r: "round_result deg R S g es g'" and f: "u \<in> R - S" "dedge g' True u v w"
    by (simp_all add: new_edge_def dedge_simps)
  note D = round_resultD [OF r]
  have old: "walk (old_edge deg R S g es g') p q d" if "walk (fedge g) p q d" "p \<in> R" for p q d
  proof -
    have "walk (\<lambda>a b c. a \<in> R \<and> fedge g a b c) p q d"
      using walk_inside [OF D(2) that(2,1)] by simp
    then show ?thesis
      by (rule walk_mono) (simp add: old_edge_def r)
  qed
  have "\<exists>d \<le> w. walk (fedge g) u v d"
    using round_only(2) [OF r f]
  proof
    assume "dedge g True u v w"
    then show ?thesis by (auto simp: dedge_simps intro: walk_edge)
  next
    assume "(u, v, w, True) \<in> ways es"
    then obtain x a b where "x \<in> S" "bedge g x u a" and b: "fedge g x v b" "w = a + b"
      using shortcuts_forD(4) [OF D(5)] by blast
    then obtain a' where "a' \<le> a" "fedge g u x a'"
      using mirroredD(5) [OF D(2)] D(4) by blast
    with b walk_step [OF walk_edge [of "fedge g" u x a'] b(1)] have "walk (fedge g) u v (a' + b)" "a' + b \<le> w"
      by simp_all
    then show ?thesis by blast
  qed
  with old f(1) round_only(1) [OF r f] show "v \<notin> S \<and> (\<exists>d \<le> w. walk (old_edge deg R S g es g') u v d)"
    by blast
qed

lemma round_distances:
  assumes r: "round_result deg R S g es g'" and u: "u \<in> R - S" and v: "v \<in> R - S"
  shows "(\<exists>d' \<le> d. walk (fedge g') u v d') \<longleftrightarrow> (\<exists>d' \<le> d. walk (fedge g) u v d')"
proof -
  let ?E = "old_edge deg R S g es g'" and ?F = "new_edge deg R S g es g'"
  have uS: "u \<notin> S" "v \<notin> S" "u \<in> R"
    using u v by auto
  have in_E: "walk ?E u v e" if "walk (fedge g) u v e" for e
  proof -
    have "walk (\<lambda>a b c. a \<in> R \<and> fedge g a b c) u v e"
      using walk_inside [OF round_resultD(2) [OF r] uS(3) that] by simp
    then show ?thesis
      by (rule walk_mono) (simp add: old_edge_def r)
  qed
  have in_F: "walk ?F u v e" if "walk (fedge g') u v e" for e
  proof -
    have "walk (\<lambda>a b c. a \<in> R - S \<and> fedge g' a b c) u v e"
      using walk_inside [OF round_mirrored [OF r] u that] by simp
    then show ?thesis
      by (rule walk_mono) (simp add: new_edge_def r)
  qed
  have out: "walk (fedge g) a b e" if "walk ?E a b e" for a b e
    using that by (rule walk_mono) (simp add: old_edge_def)
  have out': "walk (fedge g') a b e" if "walk ?F a b e" for a b e
    using that by (rule walk_mono) (simp add: new_edge_def)
  show ?thesis
  proof (safe)
    fix e
    assume "e \<le> d" and "walk (fedge g') u v e"
    with round.distances_real [OF in_F uS(1)] out show "\<exists>d' \<le> d. walk (fedge g) u v d'"
      by (meson order_trans)
  next
    fix e
    assume "e \<le> d" and "walk (fedge g) u v e"
    with round.distances_survive [OF in_E uS(1,2)] out' show "\<exists>d' \<le> d. walk (fedge g') u v d'"
      by (meson order_trans)
  qed
qed

text \<open>
  The edge positions stay within 32 bits when there is room for this many moves of edge
  lists.
\<close>

definition list_room :: "nat \<Rightarrow> nat \<Rightarrow> contractor_graph \<Rightarrow> bool" where
  "list_room deg n g \<longleftrightarrow> (let k = n * (deg * (2 * deg)) in
     length (dg_edge_list g) + k * (2 * (deg + k) + 2) \<le> SPECIAL_EDGEID)"

lemma contract_graph_law:
  assumes cg: "cg_ok deg g" and sr: "search_room deg" and m: "mirrored R g" and far: "far_apart g (set nodes)"
    and S: "set nodes \<subseteq> R" and psort: "\<forall>es. mset (psort es) = mset es"
    and w: "worker_ok data0 (c + (\<Sum>x \<leftarrow> nodes. length (dg_out g x))) data" and empty: "td_inserted_edges data = []"
    and room: "list_room deg (length nodes) g"
  shows "\<exists>data' g' es. contract_graph psort nodes (data, g) = Some (data', g') \<and> round_result deg R (set nodes) g es g'
    \<and> worker_ok data0 c data' \<and> td_inserted_edges data' = []"
proof -
  have ok: "dg_ok g"
    using cg_okD(1) [OF cg] .
  have sub: "set nodes \<subseteq> {..<dg_number_of_nodes g}"
    using S mirroredD(1) [OF m] by auto
  obtain d1 news where d1: "contract_all g nodes data = Some d1" "worker_ok data0 c d1"
    "td_inserted_edges d1 = concat news" "list_all2 (replaces g) nodes news"
    "length (concat news) \<le> length nodes * (deg * (2 * deg))"
    using contract_all_law [OF cg sr sub w] empty by auto
  obtain d2 g2 where d2: "delete_all nodes (d1, g) = Some (d2, g2)" "without_edges_to g R (set nodes) (set nodes) g2"
    "td_hash d2 = td_hash d1" "td_heap d2 = td_heap d1" "td_inserted_edges d2 = td_inserted_edges d1"
    using delete_all_law [OF ok m far S] by blast
  let ?es = "psort (td_inserted_edges d2)"
  have es: "set ?es = set (concat news)" "length ?es = length (concat news)"
    using psort d2(5) d1(3) by (metis set_mset_mset, metis size_mset)
  note sf = shortcuts_for_all [OF d1(4) es(1)]
  note W = without_edges_toD [OF d2(2)]
  have ends: "ie_source e < dg_number_of_nodes g2 \<and> ie_target e < dg_number_of_nodes g2" if e: "e \<in> set ?es" for e
  proof -
    have "(ie_source e, ie_target e, ce_distance (ie_data e), ce_forward (ie_data e)) \<in> ways ?es"
      using e shortcuts_forD(5) [OF sf e] unfolding ways_def
      by (intro CollectI exI [of _ e] exI [of _ "ce_forward (ie_data e)"]) auto
    then have "(ie_source e, ie_target e, ce_distance (ie_data e), True) \<in> ways ?es
        \<or> (ie_target e, ie_source e, ce_distance (ie_data e), True) \<in> ways ?es"
      using shortcuts_forD(2) [OF sf] by (cases "ce_forward (ie_data e)") auto
    then obtain x a c where "bedge g x (ie_source e) a \<and> fedge g x (ie_target e) c
        \<or> bedge g x (ie_target e) a \<and> fedge g x (ie_source e) c" "x \<in> set nodes"
      using shortcuts_forD(4) [OF sf] by blast
    then have "{ie_source e, ie_target e} \<subseteq> nbrs g x" "x \<in> R"
      using fedge_nbrs S by auto
    then show ?thesis
      using nbrs_in [OF m] mirroredD(1) [OF m] W(2) by auto
  qed
  have B: "\<forall>v < dg_number_of_nodes g2. length (dg_out g2 v) \<le> deg"
    using W(2,5) cg_okD(2) [OF cg] unfolding not_larger_def by (metis order_trans)
  let ?k = "length nodes * (deg * (2 * deg))"
  have "length ?es \<le> ?k"
    using es(2) d1(5) by simp
  then have "length ?es * (2 * (deg + length ?es) + 2) \<le> ?k * (2 * (deg + ?k) + 2)"
    by (intro mult_le_mono add_le_mono le_refl)
  then have "length (dg_edge_list g2) + length ?es * (2 * (deg + length ?es) + 2) \<le> SPECIAL_EDGEID"
    using room W(5) unfolding list_room_def Let_def not_larger_def by linarith
  from insert_all_law [OF W(1) _ B this] ends obtain g3 where
    g3: "foldM insert_shortcut ?es g2 = Some g3" "with_shortcuts g2 ?es g3"
      "\<forall>v < dg_number_of_nodes g2. length (dg_out g3 v) \<le> deg + length ?es"
      "length (dg_edge_list g3) \<le> length (dg_edge_list g2) + length ?es * (2 * (deg + length ?es) + 2)"
    by blast
  have "round_result deg R (set nodes) g ?es g3"
    unfolding round_result_def using cg m far S sf d2(2) g3(2-4) W(2,5) unfolding not_larger_def by auto
  moreover have "contract_graph psort nodes (data, g) = Some (d2\<lparr>td_inserted_edges := []\<rparr>, g3)"
    using d1(1) d2(1) g3(1) by (simp add: contract_graph_def)
  moreover have "worker_ok data0 c (d2\<lparr>td_inserted_edges := []\<rparr>)"
    using d1(2) d2(3,4) by (simp add: worker_ok_def)
  ultimately show ?thesis by auto
qed

section \<open>Properties\<close>

lemma sample_contractor_mirrored: "mirrored {0, 1, 2} sample_contractor_graph"
  unfolding mirrored_def fedge_def bedge_def
  by (auto simp: sample_contractor_out two_way_def ContractorEdgeData_def)



end
