(* ===== verification/Contractor_Run.thy ===== *)
theory Contractor_Run
  imports Contraction_Round
begin

text \<open>
  The rounds of \<^verbatim>\<open>Contractor::Run\<close>: which nodes a round takes, and whether the loop
  gets any further.
\<close>

section \<open>The nodes of a round\<close>

lemma exact_order_comparable:
  assumes "exact_order val fl priorities R" and "a \<in> R" and "b \<in> R"
  shows "comparable fl (priorities ! a) (priorities ! b)"
  using assms linorder_less_linear [of "val (priorities ! a)" "val (priorities ! b)"]
  by (auto simp: exact_order_def comparable_def)

text \<open>
  C35: the nodes marked for a round are a proper choice. When the comparisons of priorities
  agree with some order of their values, \<^verbatim>\<open>IsNodeIndependent\<close> marks at least one of the
  remaining nodes, and the marked nodes are far apart: no two of them are neighbours or have
  a neighbour in common. The remaining nodes themselves stay as they are.
\<close>

theorem mark_independent_correct:
  assumes "dg_ok g" and "priorities_ok fl g priorities" and "mirrored R g" and "rn_id ` set remaining = R"
    and "\<forall>u \<in> R. u \<notin> nbrs g u" and "exact_order val fl priorities R" and "remaining \<noteq> []"
  shows "\<exists>remaining'. mark_independent fl fh g priorities remaining = Some remaining'
    \<and> map rn_id remaining' = map rn_id remaining \<and> marked remaining' \<noteq> {} \<and> far_apart g (marked remaining')"
proof -
  let ?P = "\<lambda>a. IsNodeIndependent fl fh g priorities a = Some True"
  let ?r = "map (\<lambda>node. node\<lparr>rn_is_independent := ?P (rn_id node)\<rparr>) remaining"
  have "\<forall>node \<in> set remaining. rn_id node < dg_number_of_nodes g"
    using assms(3,4) mirroredD(1) by blast
  note mark = mark_independent_law [OF assms(1,2) this, of fh]
  have m: "marked ?r = {a \<in> R. ?P a}"
    using marked_mark [of ?P remaining] unfolding assms(4) .
  have "R \<noteq> {}"
    using assms(4,7) by auto
  from some_node_independent [OF assms(1,2,3) this assms(6), of fh] have "marked ?r \<noteq> {}"
    unfolding m by blast
  moreover have "far_apart g (marked ?r)"
    unfolding m using exact_order_comparable [OF assms(6)]
    by (intro independent_far_apart [OF assms(1-3)] ballI) (use assms(5) in blast)+
  moreover have "map rn_id ?r = map rn_id remaining"
    by (simp add: o_def)
  ultimately show ?thesis
    using mark by blast
qed

text \<open>Priorities that are numbers, compared exactly or with a tolerance.\<close>

definition number_ops :: "nat \<Rightarrow> nat float_ops" where
  "number_ops tolerance = \<lparr>fl_greater = (\<lambda>p q. p > q), fl_close = (\<lambda>p q. p \<le> q + tolerance \<and> q \<le> p + tolerance),
     fl_nonneg = (\<lambda>p. True), fl_of_nat = (\<lambda>n. n), fl_depth = nat, fl_quotients = (\<lambda>stats depth. nat depth)\<rparr>"

lemma sample_nbrs:
  "nbrs sample_contractor_graph 0 = {1}" "nbrs sample_contractor_graph (Suc 0) = {0, 2}"
  "nbrs sample_contractor_graph 2 = {1}"
  by (simp_all add: nbrs_def sample_contractor_out two_way_def)

lemma sample_priorities_ok: "length ps = 3 \<Longrightarrow> priorities_ok (number_ops t) sample_contractor_graph ps"
  by (simp add: priorities_ok_def number_ops_def sample_contractor_out)

definition sample_remaining :: "remaining_node_data list" where
  "sample_remaining = map (\<lambda>x. \<lparr>rn_id = x, rn_is_independent = False\<rparr>) [0, 1, 2]"

theorem mark_independent_correct_witness:
  "\<exists>remaining'. mark_independent (number_ops 0) (XORFastHash id id) sample_contractor_graph [1, 1, 2] sample_remaining
      = Some remaining'
    \<and> map rn_id remaining' = [0, 1, 2] \<and> marked remaining' \<noteq> {} \<and> far_apart sample_contractor_graph (marked remaining')"
proof -
  have r: "rn_id ` set sample_remaining = {0, 1, 2}" "sample_remaining \<noteq> []" "map rn_id sample_remaining = [0, 1, 2]"
    by (simp_all add: sample_remaining_def)
  have loop: "\<forall>u \<in> {0, 1, 2}. u \<notin> nbrs sample_contractor_graph u"
    by (simp add: sample_nbrs)
  have ord: "exact_order id (number_ops 0) [1, 1, 2] {0, 1, 2}"
    by (auto simp: exact_order_def number_ops_def)
  have ok: "dg_ok sample_contractor_graph" "priorities_ok (number_ops 0) sample_contractor_graph [1, 1, 2]"
    using sample_contractor_ok sample_priorities_ok by (simp_all add: cg_ok_def)
  from mark_independent_correct [OF ok sample_contractor_mirrored r(1) loop ord r(2), of "XORFastHash id id"] r(3)
  show ?thesis by simp
qed

section \<open>A loop that does not end\<close>

text \<open>
  The situation in which no round changes anything: nodes are left to contract, none of them
  is independent, and the graph has been flushed already or need not be.
\<close>

definition stuck ::
  "'p float_ops \<Rightarrow> xor_fast_hash \<Rightarrow> nat \<Rightarrow> nat \<Rightarrow> nat \<Rightarrow> 'p run_state \<Rightarrow> bool" where
  "stuck fl fast_hash number_of_nodes core_nodes flush_nodes s \<longleftrightarrow>
     number_of_nodes > 2 \<and> rs_number_of_contracted_nodes s < core_nodes
     \<and> (rs_flushed_contractor s \<or> rs_number_of_contracted_nodes s \<le> flush_nodes)
     \<and> td_inserted_edges (rs_thread s) = []
     \<and> (\<forall>node \<in> set (rs_remaining_nodes s).
          IsNodeIndependent fl fast_hash (ct_contractor_graph (rs_contractor s)) (rs_node_priorities s) (rn_id node) = Some False)"

lemma mark_none_independent:
  assumes "\<forall>node \<in> set remaining. IsNodeIndependent fl fh g priorities (rn_id node) = Some False"
  shows "\<exists>r. mark_independent fl fh g priorities remaining = Some r
    \<and> map rn_id r = map rn_id remaining \<and> (\<forall>node \<in> set r. \<not> rn_is_independent node)"
proof -
  let ?f = "\<lambda>node :: remaining_node_data. node\<lparr>rn_is_independent := False\<rparr>"
  let ?I = "\<lambda>i (r :: remaining_node_data list). r = map ?f (take i remaining) @ drop i remaining"
  let ?step = "\<lambda>i remaining. do {
     node \<leftarrow> nth_opt remaining i;
     b \<leftarrow> IsNodeIndependent fl fh g priorities (rn_id node);
     upd_opt remaining i (node\<lparr>rn_is_independent := b\<rparr>)
   }"
  have "\<exists>r. foldM ?step [0..<length remaining] remaining = Some r \<and> ?I (length remaining) r"
  proof (rule foldM_upt_invariant [where I = ?I])
    fix i r
    assume i: "i < length remaining" and I: "?I i r"
    then have r: "r ! i = remaining ! i" "i < length r"
      by (simp_all add: nth_append)
    have "r[i := ?f (remaining ! i)] = map ?f (take (Suc i) remaining) @ drop (Suc i) remaining"
      using i I by (simp add: take_Suc_conv_app_nth list_update_append Cons_nth_drop_Suc [symmetric])
    then show "\<exists>r'. ?step i r = Some r' \<and> ?I (Suc i) r'"
      using r i assms by (simp add: nth_opt_in upd_opt_in)
  qed auto
  then have "mark_independent fl fh g priorities remaining = Some (map ?f remaining)"
    by (simp add: mark_independent_def)
  then show ?thesis
    by (simp add: o_def)
qed

lemma run_round_stuck:
  assumes "stuck fl fast_hash n core flush s" and "psort [] = []"
  shows "\<exists>s'. run_round fl psort fast_hash cached s = Some s' \<and> stuck fl fast_hash n core flush s'"
proof -
  note st = assms(1) [unfolded stuck_def]
  from st mark_none_independent obtain r where r: "mark_independent fl fast_hash (ct_contractor_graph (rs_contractor s))
      (rs_node_priorities s) (rs_remaining_nodes s) = Some r" "map rn_id r = map rn_id (rs_remaining_nodes s)"
    "\<forall>node \<in> set r. \<not> rn_is_independent node"
    by blast
  then have f: "filter rn_is_independent r = []" "filter (\<lambda>node. \<not> rn_is_independent node) r = r"
    by simp_all
  have "rn_id ` set r = rn_id ` set (rs_remaining_nodes s)"
    using r(2) by (metis set_map)
  then have "\<forall>node \<in> set r. IsNodeIndependent fl fast_hash (ct_contractor_graph (rs_contractor s))
      (rs_node_priorities s) (rn_id node) = Some False"
    using st by (metis imageE image_eqI)
  then show ?thesis
    using st assms(2) r(1)
    by (simp add: run_round_def Let_def f write_levels_def contract_graph_def contract_all_def delete_all_def update_all_def stuck_def)
qed

text \<open>
  C36: \<^verbatim>\<open>Run\<close> does not return when nodes are left to contract but none of them is
  independent: every further round finds the same graph and the same priorities. The
  comparison of priorities with a tolerance is no order, and neighbours whose priorities
  differ by less than the tolerance can wait for each other, so the situation exists.
\<close>

theorem run_loop_stuck:
  assumes "stuck fl fast_hash n core flush s" and "psort [] = []"
  shows "run_loop fl psort fh fast_hash cached n core flush s = None"
proof (rule ccontr)
  assume "run_loop fl psort fh fast_hash cached n core flush s \<noteq> None"
  then obtain y where "run_loop fl psort fh fast_hash cached n core flush s = Some y"
    by blast
  then have "psort [] = [] \<longrightarrow> \<not> stuck fl fast_hash n core flush s"
  proof (rule run_loop.raw_induct [where P = "\<lambda>fl psort fh fast_hash cached n core flush s y.
      psort [] = [] \<longrightarrow> \<not> stuck fl fast_hash n core flush s", rotated])
    fix loop fl psort fh fast_hash cached n core flush s y
    assume IH: "\<And>fl psort fh fast_hash cached n core flush s y. loop fl psort fh fast_hash cached n core flush s = Some y
        \<Longrightarrow> psort [] = [] \<longrightarrow> \<not> stuck fl fast_hash n core flush s"
      and body: "(if n > 2 \<and> rs_number_of_contracted_nodes s < core then do {
        s \<leftarrow> (if \<not> rs_flushed_contractor s \<and> rs_number_of_contracted_nodes s > flush
          then run_flush psort fh n s else Some s);
        s \<leftarrow> run_round fl psort fast_hash cached s;
        loop fl psort fh fast_hash cached n core flush s
      } else Some s) = Some y"
    show "psort [] = [] \<longrightarrow> \<not> stuck fl fast_hash n core flush s"
    proof (intro impI notI)
      assume e: "psort [] = []" and st: "stuck fl fast_hash n core flush s"
      from run_round_stuck [OF st, of psort cached] e obtain s'
        where s': "run_round fl psort fast_hash cached s = Some s'" "stuck fl fast_hash n core flush s'"
        by blast
      with body st have "loop fl psort fh fast_hash cached n core flush s' = Some y"
        by (auto simp: stuck_def)
      from IH [OF this] e s'(2) show False
        by blast
    qed
  qed
  with assms show False
    by blast
qed

text \<open>Three nodes in a row, each of them waiting for another.\<close>

definition waiting_contractor :: "nat contractor" where
  "waiting_contractor = \<lparr>ct_contractor_graph = sample_contractor_graph, ct_external_edge_list = [],
     ct_orig_node_id_from_new_node_id_map = [], ct_node_levels = [0, 0, 1], ct_is_core_node = []\<rparr>"

theorem run_loop_stuck_witness:
  "Run (number_ops 1) id (XORFastHash id id) (XORFastHash id id) (XORFastHash id id) (\<lambda>n. n) (\<lambda>n. n) waiting_contractor = None"
proof -
  let ?fh = "XORFastHash id id"
  have ok: "dg_ok sample_contractor_graph"
    using sample_contractor_ok by (simp add: cg_ok_def)
  note law = IsNodeIndependent_law [OF ok sample_priorities_ok [of "[0, 0, 1]"]]
  have "waits (number_ops 1) ?fh [0, 0, 1] 0 1" "waits (number_ops 1) ?fh [0, 0, 1] (Suc 0) 2"
    "waits (number_ops 1) ?fh [0, 0, 1] 2 1"
    by (simp_all add: waits_def number_ops_def bias_def xor_fast_hash_def XORFastHash_def)
  then have ind: "IsNodeIndependent (number_ops 1) ?fh sample_contractor_graph [0, 0, 1] v = Some False" if "v \<in> {0, 1, 2}" for v
    using that law [of 0 1 ?fh] law [of "Suc 0" 1 ?fh] law [of 2 1 ?fh] by (auto simp: sample_contractor_out sample_nbrs)
  obtain s where s: "run_init (number_ops 1) ?fh waiting_contractor = Some s"
    "stuck (number_ops 1) ?fh 3 3 3 s"
    using ind by (auto simp: run_init_def waiting_contractor_def sample_contractor_out stuck_def ContractorThreadData_def upt_rec)
  with run_loop_stuck [OF s(2), of id ?fh True] show ?thesis
    by (simp add: Run_def waiting_contractor_def sample_contractor_out)
qed

end
