(* ===== verification/Contractor_Build.thy ===== *)
theory Contractor_Build
  imports Independent_Set
begin

text \<open>
  The constructor of \<^verbatim>\<open>Contractor\<close>: the loop that merges parallel edges in place is
  compared with a function on lists, and the graph it builds with the input edges.
\<close>

section \<open>Merging as a function on lists\<close>

definition ends :: "NodeID \<Rightarrow> NodeID \<Rightarrow> 'd input_edge \<Rightarrow> bool" where
  "ends s t e \<longleftrightarrow> ie_source e = s \<and> ie_target e = t"

text \<open>The least length of the edges with a flag, \<^verbatim>\<open>INT_MAX\<close> if there is none.\<close>

definition least :: "(contractor_edge_data \<Rightarrow> bool) \<Rightarrow> contractor_edge list \<Rightarrow> int \<Rightarrow> int" where
  "least flag es = fold (\<lambda>e d. if flag (ie_data e) then min (ce_distance (ie_data e)) d else d) es"

definition joined :: "NodeID \<Rightarrow> NodeID \<Rightarrow> nat \<Rightarrow> int \<Rightarrow> int \<Rightarrow> contractor_edge list" where
  "joined s t i f r =
     (if f = r then if to_int32 f \<noteq> INT_MAX then [merged_edge s t i f True True] else []
      else (if to_int32 f \<noteq> INT_MAX then [merged_edge s t i f True False] else [])
        @ (if to_int32 r \<noteq> INT_MAX then [merged_edge s t i r False True] else []))"

function merged :: "contractor_edge list \<Rightarrow> contractor_edge list" where
  "merged [] = []"
| "merged (e # es) =
     (if ie_source e = ie_target e then merged es
      else let P = ends (ie_source e) (ie_target e) in
        joined (ie_source e) (ie_target e) (ce_id (ie_data e))
          (least ce_forward (takeWhile P (e # es)) INT_MAX) (least ce_backward (takeWhile P (e # es)) INT_MAX)
        @ merged (dropWhile P es))"
  by pat_completeness auto
termination
  by (relation "measure length") (auto simp: length_dropWhile_le le_imp_less_Suc)

declare merged.simps(2) [simp del]

lemma merge_parallel_law:
  "merge_parallel edges s t i f r =
     (let es = takeWhile (ends s t) (drop i edges) in (i + length es, least ce_forward es f, least ce_backward es r))"
proof (induction edges s t i f r rule: merge_parallel.induct)
  case (1 edges s t i f r)
  show ?case
  proof (cases "i < length edges \<and> ends s t (edges ! i)")
    case True
    then have "takeWhile (ends s t) (drop i edges) = edges ! i # takeWhile (ends s t) (drop (i + 1) edges)"
      by (simp add: Cons_nth_drop_Suc [symmetric])
    moreover have "i < length edges" "ie_source (edges ! i) = s" "ie_target (edges ! i) = t"
      using True by (simp_all add: ends_def)
    ultimately show ?thesis
      using 1 by (subst merge_parallel.simps) (simp add: Let_def least_def)
  next
    case False
    then have "takeWhile (ends s t) (drop i edges) = []"
      by (cases "i < length edges") (simp_all add: Cons_nth_drop_Suc [symmetric])
    with False show ?thesis
      by (subst merge_parallel.simps) (auto simp: ends_def least_def)
  qed
qed

lemma put_edge_law:
  assumes "k < length edges"
  shows "put_edge e (edges, k) = Some (take k edges @ e # drop (k + 1) edges, k + 1)"
  using assms by (simp add: put_edge_def upd_opt_in upd_conv_take_nth_drop)

lemma emit_merged_law:
  assumes "k + length (joined s t i f r) \<le> length edges"
  shows "emit_merged s t i f r (edges, k)
    = Some (take k edges @ joined s t i f r @ drop (k + length (joined s t i f r)) edges, k + length (joined s t i f r))"
  using assms
  by (auto simp: emit_merged_def joined_def put_edge_law min_def split: if_splits)

lemma joined_length:
  assumes "es \<noteq> []"
  shows "length (joined s t i (least p es INT_MAX) (least q es INT_MAX)) \<le> length es"
proof (cases es)
  case (Cons e rest)
  then show ?thesis
    by (cases rest) (auto simp: joined_def least_def to_int32_in INT_MAX_def)
qed (use assms in simp)

text \<open>The loop never writes beyond what it has read, so it computes the function on lists.\<close>

lemma merge_edges_law:
  assumes "k \<le> i" and "i \<le> length edges"
  shows "\<exists>edges'. merge_edges edges k i = Some (edges', k + length (merged (drop i edges)))
    \<and> take (k + length (merged (drop i edges))) edges' = take k edges @ merged (drop i edges)"
  using assms
proof (induction "length edges - i" arbitrary: edges k i rule: less_induct)
  case less
  show ?case
  proof (cases "i < length edges")
    case True
    let ?e = "edges ! i"
    let ?P = "ends (ie_source ?e) (ie_target ?e)"
    let ?same = "takeWhile ?P (drop i edges)"
    have d: "drop i edges = ?e # drop (i + 1) edges"
      using True by (simp add: Cons_nth_drop_Suc)
    show ?thesis
    proof (cases "ie_source ?e = ie_target ?e")
      case loop: True
      with less(1) [of edges "i + 1" k] less(2) True d show ?thesis
        by (subst merge_edges.simps) (simp add: merged.simps(2))
    next
      case False
      have same: "?same = ?e # takeWhile ?P (drop (i + 1) edges)"
        unfolding d by (simp add: ends_def)
      define j where "j = i + length ?same"
      define b where "b = joined (ie_source ?e) (ie_target ?e) (ce_id (ie_data ?e))
        (least ce_forward ?same INT_MAX) (least ce_backward ?same INT_MAX)"
      have "length ?same \<le> length edges - i"
        using length_takeWhile_le [of ?P "drop i edges"] by simp
      then have j: "i < j" "j \<le> length edges"
        using True same unfolding j_def by auto
      have b: "length b \<le> j - i"
        using joined_length [of ?same] same unfolding b_def j_def by simp
      define edges' where "edges' = take k edges @ b @ drop (k + length b) edges"
      have len: "length edges' = length edges"
        using b j less(2,3) unfolding edges'_def by simp
      have rest: "dropWhile ?P (drop (i + 1) edges) = drop j edges"
      proof -
        have "dropWhile ?P (?e # drop (i + 1) edges) = dropWhile ?P (drop (i + 1) edges)"
          by (simp add: ends_def)
        then show ?thesis
          using dropWhile_eq_drop [of ?P "drop i edges"] unfolding d [symmetric] j_def by (simp add: add.commute)
      qed
      have m: "merged (drop i edges) = b @ merged (drop j edges)"
        using merged.simps(2) [of ?e "drop (i + 1) edges", folded d] False rest by (simp only: Let_def b_def if_False)
      have dj: "drop j edges' = drop j edges"
        using b j less(2) unfolding edges'_def by simp
      have "merge_edges edges k i = merge_edges edges' (k + length b) j"
        using True False emit_merged_law [of k _ _ _ _ _ edges, folded b_def] b j less(2)
        by (subst merge_edges.simps) (simp add: Let_def merge_parallel_law b_def [symmetric] edges'_def j_def [symmetric])
      moreover obtain out where "merge_edges edges' (k + length b) j = Some (out, k + length b + length (merged (drop j edges)))"
        "take (k + length b + length (merged (drop j edges))) out = take (k + length b) edges' @ merged (drop j edges)"
      proof -
        have "length edges' - j < length edges - i" "k + length b \<le> j" "j \<le> length edges'"
          using j len b less(2) by linarith+
        from less(1) [OF this] show ?thesis
          using that dj by auto
      qed
      moreover have "take (k + length b) edges' = take k edges @ b"
        using less(2,3) unfolding edges'_def by simp
      ultimately show ?thesis
        by (simp add: m add.assoc)
    qed
  qed (use less(3) in \<open>simp add: merge_edges.simps\<close>)
qed

section \<open>The merged edges\<close>

text \<open>Edges sorted by source and target, so that parallel edges stand together.\<close>

definition pair :: "'d input_edge \<Rightarrow> NodeID \<times> NodeID" where
  "pair e = (ie_source e, ie_target e)"

lemma ends_pair: "ends s t e \<longleftrightarrow> pair e = (s, t)"
  by (auto simp: ends_def pair_def)

lemma not_less_pair: "\<not> dg_input_edge_less y x \<longleftrightarrow> pair x \<le> pair y"
  by (auto simp: pair_def dg_input_edge_less_def less_eq_prod_def)

lemma sorted_pairs: "is_sorted dg_input_edge_less es \<longleftrightarrow> sorted (map pair es)"
  by (induction es rule: induct_list012) (simp_all add: not_less_pair sorted1 sorted2 del: sorted_wrt.simps(2))

lemma sorted_groups:
  assumes "sorted (map k (e # es))"
  shows "takeWhile (\<lambda>x. k x = k e) es = filter (\<lambda>x. k x = k e) es"
    and "dropWhile (\<lambda>x. k x = k e) es = filter (\<lambda>x. k x \<noteq> k e) es"
proof -
  have "takeWhile (\<lambda>x. k x = k e) es = filter (\<lambda>x. k x = k e) es
    \<and> dropWhile (\<lambda>x. k x = k e) es = filter (\<lambda>x. k x \<noteq> k e) es"
    using assms
  proof (induction es)
    case (Cons y ys)
    show ?case
    proof (cases "k y = k e")
      case False
      with Cons.prems have "\<forall>x \<in> set ys. k x \<noteq> k e"
        by force
      with False show ?thesis
        by (simp add: filter_False)
    qed (use Cons in simp)
  qed simp
  then show "takeWhile (\<lambda>x. k x = k e) es = filter (\<lambda>x. k x = k e) es"
    and "dropWhile (\<lambda>x. k x = k e) es = filter (\<lambda>x. k x \<noteq> k e) es"
    by blast+
qed

text \<open>What an edge list says of the ways from \<open>s\<close> to \<open>t\<close> with a flag.\<close>

definition lengths :: "(contractor_edge_data \<Rightarrow> bool) \<Rightarrow> contractor_edge list \<Rightarrow> NodeID \<Rightarrow> NodeID \<Rightarrow> int set" where
  "lengths flag es s t = {ce_distance (ie_data e) | e. e \<in> set es \<and> ends s t e \<and> flag (ie_data e)}"

definition least_of :: "int set \<Rightarrow> int set" where
  "least_of D = {d \<in> D. \<forall>d' \<in> D. d \<le> d'}"

lemma lengths_simps [simp]:
  "lengths flag [] s t = {}"
  "lengths flag (e # es) s t
    = (if ends s t e \<and> flag (ie_data e) then insert (ce_distance (ie_data e)) (lengths flag es s t) else lengths flag es s t)"
  by (auto simp: lengths_def)

lemma lengths_append: "lengths flag (xs @ ys) s t = lengths flag xs s t \<union> lengths flag ys s t"
  by (auto simp: lengths_def)

lemma lengths_filter:
  "lengths flag (filter (\<lambda>x. pair x = p) es) s t = (if (s, t) = p then lengths flag es s t else {})"
  "lengths flag (filter (\<lambda>x. pair x \<noteq> p) es) s t = (if (s, t) = p then {} else lengths flag es s t)"
  by (auto simp: lengths_def ends_pair)

lemma lengths_joined:
  "lengths ce_forward (joined s t i f r) s' t' = (if (s', t') = (s, t) \<and> to_int32 f \<noteq> INT_MAX then {f} else {})"
  "lengths ce_backward (joined s t i f r) s' t' = (if (s', t') = (s, t) \<and> to_int32 r \<noteq> INT_MAX then {r} else {})"
  by (auto simp: joined_def ends_def merged_edge_def)

lemma least_law:
  "least flag es d0 \<in> insert d0 {ce_distance (ie_data e) | e. e \<in> set es \<and> flag (ie_data e)}
   \<and> (\<forall>d \<in> insert d0 {ce_distance (ie_data e) | e. e \<in> set es \<and> flag (ie_data e)}. least flag es d0 \<le> d)"
proof (induction es arbitrary: d0)
  case (Cons e es)
  let ?d = "if flag (ie_data e) then min (ce_distance (ie_data e)) d0 else d0"
  have "least flag (e # es) d0 = least flag es ?d"
    by (simp add: least_def)
  with Cons [of ?d] show ?case
    by (auto simp: min_def split: if_splits; force)
qed (simp add: least_def)

definition in_range :: "contractor_edge list \<Rightarrow> bool" where
  "in_range es \<longleftrightarrow> (\<forall>e \<in> set es. 0 < ce_distance (ie_data e) \<and> ce_distance (ie_data e) < INT_MAX)"

lemma least_of_law:
  assumes "in_range es" and "\<forall>e \<in> set es. ends s t e"
  shows "(if to_int32 (least flag es INT_MAX) \<noteq> INT_MAX then {least flag es INT_MAX} else {}) = least_of (lengths flag es s t)"
proof -
  let ?D = "{ce_distance (ie_data e) | e. e \<in> set es \<and> flag (ie_data e)}"
  let ?l = "least flag es INT_MAX"
  have D: "lengths flag es s t = ?D"
    using assms(2) by (auto simp: lengths_def)
  have r: "\<forall>d \<in> ?D. 0 < d \<and> d < INT_MAX"
    using assms(1) by (auto simp: in_range_def)
  note l = least_law [of flag es INT_MAX]
  show ?thesis
  proof (cases "?D = {}")
    case True
    with l have "?l = INT_MAX"
      by auto
    then show ?thesis
      unfolding D True by (simp add: least_of_def to_int32_in INT_MAX_def)
  next
    case False
    then obtain d where d: "d \<in> ?D"
      by blast
    with l r have "?l \<noteq> INT_MAX"
      by force
    with l have m: "?l \<in> ?D" "\<forall>d \<in> ?D. ?l \<le> d"
      by blast+
    then have "to_int32 ?l = ?l"
      using r by (intro to_int32_in) (auto simp: INT_MAX_def)
    moreover have "least_of ?D = {?l}"
      using m by (auto simp: least_of_def intro: order_antisym)
    ultimately show ?thesis
      unfolding D using \<open>?l \<noteq> INT_MAX\<close> by simp
  qed
qed

lemma merged_step:
  assumes "sorted (map pair (e # es))" and "ie_source e \<noteq> ie_target e"
  defines "same \<equiv> filter (\<lambda>x. pair x = pair e) (e # es)"
  shows "merged (e # es) = joined (ie_source e) (ie_target e) (ce_id (ie_data e))
      (least ce_forward same INT_MAX) (least ce_backward same INT_MAX) @ merged (filter (\<lambda>x. pair x \<noteq> pair e) es)"
proof -
  have "ends (ie_source e) (ie_target e) = (\<lambda>x. pair x = pair e)"
    by (auto simp: ends_pair pair_def)
  note P = this
  show ?thesis
    unfolding merged.simps(2) Let_def P same_def using assms(2) sorted_groups [OF assms(1)] by simp
qed

lemma merged_lengths:
  assumes "sorted (map pair es)" and "in_range es"
  shows "lengths ce_forward (merged es) s t = (if s = t then {} else least_of (lengths ce_forward es s t))
    \<and> lengths ce_backward (merged es) s t = (if s = t then {} else least_of (lengths ce_backward es s t))"
  using assms
proof (induction "length es" arbitrary: es rule: less_induct)
  case less
  show ?case
  proof (cases es)
    case Nil
    then show ?thesis by (simp add: least_of_def)
  next
    case (Cons e rest)
    have r: "sorted (map pair rest)" "in_range rest"
      using less(2,3) by (simp_all add: Cons in_range_def)
    show ?thesis
    proof (cases "ie_source e = ie_target e")
      case True
      with less(1) [OF _ r] show ?thesis
        by (auto simp: Cons merged.simps(2) ends_def)
    next
      case False
      let ?same = "filter (\<lambda>x. pair x = pair e) es"
      let ?other = "filter (\<lambda>x. pair x \<noteq> pair e) rest"
      have o: "sorted (map pair ?other)" "in_range ?other" "length ?other < length es"
        using r by (auto simp: Cons in_range_def sorted_filter less_Suc_eq_le)
      have s: "in_range ?same" "\<forall>x \<in> set ?same. ends (ie_source e) (ie_target e) x"
        using less(3) by (auto simp: in_range_def ends_pair pair_def)
      have other: "filter (\<lambda>x. pair x \<noteq> pair e) es = ?other"
        by (simp add: Cons)
      note m = merged_step [OF less(2) [unfolded Cons] False, folded Cons]
      note same = least_of_law [OF s, of ce_forward] least_of_law [OF s, of ce_backward]
      show ?thesis
        using less(1) [OF o(3,1,2)] False same lengths_filter(1) [of _ "pair e" es] lengths_filter(2) [of _ "pair e" es]
        unfolding m lengths_append lengths_joined other by (auto simp: pair_def least_of_def)
    qed
  qed
qed

lemma joined_edges:
  assumes "x \<in> set (joined s t i f r)"
  shows "pair x = (s, t)" and "ce_forward (ie_data x) \<or> ce_backward (ie_data x)"
  using assms by (auto simp: joined_def merged_edge_def pair_def split: if_splits)

lemma merged_edges:
  assumes "sorted (map pair es)"
  shows "sorted (map pair (merged es)) \<and> (\<forall>x \<in> set (merged es). pair x \<in> pair ` set es
    \<and> ie_source x \<noteq> ie_target x \<and> (ce_forward (ie_data x) \<or> ce_backward (ie_data x)))"
  using assms
proof (induction "length es" arbitrary: es rule: less_induct)
  case less
  show ?case
  proof (cases es)
    case (Cons e rest)
    then have r: "sorted (map pair rest)" "\<forall>x \<in> set rest. pair e \<le> pair x"
      using less(2) by simp_all
    show ?thesis
    proof (cases "ie_source e = ie_target e")
      case True
      with less(1) [OF _ r(1)] show ?thesis
        by (auto simp: Cons merged.simps(2))
    next
      case False
      let ?other = "filter (\<lambda>x. pair x \<noteq> pair e) rest"
      have o: "sorted (map pair ?other)" "length ?other < length es"
        using r by (auto simp: Cons sorted_filter less_Suc_eq_le)
      note m = merged_step [OF less(2) [unfolded Cons] False, folded Cons]
      note IH = less(1) [OF o(2,1)]
      have j: "pair x = pair e" if "x \<in> set (joined (ie_source e) (ie_target e) i f r)" for x i f r
        using joined_edges(1) [OF that] by (simp add: pair_def)
      have "sorted (map pair (merged es))"
        unfolding m map_append sorted_append
      proof (intro conjI ballI)
        show "sorted (map pair (joined (ie_source e) (ie_target e) i f r))" for i f r
          by (simp add: joined_def merged_edge_def pair_def)
        show "p \<le> q" if "p \<in> set (map pair (joined (ie_source e) (ie_target e) i f r))"
          and "q \<in> set (map pair (merged ?other))" for p q i f r
        proof -
          from that(1) obtain x where "p = pair x" "x \<in> set (joined (ie_source e) (ie_target e) i f r)"
            by auto
          then have "p = pair e"
            using j by simp
          moreover have "q \<in> pair ` set ?other"
            using that(2) IH by auto
          then have "pair e \<le> q"
            using r(2) by auto
          ultimately show ?thesis by simp
        qed
      qed (use IH in blast)
      moreover have "pair x \<in> pair ` set es \<and> ie_source x \<noteq> ie_target x \<and> (ce_forward (ie_data x) \<or> ce_backward (ie_data x))"
        if "x \<in> set (merged es)" for x
      proof -
        from that consider "x \<in> set (merged ?other)" | i f r where "x \<in> set (joined (ie_source e) (ie_target e) i f r)"
          unfolding m by auto
        then show ?thesis
        proof cases
          case 1
          with IH show ?thesis
            by (auto simp: Cons)
        next
          case 2
          then have x: "pair x = pair e" "ce_forward (ie_data x) \<or> ce_backward (ie_data x)"
            using j joined_edges(2) by blast+
          then have "ie_source x = ie_source e" "ie_target x = ie_target e"
            by (simp_all add: pair_def)
          with x False show ?thesis
            by (simp add: Cons)
        qed
      qed
      ultimately show ?thesis by blast
    qed
  qed simp
qed

text \<open>
  Two things that the merging of edges loses. The count of original edges is cut off at a
  value that its bit field cannot hold, so that the largest counts become 0. A merged edge
  has the least length of the parallel edges but the number of the first of them.
\<close>

lemma original_edges_saturation:
  "ce_originalEdges (ContractorEdgeData d n i shortcut f b) = (if n < 2 ^ 28 then n else 0)"
  by (simp add: ContractorEdgeData_def min_def)

lemma merged_first_id:
  assumes "0 < d'" and "d' < d" and "d < INT_MAX" and "s \<noteq> t"
  shows "merged [\<lparr>ie_source = s, ie_target = t, ie_data = ContractorEdgeData d 1 i False True False\<rparr>,
      \<lparr>ie_source = s, ie_target = t, ie_data = ContractorEdgeData d' 1 i' False True False\<rparr>]
    = [merged_edge s t i d' True False]"
proof -
  have "d mod 2 ^ 32 = d" "d' mod 2 ^ 32 = d'" "to_int32 d' = d'" "to_int32 INT_MAX = INT_MAX"
    using assms by (auto simp: INT_MAX_def)
  with assms show ?thesis
    by (simp add: merged.simps(2) Let_def ends_def joined_def least_def ContractorEdgeData_def)
qed

section \<open>The constructor\<close>

text \<open>The lengths of the input edges that lead from \<open>u\<close> to \<open>v\<close>.\<close>

definition usable :: "edge_based_edge list \<Rightarrow> NodeID \<Rightarrow> NodeID \<Rightarrow> int set" where
  "usable input u v = {max (be_weight e) 1 | e. e \<in> set input
     \<and> (be_source e = u \<and> be_target e = v \<and> be_forward e \<or> be_source e = v \<and> be_target e = u \<and> be_backward e)}"

lemma usable_simps [simp]:
  "usable [] u v = {}"
  "usable (e # es) u v =
    (if be_source e = u \<and> be_target e = v \<and> be_forward e \<or> be_source e = v \<and> be_target e = u \<and> be_backward e
     then insert (max (be_weight e) 1) (usable es u v) else usable es u v)"
  by (auto simp: usable_def)

lemma out_lengths:
  assumes "dg_out g u = map to_entry (filter (\<lambda>e. ie_source e = u) es)"
  shows "(\<exists>x \<in> set (dg_out g u). ee_target x = v \<and> flag (ee_data x) \<and> ce_distance (ee_data x) = w) \<longleftrightarrow> w \<in> lengths flag es u v"
  unfolding assms by (auto simp: lengths_def ends_def to_entry_def)

lemma lengths_concat: "lengths flag (concat (map f xs)) s t = (\<Union>x \<in> set xs. lengths flag (f x) s t)"
  by (auto simp: lengths_def)

lemma imported:
  assumes "be_weight e < INT_MAX"
  shows "lengths ce_forward (import_edge e) u v = usable [e] u v"
    and "lengths ce_backward (import_edge e) u v = usable [e] v u"
    and "in_range (import_edge e)"
proof -
  have w: "0 < max (be_weight e) 1" "max (be_weight e) 1 < INT_MAX" "max (be_weight e) 1 mod 2 ^ 32 = max (be_weight e) 1"
    using assms by (auto simp: max_def INT_MAX_def)
  have E: "ends u v \<lparr>ie_source = s, ie_target = t, ie_data = d\<rparr> \<longleftrightarrow> s = u \<and> t = v"
    "ie_data \<lparr>ie_source = s, ie_target = t, ie_data = d\<rparr> = d"
    "ce_forward (ContractorEdgeData (max (be_weight e) 1) n i sc f b) = f"
    "ce_backward (ContractorEdgeData (max (be_weight e) 1) n i sc f b) = b"
    "ce_distance (ContractorEdgeData (max (be_weight e) 1) n i sc f b) = max (be_weight e) 1"
    for s t d n i sc f b
    using w(3) by (simp_all add: ends_def ContractorEdgeData_def)
  have one_of: "(if A then insert m (if B then {m} else {}) else if B then {m} else {}) = (if A \<or> B then {m} else {})"
    for A B and m :: int
    by simp
  show "lengths ce_forward (import_edge e) u v = usable [e] u v"
    and "lengths ce_backward (import_edge e) u v = usable [e] v u"
    by (simp_all only: import_edge_def lengths_simps usable_simps E conj_assoc one_of)
       (simp_all only: conj_ac disj_commute)
  show "in_range (import_edge e)"
    using w(1,2) by (simp only: import_edge_def in_range_def E) (simp add: E(5))
qed

lemma usable_union: "usable input u v = (\<Union>e \<in> set input. usable [e] u v)"
  by (induction input) simp_all

lemma lengths_import:
  assumes "\<forall>e \<in> set input. be_weight e < INT_MAX"
  shows "lengths ce_forward (concat (map import_edge input)) u v = usable input u v"
    and "lengths ce_backward (concat (map import_edge input)) u v = usable input v u"
    and "in_range (concat (map import_edge input))"
proof -
  show "lengths ce_forward (concat (map import_edge input)) u v = usable input u v"
    unfolding lengths_concat usable_union [of input] using assms imported(1) by (intro SUP_cong) auto
  show "lengths ce_backward (concat (map import_edge input)) u v = usable input v u"
    unfolding lengths_concat usable_union [of input] using assms imported(2) by (intro SUP_cong) auto
  show "in_range (concat (map import_edge input))"
    using assms imported(3) by (auto simp: in_range_def)
qed

text \<open>What the constructor relies on: the edges come back from the sort in the order of \<^verbatim>\<open>operator<\<close>.\<close>

definition sorts :: "('d input_edge list \<Rightarrow> 'd input_edge list) \<Rightarrow> bool" where
  "sorts psort \<longleftrightarrow> (\<forall>es. mset (psort es) = mset es \<and> is_sorted dg_input_edge_less (psort es))"

lemma sortsD:
  assumes "sorts psort"
  shows "set (psort es) = set es" and "sorted (map pair (psort es))"
  using assms by (auto simp: sorts_def sorted_pairs dest: mset_eq_setD)

lemma lengths_cong: "set es = set es' \<Longrightarrow> lengths flag es s t = lengths flag es' s t"
  by (simp add: lengths_def)

lemma Contractor_law:
  assumes "sorts psort" and "nodes \<le> UINT_MAX"
    and "\<forall>e \<in> set input. be_source e < nodes \<and> be_target e < nodes \<and> be_weight e < INT_MAX"
  shows "\<exists>c. Contractor psort nodes input levels = Some c \<and> ct_node_levels c = levels
    \<and> dg_ok (ct_contractor_graph c) \<and> dg_number_of_nodes (ct_contractor_graph c) = nodes
    \<and> mirrored {..<nodes} (ct_contractor_graph c) \<and> (\<forall>u < nodes. u \<notin> nbrs (ct_contractor_graph c) u)
    \<and> (\<forall>u < nodes. \<forall>v w. fedge (ct_contractor_graph c) u v w \<longleftrightarrow> u \<noteq> v \<and> w \<in> least_of (usable input u v))"
proof -
  let ?raw = "concat (map import_edge input)"
  let ?es = "psort ?raw"
  let ?m = "merged ?es"
  have "\<forall>e \<in> set input. be_weight e < INT_MAX"
    using assms(3) by blast
  note imp = lengths_import [OF this] and s = sortsD [OF assms(1)]
  have r: "in_range ?es"
    using imp(3) unfolding in_range_def s(1) .
  note m = merged_edges [OF s(2) [of ?raw]] and len = merged_lengths [OF s(2) r, unfolded lengths_cong [OF s(1)] imp(1,2)]
  obtain out where out: "merge_edges ?es 0 0 = Some (out, length ?m)" "take (length ?m) out = ?m"
    using merge_edges_law [of 0 0 ?es] by auto
  have ends: "ie_source x < nodes \<and> ie_target x < nodes \<and> ie_source x \<noteq> ie_target x \<and> (ce_forward (ie_data x) \<or> ce_backward (ie_data x))"
    if "x \<in> set ?m" for x
  proof -
    from bspec [OF conjunct2 [OF m] that] obtain y where y: "y \<in> set ?raw" "pair x = pair y" "ie_source x \<noteq> ie_target x"
      "ce_forward (ie_data x) \<or> ce_backward (ie_data x)"
      unfolding s(1) by blast
    then have "ie_source y < nodes" "ie_target y < nodes"
      using assms(3) by (auto simp: import_edge_def)
    with y(2-4) show ?thesis
      by (simp add: pair_def)
  qed
  have srt: "is_sorted dg_input_edge_less ?m"
    using conjunct1 [OF m] unfolding sorted_pairs .
  obtain g where g: "DynamicGraph contractor_entry nodes ?m = Some g" "dg_ok g" "dg_number_of_nodes g = nodes"
    "\<forall>v < nodes. dg_out g v = map to_entry (filter (\<lambda>e. ie_source e = v) ?m)"
    using DynamicGraph_law [OF srt assms(2), of contractor_entry] ends by blast
  have f: "fedge g u v w \<longleftrightarrow> u \<noteq> v \<and> w \<in> least_of (usable input u v)" if "u < nodes" for u v w
  proof -
    have "fedge g u v w \<longleftrightarrow> w \<in> lengths ce_forward ?m u v"
      using that g(3) out_lengths [OF g(4) [rule_format, OF that], of v ce_forward w] by (simp only: fedge_def simp_thms)
    then show ?thesis
      unfolding conjunct1 [OF len [of u v]] by (cases "u = v") simp_all
  qed
  have b: "bedge g u v w \<longleftrightarrow> u \<noteq> v \<and> w \<in> least_of (usable input v u)" if "u < nodes" for u v w
  proof -
    have "bedge g u v w \<longleftrightarrow> w \<in> lengths ce_backward ?m u v"
      using that g(3) out_lengths [OF g(4) [rule_format, OF that], of v ce_backward w] by (simp only: bedge_def simp_thms)
    then show ?thesis
      unfolding conjunct2 [OF len [of u v]] by (cases "u = v") simp_all
  qed
  have edges: "ee_target y < nodes" "ce_forward (ee_data y) \<or> ce_backward (ee_data y)" "ee_target y \<noteq> u"
    if u: "u < nodes" and y: "y \<in> set (dg_out g u)" for u y
  proof -
    from y obtain x where "x \<in> set ?m" "ie_source x = u" "y = to_entry x"
      unfolding g(4) [rule_format, OF u] by auto
    with ends [of x] show "ee_target y < nodes" "ce_forward (ee_data y) \<or> ce_backward (ee_data y)" "ee_target y \<noteq> u"
      by (auto simp: to_entry_def)
  qed
  have v: "v < nodes" if "fedge g u v w \<or> bedge g u v w" for u v w
    using that edges(1) g(3) by (auto simp: fedge_def bedge_def)
  have mir: "mirrored {..<nodes} g"
    unfolding mirrored_def
  proof (intro conjI ballI allI impI)
    fix u v' w
    assume u: "u \<in> {..<nodes}"
    show "\<exists>w' \<le> w. bedge g v' u w'" if "fedge g u v' w"
      using that f [of u v' w] b [of v' u w] v [of u v' w] u by blast
    show "\<exists>w' \<le> w. fedge g v' u w'" if "bedge g u v' w"
      using that b [of u v' w] f [of v' u w] v [of u v' w] u by blast
  qed (use g(3) edges in simp_all)
  define c where "c = \<lparr>ct_contractor_graph = g, ct_external_edge_list = [], ct_orig_node_id_from_new_node_id_map = [],
    ct_node_levels = levels, ct_is_core_node = []\<rparr>"
  have c: "Contractor psort nodes input levels = Some c"
    by (simp add: Contractor_def Let_def out g(1) c_def)
  have g_c: "ct_contractor_graph c = g" and levels: "ct_node_levels c = levels"
    by (simp_all add: c_def)
  have loops: "\<forall>u < nodes. u \<notin> nbrs g u"
    using edges(3) by (auto simp: nbrs_def)
  show ?thesis
    by (rule exI [of _ c], unfold g_c) (use c levels g(2,3) mir loops f in blast)
qed

text \<open>
  C37: the graph of a new contractor is the input without loops and with parallel edges
  merged. For every list of edges between its nodes, with weights below the value that stands
  for no edge, the constructor succeeds; an edge from \<open>u\<close> to \<open>v\<close> of length \<open>w\<close> is in the
  graph exactly if \<open>u\<close> and \<open>v\<close> differ and \<open>w\<close> is the least length of the input edges that
  lead from \<open>u\<close> to \<open>v\<close>, in either of their directions. Every edge is stored at both ends.
\<close>

theorem Contractor_correct:
  assumes "sorts psort" and "nodes \<le> UINT_MAX"
    and "\<forall>e \<in> set input. be_source e < nodes \<and> be_target e < nodes \<and> be_weight e < INT_MAX"
  shows "\<exists>c. Contractor psort nodes input levels = Some c \<and> ct_node_levels c = levels
    \<and> dg_ok (ct_contractor_graph c) \<and> dg_number_of_nodes (ct_contractor_graph c) = nodes
    \<and> mirrored {..<nodes} (ct_contractor_graph c) \<and> (\<forall>u < nodes. u \<notin> nbrs (ct_contractor_graph c) u)
    \<and> (\<forall>u < nodes. \<forall>v w. fedge (ct_contractor_graph c) u v w \<longleftrightarrow> u \<noteq> v \<and> w \<in> least_of (usable input u v))"
  using assms by (rule Contractor_law)

theorem Contractor_correct_witness:
  "\<exists>c. Contractor (sort_key pair) 2
      [\<lparr>be_source = 0, be_target = 1, be_edge_id = 0, be_weight = 7, be_forward = True, be_backward = True\<rparr>,
       \<lparr>be_source = 0, be_target = 1, be_edge_id = 1, be_weight = 5, be_forward = True, be_backward = False\<rparr>] ([] :: nat list) = Some c
    \<and> fedge (ct_contractor_graph c) 0 1 5 \<and> fedge (ct_contractor_graph c) 1 0 7"
proof -
  let ?in = "[\<lparr>be_source = 0, be_target = 1, be_edge_id = 0, be_weight = 7, be_forward = True, be_backward = True\<rparr>,
    \<lparr>be_source = 0, be_target = 1, be_edge_id = 1, be_weight = 5, be_forward = True, be_backward = False\<rparr>]"
  have s: "sorts (sort_key pair)"
    by (simp add: sorts_def sorted_pairs)
  have h: "(2 :: nat) \<le> UINT_MAX" "\<forall>e \<in> set ?in. be_source e < 2 \<and> be_target e < 2 \<and> be_weight e < INT_MAX"
    by (simp_all add: UINT_MAX_def INT_MAX_def)
  have u: "usable ?in 0 1 = {7, 5}" "usable ?in 1 0 = {7}"
    by simp_all
  from Contractor_correct [OF s h, of "[] :: nat list"] obtain c where run: "Contractor (sort_key pair) 2 ?in ([] :: nat list) = Some c"
    and c: "\<forall>u < 2. \<forall>v w. fedge (ct_contractor_graph c) u v w \<longleftrightarrow> u \<noteq> v \<and> w \<in> least_of (usable ?in u v)"
    by blast
  have one: "(1 :: nat) < 2"
    by simp
  have "fedge (ct_contractor_graph c) 0 1 5"
    unfolding c [rule_format, OF zero_less_numeral] u by (simp add: least_of_def)
  moreover have "fedge (ct_contractor_graph c) 1 0 7"
    unfolding c [rule_format, OF one] u by (simp add: least_of_def)
  ultimately show ?thesis
    using run by blast
qed

end
