(* ===== verification/Hierarchy.thy ===== *)
theory Hierarchy
  imports Overlay
begin

text \<open>
  What the rounds of a contraction leave behind, about edge relations only. An entry
  \<open>E True u v w\<close> says that \<open>u\<close> stores an edge to \<open>v\<close>, an entry \<open>E False u v w\<close>
  that \<open>u\<close> stores an edge from \<open>v\<close>. The entries of a node that has been contracted lead
  to nodes that were contracted after it: a shortest way climbs along the entries of its
  first node and along those of its last node, and the two climbs meet at some node.
\<close>

section \<open>Climbs\<close>

type_synonym entries = "bool \<Rightarrow> NodeID \<Rightarrow> NodeID \<Rightarrow> int \<Rightarrow> bool"

definition climbing :: "NodeID set \<Rightarrow> entries \<Rightarrow> bool \<Rightarrow> NodeID \<Rightarrow> NodeID \<Rightarrow> int \<Rightarrow> bool" where
  "climbing R E dir u v w \<longleftrightarrow> u \<notin> R \<and> E dir u v w"

text \<open>Every entry stands for a way of the original edges \<open>E0\<close> that is not longer.\<close>

definition sound :: "(NodeID \<Rightarrow> NodeID \<Rightarrow> int \<Rightarrow> bool) \<Rightarrow> entries \<Rightarrow> bool" where
  "sound E0 E \<longleftrightarrow> (\<forall>u v w. (E True u v w \<longrightarrow> (\<exists>d \<le> w. walk E0 u v d)) \<and> (E False u v w \<longrightarrow> (\<exists>d \<le> w. walk E0 v u d)))"

text \<open>Two climbs joined among the nodes \<open>R\<close> that are still to be contracted.\<close>

definition joins :: "NodeID set \<Rightarrow> entries \<Rightarrow> NodeID \<Rightarrow> NodeID \<Rightarrow> int \<Rightarrow> bool" where
  "joins R E a b q \<longleftrightarrow> a = b \<and> q = 0 \<or> a \<in> R \<and> b \<in> R \<and> walk (E True) a b q"

definition meets :: "NodeID set \<Rightarrow> entries \<Rightarrow> NodeID \<Rightarrow> NodeID \<Rightarrow> int \<Rightarrow> bool" where
  "meets R E u v d \<longleftrightarrow> (\<exists>a b p q r. walk (climbing R E True) u a p \<and> walk (climbing R E False) v b r
     \<and> joins R E a b q \<and> p + q + r \<le> d)"

definition complete :: "(NodeID \<Rightarrow> NodeID \<Rightarrow> int \<Rightarrow> bool) \<Rightarrow> NodeID set \<Rightarrow> entries \<Rightarrow> bool" where
  "complete E0 R E \<longleftrightarrow> (\<forall>u v d. walk E0 u v d \<longrightarrow> meets R E u v d)"

lemma meetsI:
  assumes "walk (climbing R E True) u a p" and "walk (climbing R E False) v b r" and "joins R E a b q" and "p + q + r \<le> d"
  shows "meets R E u v d"
  using assms unfolding meets_def by blast

lemma soundD:
  assumes "sound E0 E"
  shows "E True u v w \<Longrightarrow> \<exists>d \<le> w. walk E0 u v d" and "E False u v w \<Longrightarrow> \<exists>d \<le> w. walk E0 v u d"
  using assms by (simp_all add: sound_def)

lemma walk_cases_first:
  assumes "walk E u v d"
  shows "u = v \<and> d = 0 \<or> (\<exists>x w d'. E u x w \<and> walk E x v d' \<and> d = w + d')"
  using assms
proof (induction rule: walk.induct)
  case (walk_step u v d y c)
  from walk_step.IH show ?case
  proof
    assume "u = v \<and> d = 0"
    with walk_step.hyps(2) show ?thesis
      by (intro disjI2 exI [of _ y] exI [of _ c] exI [of _ 0]) simp
  next
    assume "\<exists>x w d'. E u x w \<and> walk E x v d' \<and> d = w + d'"
    then obtain x w d' where "E u x w" "walk E x v d'" "d = w + d'"
      by blast
    with walk.walk_step [OF this(2) walk_step.hyps(2)] show ?thesis
      by (intro disjI2 exI [of _ x] exI [of _ w] exI [of _ "d' + c"]) simp
  qed
qed simp

lemma walk_first:
  assumes "walk E u v d" and "u \<noteq> v"
  shows "\<exists>x w d'. E u x w \<and> walk E x v d' \<and> d = w + d'"
  using walk_cases_first [OF assms(1)] assms(2) by blast

lemma walk_last:
  assumes "walk E u v d" and "u \<noteq> v"
  shows "\<exists>x w d'. walk E u x d' \<and> E x v w \<and> d = d' + w"
  using assms by (cases rule: walk.cases) auto

text \<open>Climbs that meet stand for a way of the original edges.\<close>

lemma sound_up:
  assumes "sound E0 E" and "walk (E True) u v d"
  shows "\<exists>d' \<le> d. walk E0 u v d'"
  using assms(2)
proof (induction rule: walk.induct)
  case (walk_step u v d w c)
  then obtain d1 d2 where "d1 \<le> d" "walk E0 u v d1" "d2 \<le> c" "walk E0 v w d2"
    using soundD(1) [OF assms(1)] by blast
  then have "d1 + d2 \<le> d + c" "walk E0 u w (d1 + d2)"
    by (auto intro: walk_trans)
  then show ?case by blast
qed auto

lemma sound_down:
  assumes "sound E0 E" and "walk (E False) u v d"
  shows "\<exists>d' \<le> d. walk E0 v u d'"
  using assms(2)
proof (induction rule: walk.induct)
  case (walk_step u v d w c)
  then obtain d1 d2 where "d1 \<le> d" "walk E0 v u d1" "d2 \<le> c" "walk E0 w v d2"
    using soundD(2) [OF assms(1)] by blast
  then have "d2 + d1 \<le> d + c" "walk E0 w u (d2 + d1)"
    by (auto intro: walk_trans)
  then show ?case by blast
qed auto

lemma sound_meets:
  assumes "sound E0 E" and "meets R E u v d"
  shows "\<exists>d' \<le> d. walk E0 u v d'"
proof -
  obtain a b p q r where m: "walk (climbing R E True) u a p" "walk (climbing R E False) v b r" "joins R E a b q" "p + q + r \<le> d"
    using assms(2) unfolding meets_def by blast
  have "walk (E True) u a p" "walk (E False) v b r"
    using m(1,2) by (auto elim!: walk_mono simp: climbing_def)
  then obtain p' r' where "p' \<le> p" "walk E0 u a p'" "r' \<le> r" "walk E0 b v r'"
    using sound_up [OF assms(1)] sound_down [OF assms(1)] by meson
  moreover obtain q' where "q' \<le> q" "walk E0 a b q'"
    using m(3) sound_up [OF assms(1), of a b q] unfolding joins_def by (metis order_refl walk_refl)
  ultimately have "walk E0 u v (p' + q' + r')" "p' + q' + r' \<le> d"
    using m(4) by (auto intro: walk_trans)
  then show ?thesis by blast
qed

section \<open>A round\<close>

text \<open>
  What a round that contracts \<open>S\<close> does to the entries: those of all nodes outside
  \<open>R - S\<close> stay, up to a shorter parallel edge, and the distances between the nodes that
  are left are kept.
\<close>

locale shrinking =
  fixes R S :: "NodeID set" and E E' :: entries
  assumes positive_entry: "E dir u v w \<Longrightarrow> 0 < w"
    and closed: "u \<in> R \<Longrightarrow> E True u v w \<Longrightarrow> v \<in> R"
    and mirror: "u \<in> R \<Longrightarrow> E True u v w \<Longrightarrow> \<exists>w' \<le> w. E False v u w'"
    and apart: "u \<in> S \<Longrightarrow> E True u v w \<Longrightarrow> v \<notin> S"
    and contracted: "S \<subseteq> R"
    and stays: "u \<notin> R - S \<Longrightarrow> E dir u v w \<Longrightarrow> \<exists>w' \<le> w. E' dir u v w'"
    and stays_only: "u \<notin> R - S \<Longrightarrow> E' dir u v w \<Longrightarrow> E dir u v w"
    and added: "u \<in> R - S \<Longrightarrow> E' dir u v w \<Longrightarrow> E dir u v w \<or> (\<exists>x a b. w = a + b \<and> E (\<not> dir) x u a \<and> E dir x v b)"
    and distances: "u \<in> R - S \<Longrightarrow> v \<in> R - S \<Longrightarrow> walk (E True) u v d \<Longrightarrow> \<exists>d' \<le> d. walk (E' True) u v d'"
begin

lemma sound_after:
  assumes "sound E0 E"
  shows "sound E0 E'"
proof -
  have old: "\<exists>d \<le> w. if dir then walk E0 u v d else walk E0 v u d" if "E dir u v w" for dir u v w
    using that soundD [OF assms, of u v w] by (cases dir) auto
  have "\<exists>d \<le> w. if dir then walk E0 u v d else walk E0 v u d" if e: "E' dir u v w" for dir u v w
  proof (cases "E dir u v w")
    case False
    then obtain x a b where x: "w = a + b" "E (\<not> dir) x u a" "E dir x v b"
      using added [OF _ e] stays_only [OF _ e] by blast
    obtain d1 d2 where "d1 \<le> a" "if \<not> dir then walk E0 x u d1 else walk E0 u x d1"
      "d2 \<le> b" "if dir then walk E0 x v d2 else walk E0 v x d2"
      using old [OF x(2)] old [OF x(3)] by blast
    then show ?thesis
      using x(1) walk_trans [of E0 u x d1 v d2] walk_trans [of E0 v x d2 u d1]
      by (intro exI [of _ "d1 + d2"]) (auto simp: add.commute split: if_splits)
  qed (rule old)
  from this [of True] this [of False] show ?thesis
    by (simp add: sound_def)
qed

lemma climb_stays:
  assumes "walk (climbing R E dir) u v d"
  shows "\<exists>d' \<le> d. walk (climbing (R - S) E' dir) u v d'"
  using assms
proof (rule walk_le)
  show "\<exists>w' \<le> w. climbing (R - S) E' dir a b w'" if "climbing R E dir a b w" for a b w
    using that stays [of a dir b w] unfolding climbing_def by blast
qed

lemma climb_on:
  assumes "u \<in> S" and "E dir u v w"
  shows "\<exists>w' \<le> w. walk (climbing (R - S) E' dir) u v w'"
proof -
  obtain w' where "w' \<le> w" "E' dir u v w'"
    using stays [of u dir v w] assms by blast
  with assms(1) walk_edge [of "climbing (R - S) E' dir" u v w'] show ?thesis
    by (auto simp: climbing_def)
qed

lemma walk_positive: "walk (E True) u v d \<Longrightarrow> 0 \<le> d"
  by (induction rule: walk.induct) (auto dest: positive_entry)

lemma walk_closed: "walk (E True) u v d \<Longrightarrow> u \<in> R \<Longrightarrow> v \<in> R"
  by (induction rule: walk.induct) (auto dest: closed)

text \<open>A way between nodes of \<open>R\<close> leaves its first and its last node if they are contracted.\<close>

lemma start_climbs:
  assumes "walk (E True) a b q" and "a \<in> R" and "b \<in> R" and "a \<noteq> b"
  shows "\<exists>a' p q'. walk (climbing (R - S) E' True) a a' p \<and> walk (E True) a' b q' \<and> a' \<in> R - S \<and> p + q' \<le> q"
proof (cases "a \<in> S")
  case True
  obtain x w d where x: "E True a x w" "walk (E True) x b d" "q = w + d"
    using walk_first [OF assms(1,4)] by blast
  obtain w' where "w' \<le> w" "walk (climbing (R - S) E' True) a x w'"
    using climb_on [OF True x(1)] by blast
  moreover have "x \<in> R - S"
    using closed [OF assms(2) x(1)] apart [OF True x(1)] by blast
  ultimately show ?thesis
    using x(2,3) by (intro exI [of _ x] exI [of _ w'] exI [of _ d]) simp
next
  case False
  with assms show ?thesis
    by (intro exI [of _ a] exI [of _ 0] exI [of _ q]) simp
qed

lemma end_climbs:
  assumes "walk (E True) a b q" and "a \<in> R - S" and "b \<in> R"
  shows "\<exists>b' r q'. walk (climbing (R - S) E' False) b b' r \<and> walk (E True) a b' q' \<and> b' \<in> R - S \<and> q' + r \<le> q"
proof (cases "b \<in> S")
  case True
  then have "a \<noteq> b"
    using assms(2) by blast
  then obtain x w d where x: "walk (E True) a x d" "E True x b w" "q = d + w"
    using walk_last [OF assms(1)] by blast
  have xR: "x \<in> R"
    using walk_closed [OF x(1)] assms(2) by blast
  obtain w1 where w1: "w1 \<le> w" "E False b x w1"
    using mirror [OF xR x(2)] by blast
  obtain w' where "w' \<le> w1" "walk (climbing (R - S) E' False) b x w'"
    using climb_on [OF True w1(2)] by blast
  moreover have "x \<in> R - S"
    using apart [of x b w] x(2) True xR by blast
  ultimately show ?thesis
    using x(1,3) w1(1) by (intro exI [of _ x] exI [of _ w'] exI [of _ d]) simp
next
  case False
  with assms show ?thesis
    by (intro exI [of _ b] exI [of _ 0] exI [of _ q]) simp
qed

lemma joins_after:
  assumes "joins R E a b q"
  shows "\<exists>a' b' p q' r. walk (climbing (R - S) E' True) a a' p \<and> walk (climbing (R - S) E' False) b b' r
    \<and> joins (R - S) E' a' b' q' \<and> p + q' + r \<le> q"
proof (cases "a = b")
  case True
  then have "0 \<le> q"
    using assms walk_positive by (auto simp: joins_def)
  with True show ?thesis
    by (intro exI [of _ a] exI [of _ 0]) (simp add: joins_def)
next
  case False
  then have ab: "walk (E True) a b q" "a \<in> R" "b \<in> R"
    using assms by (auto simp: joins_def)
  obtain a' p q1 where a': "walk (climbing (R - S) E' True) a a' p" "walk (E True) a' b q1" "a' \<in> R - S" "p + q1 \<le> q"
    using start_climbs [OF ab False] by blast
  obtain b' r q2 where b': "walk (climbing (R - S) E' False) b b' r" "walk (E True) a' b' q2" "b' \<in> R - S" "q2 + r \<le> q1"
    using end_climbs [OF a'(2,3) ab(3)] by blast
  obtain q' where q': "q' \<le> q2" "walk (E' True) a' b' q'"
    using distances [OF a'(3) b'(3,2)] by blast
  then have "joins (R - S) E' a' b' q'" "p + q' + r \<le> q"
    using a'(3,4) b'(3,4) by (auto simp: joins_def)
  with a'(1) b'(1) show ?thesis
    by blast
qed

lemma complete_after:
  assumes "complete E0 R E"
  shows "complete E0 (R - S) E'"
  unfolding complete_def
proof (intro allI impI)
  fix u v d
  assume "walk E0 u v d"
  then obtain a b p q r where m: "walk (climbing R E True) u a p" "walk (climbing R E False) v b r" "joins R E a b q"
    "p + q + r \<le> d"
    using assms unfolding complete_def meets_def by blast
  obtain p1 r1 where c: "p1 \<le> p" "walk (climbing (R - S) E' True) u a p1" "r1 \<le> r" "walk (climbing (R - S) E' False) v b r1"
    using climb_stays [OF m(1)] climb_stays [OF m(2)] by blast
  obtain a' b' p2 q' r2 where j: "walk (climbing (R - S) E' True) a a' p2" "walk (climbing (R - S) E' False) b b' r2"
    "joins (R - S) E' a' b' q'" "p2 + q' + r2 \<le> q"
    using joins_after [OF m(3)] by blast
  show "meets (R - S) E' u v d"
    using walk_trans [OF c(2) j(1)] walk_trans [OF c(4) j(2)] j(3)
    by (rule meetsI) (use c(1,3) j(4) m(4) in linarith)
qed

end

end
