(* ===== verification/Contraction_Hierarchy.thy ===== *)
theory Contraction_Hierarchy
  imports Contractor_Run Contractor_Build Hierarchy
begin

text \<open>
  The rounds of \<^verbatim>\<open>Contractor::Run\<close> build a contraction hierarchy: the abstract round of
  \<^verbatim>\<open>Hierarchy\<close> is what \<^verbatim>\<open>contract_graph\<close> does to the edges that the contractor
  stores, under the original numbers of the nodes and with the edges it has put aside when it
  renumbered the nodes.
\<close>

section \<open>Entries under other names\<close>

definition renamed :: "(NodeID \<Rightarrow> NodeID) \<Rightarrow> contractor_graph \<Rightarrow> entries \<Rightarrow> entries" where
  "renamed f g aside dir x y w \<longleftrightarrow> (\<exists>u v. x = f u \<and> y = f v \<and> dedge g dir u v w) \<or> aside dir x y w"

text \<open>Names of the nodes, and entries put aside that belong to other nodes.\<close>

definition names_ok :: "(NodeID \<Rightarrow> NodeID) \<Rightarrow> contractor_graph \<Rightarrow> entries \<Rightarrow> bool" where
  "names_ok f g aside \<longleftrightarrow> inj_on f {..<dg_number_of_nodes g}
     \<and> (\<forall>dir x y w. aside dir x y w \<longrightarrow> 0 < w \<and> x \<notin> f ` {..<dg_number_of_nodes g})"

lemma names_okD:
  assumes "names_ok f g aside"
  shows "f u = f v \<Longrightarrow> u < dg_number_of_nodes g \<Longrightarrow> v < dg_number_of_nodes g \<Longrightarrow> u = v"
    and "aside dir x y w \<Longrightarrow> 0 < w" and "aside dir (f u) y w \<Longrightarrow> u < dg_number_of_nodes g \<Longrightarrow> False"
  using assms unfolding names_ok_def by (auto dest: inj_onD) blast

lemma dedge_less:
  assumes "dedge g dir u v w"
  shows "u < dg_number_of_nodes g"
  using assms by (simp add: dedge_def)

lemma dedgeD:
  assumes "cg_ok deg g" and "dedge g dir u v w"
  shows "v < dg_number_of_nodes g" and "u \<noteq> v" and "0 < w"
  using assms cg_okD(3-5) [OF assms(1)] by (auto simp: dedge_def)

lemma renamed_entry:
  assumes "names_ok f g aside" and "u < dg_number_of_nodes g"
  shows "renamed f g aside dir (f u) y w \<longleftrightarrow> (\<exists>v. y = f v \<and> dedge g dir u v w)"
  using names_okD [OF assms(1)] assms(2) unfolding renamed_def by (metis dedge_less)

lemma walk_image: "walk (fedge g) u v d \<Longrightarrow> walk (renamed f g aside True) (f u) (f v) d"
proof (induction rule: walk.induct)
  case (walk_step u v d w c)
  then show ?case
    by (intro walk.walk_step [of _ _ "f v"]) (auto simp: renamed_def dedge_simps)
qed simp

lemma walk_renamed:
  assumes n: "names_ok f g aside" and m: "mirrored R g" and u: "u \<in> R" and w: "walk (renamed f g aside True) x y d" and x: "x = f u"
  shows "\<exists>v \<in> R. y = f v \<and> walk (fedge g) u v d"
  using w x
proof (induction rule: walk.induct)
  case (walk_refl x)
  with u show ?case by auto
next
  case (walk_step x y d z c)
  then obtain v where v: "v \<in> R" "y = f v" "walk (fedge g) u v d"
    by blast
  with walk_step.hyps(2) renamed_entry [OF n mirroredD(1) [OF m v(1)]] obtain t where t: "z = f t" "fedge g v t c"
    by (auto simp: dedge_simps)
  with v fedge_in [OF m v(1) t(2)] show ?case
    by (auto intro: walk.walk_step)
qed

section \<open>The round as a step of the hierarchy\<close>

definition lifts ::
  "nat \<Rightarrow> NodeID set \<Rightarrow> NodeID set \<Rightarrow> contractor_graph \<Rightarrow> contractor_edge list \<Rightarrow> contractor_graph
   \<Rightarrow> (NodeID \<Rightarrow> NodeID) \<Rightarrow> entries \<Rightarrow> bool" where
  "lifts deg R S g es g' f aside \<longleftrightarrow> round_result deg R S g es g' \<and> names_ok f g aside"

definition entries_if :: "bool \<Rightarrow> entries \<Rightarrow> entries" where
  "entries_if b E dir x y w \<longleftrightarrow> b \<and> E dir x y w"

definition set_if :: "bool \<Rightarrow> NodeID set \<Rightarrow> NodeID set" where
  "set_if b A = (if b then A else {})"

lemma names_ok_round:
  assumes "lifts deg R S g es g' f aside"
  shows "names_ok f g' aside"
  using assms round_resultD(7) [of deg R S g es g'] by (simp add: lifts_def names_ok_def)

lemma image_left:
  assumes "lifts deg R S g es g' f aside" and "u < dg_number_of_nodes g"
  shows "f u \<in> f ` R - f ` S \<longleftrightarrow> u \<in> R - S"
proof -
  have "R \<subseteq> {..<dg_number_of_nodes g}" "S \<subseteq> R"
    using mirroredD(1) [OF round_resultD(2)] round_resultD(4) assms(1) unfolding lifts_def by blast+
  then show ?thesis
    using names_okD(1) [of f g aside u] assms by (auto simp: lifts_def subset_iff)
qed

lemma shrinking_lifts:
  assumes L: "lifts deg R S g es g' f aside"
  shows "shrinking (f ` R) (f ` S) (renamed f g aside) (renamed f g' aside)"
proof -
  have r: "round_result deg R S g es g'" and n: "names_ok f g aside"
    using L by (simp_all add: lifts_def)
  note D = round_resultD [OF r] and n' = names_ok_round [OF L]
  have lt: "u < dg_number_of_nodes g" if "u \<in> R" for u
    using mirroredD(1) [OF D(2) that] .
  have entry: "renamed f g aside dir (f u) y w \<longleftrightarrow> (\<exists>v. y = f v \<and> dedge g dir u v w)"
    "renamed f g' aside dir (f u) y w \<longleftrightarrow> (\<exists>v. y = f v \<and> dedge g' dir u v w)" if "u \<in> R" for u dir y w
    using renamed_entry [OF n lt [OF that]] renamed_entry [OF n'] lt [OF that] D(7) by simp_all
  show ?thesis
  proof
    show "0 < w" if "renamed f g aside dir x y w" for dir x y w
      using that dedgeD(3) [OF D(1)] names_okD(2) [OF n] unfolding renamed_def by blast
    show "y \<in> f ` R" if x: "x \<in> f ` R" and e: "renamed f g aside True x y w" for x y w
    proof -
      obtain u v where "u \<in> R" "y = f v" "fedge g u v w"
        using x e entry(1) by (auto simp: dedge_simps)
      then show ?thesis
        using fedge_in [OF D(2)] by blast
    qed
    show "\<exists>w' \<le> w. renamed f g aside False y x w'" if x: "x \<in> f ` R" and e: "renamed f g aside True x y w" for x y w
    proof -
      obtain u v where "u \<in> R" "x = f u" "y = f v" "fedge g u v w"
        using x e entry(1) by (auto simp: dedge_simps)
      then show ?thesis
        using mirroredD(4) [OF D(2)] unfolding renamed_def dedge_simps by blast
    qed
    show "y \<notin> f ` S" if x: "x \<in> f ` S" and e: "renamed f g aside True x y w" for x y w
    proof
      assume y: "y \<in> f ` S"
      obtain u where u: "u \<in> S" "x = f u"
        using x by blast
      then obtain v where v: "y = f v" "dedge g True u v w"
        using e entry(1) [of u] D(4) by blast
      obtain t where t: "t \<in> S" "y = f t"
        using y by blast
      then have "v = t"
        using names_okD(1) [OF n, of v t] v(1) dedgeD(1) [OF D(1) v(2)] lt D(4) by auto
      then show False
        using far_apartD(1) [OF D(3) u(1) t(1)] v(2) dedgeD(2) [OF D(1) v(2)] fedge_nbrs(1) by (auto simp: dedge_simps)
    qed
    show "f ` S \<subseteq> f ` R"
      using D(4) by blast
    show "\<exists>w' \<le> w. renamed f g' aside dir x y w'" if x: "x \<notin> f ` R - f ` S" and e: "renamed f g aside dir x y w" for x y w dir
      using e unfolding renamed_def [of f g]
    proof
      assume "\<exists>u v. x = f u \<and> y = f v \<and> dedge g dir u v w"
      then obtain u v where u: "x = f u" "y = f v" "dedge g dir u v w"
        by blast
      have "u \<notin> R - S"
        using x image_left [OF L dedge_less [OF u(3)]] unfolding u(1) by blast
      from round_stays [OF r this u(3)] u(1,2) show ?thesis
        unfolding renamed_def by blast
    qed (auto simp: renamed_def)
    show "renamed f g aside dir x y w" if x: "x \<notin> f ` R - f ` S" and e: "renamed f g' aside dir x y w" for x y w dir
      using e unfolding renamed_def [of f g']
    proof
      assume "\<exists>u v. x = f u \<and> y = f v \<and> dedge g' dir u v w"
      then obtain u v where u: "x = f u" "y = f v" "dedge g' dir u v w"
        by blast
      have "u \<notin> R - S"
        using x image_left [OF L, of u] dedge_less [OF u(3)] unfolding u(1) D(7) by blast
      from round_stays_only [OF r this u(3)] u(1,2) show ?thesis
        unfolding renamed_def by blast
    qed (auto simp: renamed_def)
    show "renamed f g aside dir x y w \<or> (\<exists>z a b. w = a + b \<and> renamed f g aside (\<not> dir) z x a \<and> renamed f g aside dir z y b)"
      if x: "x \<in> f ` R - f ` S" and e: "renamed f g' aside dir x y w" for x y w dir
    proof -
      obtain u where u: "u \<in> R - S" "x = f u"
        using x by blast
      then obtain v where v: "y = f v" "dedge g' dir u v w"
        using e entry(2) [of u] by blast
      from round_only(2) [OF r u(1) v(2)] show ?thesis
      proof
        assume "dedge g dir u v w"
        then show ?thesis
          using u(2) v(1) unfolding renamed_def by blast
      next
        assume way: "(u, v, w, dir) \<in> ways es"
        have "\<exists>z a b. w = a + b \<and> dedge g (\<not> dir) z u a \<and> dedge g dir z v b"
        proof (cases dir)
          case True
          with shortcuts_forD(4) [OF D(5), of u v w] way show ?thesis
            by (auto simp: dedge_simps)
        next
          case False
          with way have "(v, u, w, True) \<in> ways es"
            using shortcuts_forD(2) [OF D(5), of v u w] by simp
          from shortcuts_forD(4) [OF D(5) this] obtain z a b where "bedge g z v a" "fedge g z u b" "w = a + b"
            by blast
          with False show ?thesis
            by (intro exI [of _ z] exI [of _ b] exI [of _ a]) (simp add: dedge_simps)
        qed
        then show ?thesis
          using u(2) v(1) unfolding renamed_def by blast
      qed
    qed
    show "\<exists>d' \<le> d. walk (renamed f g' aside True) x y d'"
      if x: "x \<in> f ` R - f ` S" and y: "y \<in> f ` R - f ` S" and w: "walk (renamed f g aside True) x y d" for x y d
    proof -
      obtain u where u: "u \<in> R - S" "x = f u"
        using x by blast
      then obtain v where v: "v \<in> R" "y = f v" "walk (fedge g) u v d"
        using walk_renamed [OF n D(2) _ w] by blast
      with y have "v \<in> R - S"
        by blast
      with round_distances [OF r u(1) this, of d] v(3) obtain d' where "d' \<le> d" "walk (fedge g') u v d'"
        by blast
      with walk_image u(2) v(2) show ?thesis
        by blast
    qed
  qed
qed

interpretation lifted: shrinking "set_if (lifts deg R S g es g' f aside) (f ` R)" "set_if (lifts deg R S g es g' f aside) (f ` S)"
  "entries_if (lifts deg R S g es g' f aside) (renamed f g aside)" "entries_if (lifts deg R S g es g' f aside) (renamed f g' aside)"
proof (cases "lifts deg R S g es g' f aside")
  case True
  then have "entries_if (lifts deg R S g es g' f aside) E = E" for E
    by (simp add: fun_eq_iff entries_if_def)
  with shrinking_lifts [OF True] True show "shrinking (set_if (lifts deg R S g es g' f aside) (f ` R))
    (set_if (lifts deg R S g es g' f aside) (f ` S)) (entries_if (lifts deg R S g es g' f aside) (renamed f g aside))
    (entries_if (lifts deg R S g es g' f aside) (renamed f g' aside))"
    by (simp add: set_if_def)
next
  case False
  then show "shrinking (set_if (lifts deg R S g es g' f aside) (f ` R))
    (set_if (lifts deg R S g es g' f aside) (f ` S)) (entries_if (lifts deg R S g es g' f aside) (renamed f g aside))
    (entries_if (lifts deg R S g es g' f aside) (renamed f g' aside))"
    by unfold_locales (auto simp: set_if_def entries_if_def)
qed

lemma hierarchy_round:
  assumes L: "lifts deg R S g es g' f aside"
  shows "sound E0 (renamed f g aside) \<Longrightarrow> sound E0 (renamed f g' aside)"
    and "complete E0 (f ` R) (renamed f g aside) \<Longrightarrow> complete E0 (f ` (R - S)) (renamed f g' aside)"
proof -
  have e: "entries_if True E = E" for E
    by (simp add: fun_eq_iff entries_if_def)
  have "f ` R - f ` S = f ` (R - S)"
    using image_left [OF L] mirroredD(1) [of R g] round_resultD(2,4) [of deg R S g es g'] L by (auto simp: lifts_def)
  with lifted.sound_after [where deg = deg and R = R and S = S and g = g and es = es and g' = g' and f = f and aside = aside and ?E0.0 = E0]
    lifted.complete_after [where deg = deg and R = R and S = S and g = g and es = es and g' = g' and f = f and aside = aside and ?E0.0 = E0]
  show "sound E0 (renamed f g aside) \<Longrightarrow> sound E0 (renamed f g' aside)"
    and "complete E0 (f ` R) (renamed f g aside) \<Longrightarrow> complete E0 (f ` (R - S)) (renamed f g' aside)"
    using L by (simp_all add: e set_if_def)
qed

section \<open>What a round keeps of the graph\<close>

definition cg_base :: "contractor_graph \<Rightarrow> bool" where
  "cg_base g \<longleftrightarrow> dg_ok g \<and> (\<forall>v < dg_number_of_nodes g. \<forall>x \<in> set (dg_out g v). ee_target x \<noteq> v \<and> 0 < ce_distance (ee_data x))"

definition small :: "nat \<Rightarrow> contractor_graph \<Rightarrow> bool" where
  "small deg g \<longleftrightarrow> (\<forall>v < dg_number_of_nodes g. length (dg_out g v) \<le> deg
     \<and> (\<forall>x \<in> set (dg_out g v). ce_distance (ee_data x) \<le> weight_limit))"

lemma cg_ok_split: "cg_ok deg g \<longleftrightarrow> cg_base g \<and> small deg g"
  by (auto simp: cg_ok_def cg_base_def small_def)

lemma way_of_edge:
  assumes "e \<in> set es" and "ce_forward (ie_data e) \<or> ce_backward (ie_data e)"
  shows "(ie_source e, ie_target e, ce_distance (ie_data e), ce_forward (ie_data e)) \<in> ways es"
  using assms unfolding ways_def by (intro CollectI exI [of _ e] exI [of _ "ce_forward (ie_data e)"]) auto

lemma way_positive:
  assumes r: "round_result deg R S g es g'" and w: "(u, v, d, dir) \<in> ways es"
  shows "u \<noteq> v" and "0 < d"
proof -
  note D = round_resultD [OF r]
  have "p \<noteq> q \<and> 0 < d" if way: "(p, q, d, True) \<in> ways es" for p q
  proof -
    obtain x a b where "bedge g x p a" "fedge g x q b" "d = a + b"
      using shortcuts_forD(4) [OF D(5) way] by blast
    then show ?thesis
      using dedgeD(3) [OF D(1), of False x p a] dedgeD(3) [OF D(1), of True x q b] shortcuts_forD(3) [OF D(5) way]
      by (simp add: dedge_simps)
  qed
  from this [of u v] this [of v u] w shortcuts_forD(2) [OF D(5)] show "u \<noteq> v" "0 < d"
    by (cases dir; auto)+
qed

lemma round_entry:
  assumes r: "round_result deg R S g es g'" and v: "v < dg_number_of_nodes g" and x: "x \<in> set (dg_out g' v)"
  shows "x \<in> set (dg_out g v) \<or> (\<exists>e \<in> set es. ie_source e = v \<and> x = to_entry e)"
proof -
  obtain g1 where g1: "without_edges_to g R S S g1" "with_shortcuts g1 es g'"
    using r by (auto simp: round_result_def)
  note W = without_edges_toD [OF g1(1)]
  have "set (dg_out g1 v) \<subseteq> set (dg_out g v)"
  proof (cases "v \<in> R - S")
    case True
    then show ?thesis using W(4) by blast
  next
    case False
    then show ?thesis using W(3,6) [of v] v by fastforce
  qed
  with with_shortcutsD(5) [OF g1(2) _ x] v W(2) show ?thesis
    by auto
qed

lemma round_base:
  assumes r: "round_result deg R S g es g'"
  shows "cg_base g'"
  unfolding cg_base_def
proof (intro conjI allI impI ballI)
  note D = round_resultD [OF r]
  show "dg_ok g'"
    by (rule D(6))
  fix v x
  assume v: "v < dg_number_of_nodes g'" and x: "x \<in> set (dg_out g' v)"
  then have "v < dg_number_of_nodes g"
    using D(7) by simp
  from round_entry [OF r this x] have "ee_target x \<noteq> v \<and> 0 < ce_distance (ee_data x)"
  proof (elim disjE bexE conjE)
    assume "x \<in> set (dg_out g v)"
    with cg_okD(4,5) [OF D(1)] v D(7) show ?thesis
      by simp
  next
    fix e
    assume e: "e \<in> set es" "ie_source e = v" "x = to_entry e"
    from way_positive [OF r way_of_edge [OF e(1) shortcuts_forD(5) [OF D(5) e(1)]]] e(2,3) show ?thesis
      by (auto simp: to_entry_def)
  qed
  then show "ee_target x \<noteq> v" "0 < ce_distance (ee_data x)"
    by simp_all
qed

section \<open>The workers stay usable\<close>

lemma EvaluateNodePriority_worker:
  assumes cg: "cg_ok deg g" and sr: "search_room deg" and u: "u < dg_number_of_nodes g"
    and w: "worker_ok data0 (c + deg) data" and run: "EvaluateNodePriority fl g data depth u = Some (p, data')"
  shows "worker_ok data0 c data'" and "td_inserted_edges data' = td_inserted_edges data"
proof -
  have "worker_ok data0 (c + length (dg_out g u)) data"
    using w cg_okD(2) [OF cg u] unfolding worker_ok_def by (meson add_left_mono clears_left_le)
  from ContractNode_law [OF cg sr u this, of True ContractionStats] obtain d1 st where
    "ContractNode True g data u ContractionStats = Some (d1, st)" "worker_ok data0 c d1"
    "td_inserted_edges d1 = td_inserted_edges data"
    by auto
  with run show "worker_ok data0 c data'" "td_inserted_edges data' = td_inserted_edges data"
    by (auto simp: EvaluateNodePriority_def Let_def bind_eq_Some_conv)
qed

lemma evaluate_list_worker:
  assumes cg: "cg_ok deg g" and sr: "search_room deg" and "set us \<subseteq> {..<dg_number_of_nodes g}"
    and "worker_ok data0 (c + length us * deg) data"
    and "foldM (\<lambda>u (priorities, data). do {
       depth \<leftarrow> nth_opt node_data u;
       (priority, data) \<leftarrow> EvaluateNodePriority fl g data depth u;
       priorities \<leftarrow> upd_opt priorities u priority;
       Some (priorities, data)
     }) us (ps, data) = Some (ps', data')"
  shows "worker_ok data0 c data' \<and> td_inserted_edges data' = td_inserted_edges data"
  using assms(3-5)
proof (induction us arbitrary: ps data)
  case (Cons u us)
  obtain depth p d1 ps1 where run: "EvaluateNodePriority fl g data depth u = Some (p, d1)"
    and rest: "foldM (\<lambda>u (priorities, data). do {
       depth \<leftarrow> nth_opt node_data u;
       (priority, data) \<leftarrow> EvaluateNodePriority fl g data depth u;
       priorities \<leftarrow> upd_opt priorities u priority;
       Some (priorities, data)
     }) us (ps1, d1) = Some (ps', data')"
    using Cons.prems(3) by (auto simp: bind_eq_Some_conv)
  have "worker_ok data0 (c + length us * deg + deg) data" "u < dg_number_of_nodes g"
    using Cons.prems(1,2) by (simp_all add: ac_simps)
  from EvaluateNodePriority_worker [OF cg sr this(2,1) run] Cons.IH [OF _ _ rest] Cons.prems(1) show ?case
    by auto
qed simp

lemma neighbours_fold:
  assumes ok: "dg_ok g" and v: "v < dg_number_of_nodes g" and "set is \<subseteq> set (dg_range g v)"
    and "foldM (\<lambda>e (neighbours, node_data). do {
       u \<leftarrow> dg_GetTarget g e;
       (if u = v then Some (neighbours, node_data)
        else do {
          depth_node \<leftarrow> nth_opt node_data v;
          depth_u \<leftarrow> nth_opt node_data u;
          node_data \<leftarrow> upd_opt node_data u (max (depth_node + 1 :: int) depth_u);
          Some (neighbours @ [u], node_data)
        })
     }) is (ns, nd) = Some (ns', nd')"
  shows "\<exists>us. ns' = ns @ us \<and> length us \<le> length is \<and> set us \<subseteq> {..<dg_number_of_nodes g}"
  using assms(3,4)
proof (induction "is" arbitrary: ns nd)
  case (Cons i "is")
  have i: "i \<in> set (dg_range g v)"
    using Cons.prems(1) by simp
  let ?u = "ee_target (dg_edge_list g ! i)"
  have u: "dg_GetTarget g i = Some ?u" "?u < dg_number_of_nodes g"
    using dg_range(3) [OF ok v i] dg_range(4) [OF ok v i] dg_okD(3) [OF ok v] by auto
  show ?case
  proof (cases "?u = v")
    case True
    with Cons.IH [of ns nd] Cons.prems u(1) show ?thesis
      by (auto simp: le_SucI)
  next
    case False
    with Cons.prems u(1) obtain nd1 where "foldM (\<lambda>e (neighbours, node_data). do {
       u \<leftarrow> dg_GetTarget g e;
       (if u = v then Some (neighbours, node_data)
        else do {
          depth_node \<leftarrow> nth_opt node_data v;
          depth_u \<leftarrow> nth_opt node_data u;
          node_data \<leftarrow> upd_opt node_data u (max (depth_node + 1 :: int) depth_u);
          Some (neighbours @ [u], node_data)
        })
     }) is (ns @ [?u], nd1) = Some (ns', nd')"
      by (auto simp: bind_eq_Some_conv)
    with Cons.IH [of "ns @ [?u]" nd1] Cons.prems(1) obtain us where "ns' = (ns @ [?u]) @ us" "length us \<le> length is"
      "set us \<subseteq> {..<dg_number_of_nodes g}"
      by auto
    with u(2) show ?thesis
      by (intro exI [of _ "?u # us"]) simp
  qed
qed simp

lemma UpdateNodeNeighbours_worker:
  assumes cg: "cg_ok deg g" and sr: "search_room deg" and v: "v < dg_number_of_nodes g"
    and w: "worker_ok data0 (c + deg * deg) data" and run: "UpdateNodeNeighbours fl g v (ps, nd, data) = Some (ps', nd', data')"
  shows "worker_ok data0 c data'" and "td_inserted_edges data' = td_inserted_edges data"
proof -
  have ok: "dg_ok g"
    using cg_okD(1) [OF cg] .
  obtain ns ns' d1 where fold1: "foldM (\<lambda>e (neighbours, node_data). do {
       u \<leftarrow> dg_GetTarget g e;
       (if u = v then Some (neighbours, node_data)
        else do {
          depth_node \<leftarrow> nth_opt node_data v;
          depth_u \<leftarrow> nth_opt node_data u;
          node_data \<leftarrow> upd_opt node_data u (max (depth_node + 1) depth_u);
          Some (neighbours @ [u], node_data)
        })
     }) (dg_range g v) ([], nd) = Some (ns, nd')"
    and us: "ns' = remdups_adj (sort ns)" "d1 = data\<lparr>td_neighbours := ns'\<rparr>"
    and fold2: "foldM (\<lambda>u (priorities, data). do {
       depth \<leftarrow> nth_opt nd' u;
       (priority, data) \<leftarrow> EvaluateNodePriority fl g data depth u;
       priorities \<leftarrow> upd_opt priorities u priority;
       Some (priorities, data)
     }) ns' (ps, d1) = Some (ps', data')"
    using run dg_range(1) [OF ok v] unfolding UpdateNodeNeighbours_def
    by (auto simp: bind_eq_Some_conv Let_def)
  have n: "set ns \<subseteq> {..<dg_number_of_nodes g}" "length ns \<le> deg"
    using neighbours_fold [OF ok v subset_refl fold1] dg_range(6) [OF ok v] cg_okD(2) [OF cg v] by auto
  have "length ns' \<le> deg"
    using us(1) n(2) remdups_adj_length [of "sort ns"] by simp
  then have "length ns' * deg \<le> deg * deg"
    by (rule mult_le_mono1)
  then have "worker_ok data0 (c + length ns' * deg) d1"
    using w us(2) unfolding worker_ok_def by (auto elim!: clears_left_le)
  with evaluate_list_worker [OF cg sr _ this fold2] n(1) us show "worker_ok data0 c data'"
    "td_inserted_edges data' = td_inserted_edges data"
    by auto
qed

lemma update_all_worker:
  assumes cg: "cg_ok deg g" and sr: "search_room deg" and "set nodes \<subseteq> {..<dg_number_of_nodes g}"
    and "worker_ok data0 (c + length nodes * (deg * deg)) data"
    and "update_all fl g nodes (ps, nd, data) = Some (ps', nd', data')"
  shows "worker_ok data0 c data' \<and> td_inserted_edges data' = td_inserted_edges data"
  using assms(3-5)
proof (induction nodes arbitrary: ps nd data)
  case (Cons v nodes)
  obtain ps1 nd1 d1 where run: "UpdateNodeNeighbours fl g v (ps, nd, data) = Some (ps1, nd1, d1)"
    "update_all fl g nodes (ps1, nd1, d1) = Some (ps', nd', data')"
    using Cons.prems(3) unfolding update_all_def by (auto simp: bind_eq_Some_conv)
  have "worker_ok data0 (c + length nodes * (deg * deg) + deg * deg) data" "v < dg_number_of_nodes g"
    using Cons.prems(1,2) by (simp_all add: ac_simps)
  from UpdateNodeNeighbours_worker [OF cg sr this(2,1) run(1)] Cons.IH [OF _ _ run(2)] Cons.prems(1) show ?case
    by auto
qed (simp add: update_all_def)

section \<open>The invariant of the rounds\<close>

text \<open>The original number of a node, and the edges that were put aside when the nodes were renumbered.\<close>

definition name_of :: "'p contractor \<Rightarrow> NodeID \<Rightarrow> NodeID" where
  "name_of c v = (if ct_orig_node_id_from_new_node_id_map c = [] then v else ct_orig_node_id_from_new_node_id_map c ! v)"

definition put_aside :: "query_edge_data input_edge list \<Rightarrow> entries" where
  "put_aside es dir x y w \<longleftrightarrow> (\<exists>e \<in> set es. ie_source e = x \<and> ie_target e = y
     \<and> (if dir then qe_forward (ie_data e) else qe_backward (ie_data e)) \<and> qe_distance (ie_data e) = w)"

definition stored :: "'p contractor \<Rightarrow> entries" where
  "stored c = renamed (name_of c) (ct_contractor_graph c) (put_aside (ct_external_edge_list c))"

abbreviation graph_of :: "'p run_state \<Rightarrow> contractor_graph" where
  "graph_of s \<equiv> ct_contractor_graph (rs_contractor s)"

definition left :: "'p run_state \<Rightarrow> NodeID set" where
  "left s = rn_id ` set (rs_remaining_nodes s)"

definition run_inv :: "nat \<Rightarrow> (NodeID \<Rightarrow> NodeID \<Rightarrow> int \<Rightarrow> bool) \<Rightarrow> 'p run_state \<Rightarrow> bool" where
  "run_inv n E0 s \<longleftrightarrow> (let c = rs_contractor s; g = ct_contractor_graph c in
     cg_base g \<and> mirrored (left s) g \<and> distinct (map rn_id (rs_remaining_nodes s))
     \<and> names_ok (name_of c) g (put_aside (ct_external_edge_list c))
     \<and> sound E0 (stored c) \<and> complete E0 (name_of c ` left s) (stored c)
     \<and> cinv (td_hash (rs_thread s)) (td_heap (rs_thread s)) \<and> td_inserted_edges (rs_thread s) = []
     \<and> (\<not> rs_flushed_contractor s \<longrightarrow> ct_orig_node_id_from_new_node_id_map c = [] \<and> ct_external_edge_list c = []
          \<and> dg_number_of_nodes g = n))"

text \<open>
  The limits of a state: degrees and weights, positions of edges, the counter of the hash
  table; and priorities that can be compared.
\<close>

definition in_limits :: "nat \<Rightarrow> 'p float_ops \<Rightarrow> 'p run_state \<Rightarrow> bool" where
  "in_limits deg fl s \<longleftrightarrow> small deg (graph_of s) \<and> list_room deg (length (rs_remaining_nodes s)) (graph_of s)
     \<and> clears_left (td_heap (rs_thread s)) (length (rs_remaining_nodes s) * (deg + deg * deg))
     \<and> priorities_ok fl (graph_of s) (rs_node_priorities s)
     \<and> (\<forall>a \<in> left s. \<forall>b \<in> left s. comparable fl (rs_node_priorities s ! a) (rs_node_priorities s ! b))"

lemma list_room_le:
  assumes "list_room deg n g" and "m \<le> n"
  shows "list_room deg m g"
proof -
  let ?k = "\<lambda>n. n * (deg * (2 * deg))"
  have "?k m \<le> ?k n"
    using assms(2) by (rule mult_le_mono1)
  then have "?k m * (2 * (deg + ?k m) + 2) \<le> ?k n * (2 * (deg + ?k n) + 2)"
    by (intro mult_le_mono add_le_mono le_refl assms(2))
  with assms(1) show ?thesis
    unfolding list_room_def Let_def by linarith
qed

lemma degrees_le:
  assumes "small deg g" and "set nodes \<subseteq> {..<dg_number_of_nodes g}"
  shows "(\<Sum>x \<leftarrow> nodes. length (dg_out g x)) \<le> length nodes * deg"
  using assms(2)
proof (induction nodes)
  case (Cons x nodes)
  with assms(1) have "length (dg_out g x) \<le> deg"
    by (simp add: small_def)
  with Cons show ?case
    by simp
qed simp

lemma run_round_steps:
  assumes "run_round fl psort fast_hash cached s = Some s'"
  obtains r d1 g' where
    "mark_independent fl fast_hash (graph_of s) (rs_node_priorities s) (rs_remaining_nodes s) = Some r"
    "contract_graph psort (map rn_id (filter rn_is_independent r)) (rs_thread s, graph_of s) = Some (d1, g')"
    "if cached then rs_thread s' = d1 else (\<exists>ps nd. update_all fl g' (map rn_id (filter rn_is_independent r))
       (rs_node_priorities s, rs_node_data s, d1) = Some (ps, nd, rs_thread s'))"
    "rs_remaining_nodes s' = filter (\<lambda>node. \<not> rn_is_independent node) r"
    "ct_contractor_graph (rs_contractor s') = g'"
    "ct_orig_node_id_from_new_node_id_map (rs_contractor s') = ct_orig_node_id_from_new_node_id_map (rs_contractor s)"
    "ct_external_edge_list (rs_contractor s') = ct_external_edge_list (rs_contractor s)"
    "rs_flushed_contractor s' = rs_flushed_contractor s"
    "rs_number_of_contracted_nodes s' = rs_number_of_contracted_nodes s + length (filter rn_is_independent r)"
    "cached \<Longrightarrow> rs_node_priorities s' = rs_node_priorities s"
proof -
  obtain r levels d1 g' ps nd d2 where
    r: "mark_independent fl fast_hash (graph_of s) (rs_node_priorities s) (rs_remaining_nodes s) = Some r"
    and c: "contract_graph psort (map rn_id (filter rn_is_independent r)) (rs_thread s, graph_of s) = Some (d1, g')"
    and u: "(if \<not> cached then update_all fl g' (map rn_id (filter rn_is_independent r)) (rs_node_priorities s, rs_node_data s, d1)
       else Some (rs_node_priorities s, rs_node_data s, d1)) = Some (ps, nd, d2)"
    and s': "s' = s\<lparr>rs_contractor := (rs_contractor s)\<lparr>ct_contractor_graph := g', ct_node_levels := levels\<rparr>, rs_thread := d2,
       rs_remaining_nodes := filter (\<lambda>node. \<not> rn_is_independent node) r, rs_node_data := nd, rs_node_priorities := ps,
       rs_number_of_contracted_nodes := rs_number_of_contracted_nodes s + length (map rn_id (filter rn_is_independent r)),
       rs_current_level := rs_current_level s + 1\<rparr>"
    using assms unfolding run_round_def Let_def
    by (auto simp: bind_eq_Some_conv simp del: length_map split: prod.splits)
  have "cached \<Longrightarrow> ps = rs_node_priorities s"
    using u by simp
  moreover have "if cached then d2 = d1 else (\<exists>ps nd. update_all fl g' (map rn_id (filter rn_is_independent r))
       (rs_node_priorities s, rs_node_data s, d1) = Some (ps, nd, d2))"
    using u by (auto split: if_splits)
  ultimately show thesis
    using that [OF r c] unfolding s' by simp
qed

lemma run_invD:
  assumes "run_inv n E0 s"
  shows "cg_base (graph_of s)" and "mirrored (left s) (graph_of s)" and "distinct (map rn_id (rs_remaining_nodes s))"
    and "names_ok (name_of (rs_contractor s)) (graph_of s) (put_aside (ct_external_edge_list (rs_contractor s)))"
    and "sound E0 (stored (rs_contractor s))"
    and "complete E0 (name_of (rs_contractor s) ` left s) (stored (rs_contractor s))"
    and "cinv (td_hash (rs_thread s)) (td_heap (rs_thread s))" and "td_inserted_edges (rs_thread s) = []"
    and "\<not> rs_flushed_contractor s \<Longrightarrow> ct_orig_node_id_from_new_node_id_map (rs_contractor s) = []"
    and "\<not> rs_flushed_contractor s \<Longrightarrow> ct_external_edge_list (rs_contractor s) = []"
    and "\<not> rs_flushed_contractor s \<Longrightarrow> dg_number_of_nodes (graph_of s) = n"
  using assms by (simp_all add: run_inv_def Let_def)

text \<open>The nodes that a round marks.\<close>

lemma run_round_marked:
  assumes inv: "run_inv n E0 s" and lim: "in_limits deg fl s"
    and mark: "mark_independent fl fast_hash (graph_of s) (rs_node_priorities s) (rs_remaining_nodes s) = Some r"
  shows "far_apart (graph_of s) (set (map rn_id (filter rn_is_independent r)))"
    and "set (map rn_id (filter rn_is_independent r)) \<subseteq> left s"
    and "rn_id ` set (filter (\<lambda>node. \<not> rn_is_independent node) r) = left s - set (map rn_id (filter rn_is_independent r))"
    and "map rn_id r = map rn_id (rs_remaining_nodes s)"
proof -
  note I = run_invD [OF inv]
  let ?P = "\<lambda>a. IsNodeIndependent fl fast_hash (graph_of s) (rs_node_priorities s) a = Some True"
  have ok: "dg_ok (graph_of s)" and p: "priorities_ok fl (graph_of s) (rs_node_priorities s)"
    using I(1) lim by (simp_all add: cg_base_def in_limits_def)
  have "\<forall>node \<in> set (rs_remaining_nodes s). rn_id node < dg_number_of_nodes (graph_of s)"
    using mirroredD(1) [OF I(2)] by (auto simp: left_def)
  from mark_independent_law [OF ok p this, of fast_hash] mark
  have r: "r = map (\<lambda>node. node\<lparr>rn_is_independent := ?P (rn_id node)\<rparr>) (rs_remaining_nodes s)"
    by simp
  have m: "set (map rn_id (filter rn_is_independent r)) = {a \<in> left s. ?P a}"
    unfolding r left_def by (rule marked_mark [unfolded marked_def])
  have "\<forall>u \<in> left s. u \<notin> nbrs (graph_of s) u"
    using I(1) mirroredD(1) [OF I(2)] by (auto simp: cg_base_def nbrs_def)
  then show "far_apart (graph_of s) (set (map rn_id (filter rn_is_independent r)))"
    unfolding m using lim by (intro independent_far_apart [OF ok p I(2)]) (auto simp: in_limits_def)
  show "set (map rn_id (filter rn_is_independent r)) \<subseteq> left s"
    unfolding m by blast
  show "rn_id ` set (filter (\<lambda>node. \<not> rn_is_independent node) r) = left s - set (map rn_id (filter rn_is_independent r))"
    unfolding m set_map [symmetric] unfolding r left_def by (auto simp: filter_map o_def)
  show "map rn_id r = map rn_id (rs_remaining_nodes s)"
    by (simp add: r o_def)
qed

lemma run_round_contracts:
  assumes inv: "run_inv n E0 s" and lim: "in_limits deg fl s" and sr: "search_room deg"
    and psort: "\<forall>es. mset (psort es) = mset es"
    and mark: "mark_independent fl fast_hash (graph_of s) (rs_node_priorities s) (rs_remaining_nodes s) = Some r"
    and cl: "clears_left (td_heap (rs_thread s)) (c + length (rs_remaining_nodes s) * (deg + deg * deg))"
  defines "nodes \<equiv> map rn_id (filter rn_is_independent r)"
  shows "\<exists>d1 g' es. contract_graph psort nodes (rs_thread s, graph_of s) = Some (d1, g')
    \<and> round_result deg (left s) (set nodes) (graph_of s) es g'
    \<and> worker_ok (rs_thread s) (c + length nodes * (deg * deg)) d1 \<and> td_inserted_edges d1 = []"
proof -
  note I = run_invD [OF inv] and M = run_round_marked [OF inv lim mark, folded nodes_def]
  have cg: "cg_ok deg (graph_of s)" and small: "small deg (graph_of s)"
    using I(1) lim by (simp_all add: cg_ok_split in_limits_def)
  have sub: "set nodes \<subseteq> {..<dg_number_of_nodes (graph_of s)}"
    using M(2) mirroredD(1) [OF I(2)] by auto
  have "length r = length (rs_remaining_nodes s)"
    using arg_cong [OF M(4), of length] by simp
  then have len: "length nodes \<le> length (rs_remaining_nodes s)"
    using length_filter_le [of rn_is_independent r] by (simp add: nodes_def)
  have "c + length nodes * (deg * deg) + (\<Sum>x \<leftarrow> nodes. length (dg_out (graph_of s) x))
      \<le> c + (length nodes * deg + length nodes * (deg * deg))"
    using degrees_le [OF small sub] by simp
  also have "\<dots> = c + length nodes * (deg + deg * deg)"
    by (simp only: distrib_left)
  also have "\<dots> \<le> c + length (rs_remaining_nodes s) * (deg + deg * deg)"
    using len by (intro add_left_mono mult_le_mono1)
  finally have "worker_ok (rs_thread s) (c + length nodes * (deg * deg) + (\<Sum>x \<leftarrow> nodes. length (dg_out (graph_of s) x))) (rs_thread s)"
    unfolding worker_ok_def using clears_left_le [OF cl] I(7) by blast
  moreover have "list_room deg (length nodes) (graph_of s)"
    using lim len list_room_le unfolding in_limits_def by blast
  ultimately show ?thesis
    using contract_graph_law [OF cg sr I(2) M(1,2) psort _ I(8)] by blast
qed

lemma run_round_inv:
  assumes inv: "run_inv n E0 s" and lim: "in_limits deg fl s" and sr: "search_room deg"
    and psort: "\<forall>es. mset (psort es) = mset es" and run: "run_round fl psort fast_hash cached s = Some s'"
    and after: "cached \<or> small deg (graph_of s')"
  shows "run_inv n E0 s'"
proof -
  note I = run_invD [OF inv]
  obtain r d1 g' where step:
    "mark_independent fl fast_hash (graph_of s) (rs_node_priorities s) (rs_remaining_nodes s) = Some r"
    "contract_graph psort (map rn_id (filter rn_is_independent r)) (rs_thread s, graph_of s) = Some (d1, g')"
    "if cached then rs_thread s' = d1 else (\<exists>ps nd. update_all fl g' (map rn_id (filter rn_is_independent r))
       (rs_node_priorities s, rs_node_data s, d1) = Some (ps, nd, rs_thread s'))"
    "rs_remaining_nodes s' = filter (\<lambda>node. \<not> rn_is_independent node) r" "graph_of s' = g'"
    "ct_orig_node_id_from_new_node_id_map (rs_contractor s') = ct_orig_node_id_from_new_node_id_map (rs_contractor s)"
    "ct_external_edge_list (rs_contractor s') = ct_external_edge_list (rs_contractor s)"
    "rs_flushed_contractor s' = rs_flushed_contractor s"
    by (rule run_round_steps [OF run]) (rule that; assumption)
  let ?nodes = "map rn_id (filter rn_is_independent r)"
  note M = run_round_marked [OF inv lim step(1)]
  have cl: "clears_left (td_heap (rs_thread s)) (0 + length (rs_remaining_nodes s) * (deg + deg * deg))"
    using lim by (simp add: in_limits_def)
  obtain es where rr: "round_result deg (left s) (set ?nodes) (graph_of s) es g'"
    and d1: "worker_ok (rs_thread s) (0 + length ?nodes * (deg * deg)) d1" "td_inserted_edges d1 = []"
    using run_round_contracts [OF inv lim sr psort step(1) cl] step(2) by auto
  have sub: "set ?nodes \<subseteq> {..<dg_number_of_nodes (graph_of s)}"
    using M(2) mirroredD(1) [OF I(2)] by auto
  have thread: "cinv (td_hash (rs_thread s')) (td_heap (rs_thread s')) \<and> td_inserted_edges (rs_thread s') = []"
  proof (cases cached)
    case True
    with step(3) d1 show ?thesis
      by (simp add: worker_ok_def)
  next
    case False
    with step(3) obtain ps nd where
      u: "update_all fl g' ?nodes (rs_node_priorities s, rs_node_data s, d1) = Some (ps, nd, rs_thread s')"
      by auto
    have "cg_ok deg g'"
      using False after round_base [OF rr] step(5) by (simp add: cg_ok_split)
    from update_all_worker [OF this sr _ d1(1) u] sub round_resultD(7) [OF rr] d1(2) show ?thesis
      by (simp add: worker_ok_def)
  qed
  have name: "name_of (rs_contractor s') = name_of (rs_contractor s)"
    by (simp add: fun_eq_iff name_of_def step(6))
  have stored: "stored (rs_contractor s') = renamed (name_of (rs_contractor s)) g' (put_aside (ct_external_edge_list (rs_contractor s)))"
    by (simp add: stored_def name step(5,7))
  have left: "left s' = left s - set ?nodes"
    unfolding left_def [of s'] step(4) by (rule M(3))
  have L: "lifts deg (left s) (set ?nodes) (graph_of s) es g' (name_of (rs_contractor s))
      (put_aside (ct_external_edge_list (rs_contractor s)))"
    using rr I(4) by (simp add: lifts_def)
  have "distinct (map rn_id (rs_remaining_nodes s'))"
    unfolding step(4) using I(3) M(4) by (intro distinct_map_filter) simp
  moreover have "sound E0 (stored (rs_contractor s'))"
    unfolding stored by (rule hierarchy_round(1) [OF L I(5) [unfolded stored_def]])
  moreover have "complete E0 (name_of (rs_contractor s') ` left s') (stored (rs_contractor s'))"
    unfolding stored name left by (rule hierarchy_round(2) [OF L I(6) [unfolded stored_def]])
  ultimately show ?thesis
    using round_base [OF rr] round_mirrored [OF rr] names_ok_round [OF L] thread I(9-11) round_resultD(7) [OF rr]
    unfolding run_inv_def Let_def step(5-8) name left by auto
qed

end
