(* ===== verification/Contractor_Flush.thy ===== *)
theory Contractor_Flush
  imports Contraction_Hierarchy
begin

text \<open>
  The flush of \<^verbatim>\<open>Contractor::Run\<close>: the remaining nodes get new numbers, their edges
  move to a smaller graph, and the edges of the contracted nodes are put aside. Under their
  original numbers the stored edges are the same as before.
\<close>

section \<open>New numbers\<close>

definition numbered :: "NodeID list \<Rightarrow> NodeID list \<Rightarrow> nat \<Rightarrow> nat \<Rightarrow> bool" where
  "numbered ids new_map n i \<longleftrightarrow> length new_map = n \<and> (\<forall>j < i. new_map ! (ids ! j) = j)
     \<and> (\<forall>v < n. v \<notin> set (take i ids) \<longrightarrow> new_map ! v = UINT_MAX)"

lemma renumber_law:
  assumes dist: "distinct (map rn_id remaining)" and range: "\<forall>node \<in> set remaining. rn_id node < n" and small: "length remaining \<le> 2 ^ 31"
  defines "ids \<equiv> map rn_id remaining"
  shows "\<exists>new_map remaining'. foldM renumber_node [0..<length remaining]
      (replicate (length remaining) 0, replicate n UINT_MAX, remaining) = Some (ids, new_map, remaining')
    \<and> numbered ids new_map n (length ids) \<and> map rn_id remaining' = [0..<length remaining]"
proof -
  let ?m = "length remaining"
  let ?I = "\<lambda>i (om :: NodeID list, nm, rem :: remaining_node_data list). length om = ?m \<and> (\<forall>j < i. om ! j = ids ! j) \<and> numbered ids nm n i
    \<and> length rem = ?m \<and> (\<forall>j < ?m. rn_id (rem ! j) = (if j < i then j else ids ! j))"
  have len: "length ids = ?m"
    by (simp add: ids_def)
  have "\<exists>s. foldM renumber_node [0..<?m] (replicate ?m 0, replicate n UINT_MAX, remaining) = Some s \<and> ?I ?m s"
  proof (rule foldM_upt_invariant [where I = ?I])
    show "?I 0 (replicate ?m 0, replicate n UINT_MAX, remaining)"
      by (simp add: numbered_def ids_def)
  next
    fix i s
    assume i: "i < ?m" and I: "?I i s"
    obtain om nm rem where s: "s = (om, nm, rem)"
      by (rule prod_cases3)
    have J: "length om = ?m" "\<forall>j < i. om ! j = ids ! j" "numbered ids nm n i" "length rem = ?m"
      "\<forall>j < ?m. rn_id (rem ! j) = (if j < i then j else ids ! j)"
      using I by (simp_all add: s)
    have id: "rn_id (rem ! i) = ids ! i" "ids ! i < n"
      using J(5) i range by (auto simp: ids_def)
    have nm: "length nm = n"
      using J(3) by (simp add: numbered_def)
    have other: "ids ! i \<noteq> ids ! j" if "j < i" for j
      using nth_eq_iff_index_eq [OF dist, of i j] that i by (simp add: ids_def)
    let ?s = "(om[i := ids ! i], nm[ids ! i := i], rem[i := (rem ! i)\<lparr>rn_id := i\<rparr>])"
    have "i mod 2 ^ 31 = i"
      using i small by simp
    then have "renumber_node i s = Some ?s"
      using i J(1,4) id nm by (simp add: s renumber_node_def)
    moreover have "numbered ids (nm[ids ! i := i]) n (Suc i)"
      unfolding numbered_def
    proof (intro conjI allI impI)
      show "length (nm[ids ! i := i]) = n"
        using nm by simp
      show "nm[ids ! i := i] ! (ids ! j) = j" if "j < Suc i" for j
      proof (cases "j = i")
        case False
        with that have "j < i" by simp
        with other [OF this] J(3) show ?thesis
          by (simp add: numbered_def)
      qed (use id(2) nm in simp)
      show "nm[ids ! i := i] ! v = UINT_MAX" if "v < n" "v \<notin> set (take (Suc i) ids)" for v
        using that J(3) i len by (simp add: numbered_def take_Suc_conv_app_nth)
    qed
    then have "?I (Suc i) ?s"
      using J(1,2,4,5) i by (auto simp: nth_list_update less_Suc_eq)
    ultimately show "\<exists>s'. renumber_node i s = Some s' \<and> ?I (Suc i) s'"
      by blast
  qed simp
  then obtain om nm rem where fold: "foldM renumber_node [0..<?m] (replicate ?m 0, replicate n UINT_MAX, remaining) = Some (om, nm, rem)"
    and I: "length om = ?m" "\<forall>j < ?m. om ! j = ids ! j" "numbered ids nm n ?m" "length rem = ?m" "\<forall>j < ?m. rn_id (rem ! j) = j"
    by auto
  have "om = ids" "map rn_id rem = [0..<?m]"
    using I by (auto simp: len intro: nth_equalityI)
  with fold I show ?thesis
    by (simp add: len)
qed

lemma numberedD:
  assumes "numbered ids new_map n (length ids)"
  shows "length new_map = n" and "j < length ids \<Longrightarrow> new_map ! (ids ! j) = j"
    and "v < n \<Longrightarrow> v \<notin> set ids \<Longrightarrow> new_map ! v = UINT_MAX"
  using assms by (simp_all add: numbered_def)

section \<open>Moving the edges\<close>

text \<open>The edges of a node that are put aside, and those that go to the new graph.\<close>

definition aside_edge :: "NodeID \<Rightarrow> contractor_edge_data edge_entry \<Rightarrow> query_edge_data input_edge" where
  "aside_edge v x = \<lparr>ie_source = v, ie_target = ee_target x, ie_data = QueryEdge_EdgeData (ee_data x)\<rparr>"

definition moved_edge :: "NodeID list \<Rightarrow> NodeID \<Rightarrow> contractor_edge_data edge_entry \<Rightarrow> contractor_edge" where
  "moved_edge new_map v x = \<lparr>ie_source = new_map ! v, ie_target = new_map ! ee_target x,
     ie_data = (ee_data x)\<lparr>ce_is_original_via_node_ID := True\<rparr>\<rparr>"

lemma flush_range:
  assumes ok: "dg_ok g" and v: "v < dg_number_of_nodes g" and len: "length new_map = dg_number_of_nodes g"
    and targets: "new_map ! v \<noteq> UINT_MAX \<Longrightarrow> \<forall>x \<in> set (dg_out g v). new_map ! ee_target x \<noteq> UINT_MAX"
    and "set is \<subseteq> set (dg_range g v)"
  shows "foldM (flush_edge g new_map v) is (es, fs) =
    (let xs = map ((!) (dg_edge_list g)) is in
     if new_map ! v = UINT_MAX then Some (es @ map (aside_edge v) xs, fs) else Some (es, fs @ map (moved_edge new_map v) xs))"
  using assms(5)
proof (induction "is" arbitrary: es fs)
  case (Cons i "is")
  have i: "i \<in> set (dg_range g v)"
    using Cons.prems by simp
  note R = dg_range(2-4) [OF ok v i]
  have "ee_target (dg_edge_list g ! i) < dg_number_of_nodes g"
    using dg_okD(3) [OF ok v] R(3) by blast
  moreover have "UINT_MAX \<noteq> new_map ! ee_target (dg_edge_list g ! i)" if "new_map ! v \<noteq> UINT_MAX"
    using targets [OF that] R(3) by metis
  ultimately have "flush_edge g new_map v i (es, fs) =
      (if new_map ! v = UINT_MAX then Some (es @ [aside_edge v (dg_edge_list g ! i)], fs)
       else Some (es, fs @ [moved_edge new_map v (dg_edge_list g ! i)]))"
    using R(1,2) len v by (auto simp: flush_edge_def aside_edge_def moved_edge_def SPECIAL_NODEID_def)
  with Cons show ?case
    by (simp add: Let_def)
qed simp

lemma flush_all:
  assumes ok: "dg_ok g" and len: "length new_map = dg_number_of_nodes g"
    and targets: "\<forall>v < dg_number_of_nodes g. new_map ! v \<noteq> UINT_MAX \<longrightarrow> (\<forall>x \<in> set (dg_out g v). new_map ! ee_target x \<noteq> UINT_MAX)"
  defines "step \<equiv> \<lambda>source lists. do {
       edges \<leftarrow> dg_GetAdjacentEdgeRange g source;
       foldM (flush_edge g new_map source) edges lists
     }"
  shows "\<exists>es fs. foldM step [0..<dg_number_of_nodes g] ([], []) = Some (es, fs)
    \<and> set es = {aside_edge v x | v x. v < dg_number_of_nodes g \<and> new_map ! v = UINT_MAX \<and> x \<in> set (dg_out g v)}
    \<and> set fs = {moved_edge new_map v x | v x. v < dg_number_of_nodes g \<and> new_map ! v \<noteq> UINT_MAX \<and> x \<in> set (dg_out g v)}"
proof -
  let ?I = "\<lambda>i (es, fs). set es = {aside_edge v x | v x. v < i \<and> new_map ! v = UINT_MAX \<and> x \<in> set (dg_out g v)}
    \<and> set fs = {moved_edge new_map v x | v x. v < i \<and> new_map ! v \<noteq> UINT_MAX \<and> x \<in> set (dg_out g v)}"
  have "\<exists>s. foldM step [0..<dg_number_of_nodes g] ([], []) = Some s \<and> ?I (dg_number_of_nodes g) s"
  proof (rule foldM_upt_invariant [where I = ?I])
    fix v s
    assume v: "v < dg_number_of_nodes g" and I: "?I v s"
    obtain es fs where s: "s = (es, fs)"
      by (rule prod.exhaust)
    let ?xs = "dg_out g v"
    let ?s = "if new_map ! v = UINT_MAX then (es @ map (aside_edge v) ?xs, fs) else (es, fs @ map (moved_edge new_map v) ?xs)"
    have "step v s = Some ?s"
      using flush_range [OF ok v len _ subset_refl, of es fs] targets v dg_range(1,5) [OF ok v]
      by (simp add: step_def s Let_def)
    moreover have "?I (Suc v) ?s"
      using I by (auto simp: s less_Suc_eq)
    ultimately show "\<exists>s'. step v s = Some s' \<and> ?I (Suc v) s'"
      by (intro exI conjI)
  qed simp_all
  then show ?thesis
    by auto
qed

section \<open>The new graph\<close>

text \<open>The distances fit into the 30 bits of the edges of the query graph.\<close>

definition narrow :: "contractor_graph \<Rightarrow> bool" where
  "narrow g \<longleftrightarrow> (\<forall>v < dg_number_of_nodes g. \<forall>x \<in> set (dg_out g v). ce_distance (ee_data x) < 2 ^ 29)"

definition moved_entry :: "NodeID list \<Rightarrow> contractor_edge_data edge_entry \<Rightarrow> contractor_edge_data edge_entry" where
  "moved_entry new_map x = \<lparr>ee_target = new_map ! ee_target x, ee_data = (ee_data x)\<lparr>ce_is_original_via_node_ID := True\<rparr>\<rparr>"

lemma to_entry_moved: "to_entry (moved_edge new_map v x) = moved_entry new_map x"
  by (simp add: to_entry_def moved_edge_def moved_entry_def)

text \<open>The graph \<open>g'\<close> on the remaining nodes \<open>ids\<close>, under their new numbers.\<close>

definition moved_graph :: "contractor_graph \<Rightarrow> NodeID list \<Rightarrow> NodeID list \<Rightarrow> contractor_graph \<Rightarrow> bool" where
  "moved_graph g ids new_map g' \<longleftrightarrow> dg_ok g' \<and> dg_number_of_nodes g' = length ids
     \<and> (\<forall>i < length ids. set (dg_out g' i) = moved_entry new_map ` set (dg_out g (ids ! i)))"

lemma numbered_marks:
  assumes num: "numbered ids new_map n (length ids)" and "length ids \<le> 2 ^ 31" and "v < n"
  shows "new_map ! v = UINT_MAX \<longleftrightarrow> v \<notin> set ids"
proof
  assume "new_map ! v = UINT_MAX"
  then show "v \<notin> set ids"
    using numberedD(2) [OF num] assms(2) by (auto simp: in_set_conv_nth UINT_MAX_def)
qed (use numberedD(3) [OF num] assms(3) in blast)

lemma moved_graph_law:
  assumes ok: "dg_ok g" and num: "numbered ids new_map (dg_number_of_nodes g) (length ids)" and len: "length ids \<le> 2 ^ 31"
    and ids: "set ids \<subseteq> {..<dg_number_of_nodes g}"
    and closed: "\<forall>v \<in> set ids. \<forall>x \<in> set (dg_out g v). ee_target x \<in> set ids" and psort: "sorts psort"
    and fs: "set fs = {moved_edge new_map v x | v x. v < dg_number_of_nodes g \<and> new_map ! v \<noteq> UINT_MAX \<and> x \<in> set (dg_out g v)}"
    and run: "DynamicGraph contractor_entry (length ids) (psort fs) = Some g'"
  shows "moved_graph g ids new_map g'"
proof -
  note mark = numbered_marks [OF num len] and N = numberedD(2) [OF num]
  have fs': "set fs = {moved_edge new_map v x | v x. v \<in> set ids \<and> x \<in> set (dg_out g v)}"
    unfolding fs using mark ids by blast
  have source: "ie_source (moved_edge new_map v x) = new_map ! v" for v x
    by (simp add: moved_edge_def)
  have number: "new_map ! v < length ids" if "v \<in> set ids" for v
    using that N by (auto simp: in_set_conv_nth)
  have same: "v = ids ! i" if "v \<in> set ids" "new_map ! v = i" for v i
    using that N by (auto simp: in_set_conv_nth)
  have srt: "is_sorted dg_input_edge_less (psort fs)" "set (psort fs) = set fs"
    using psort sortsD(1) [OF psort] by (simp_all add: sorts_def)
  have range: "\<forall>e \<in> set (psort fs). ie_source e < length ids \<and> ie_target e < length ids"
    unfolding srt(2) fs' using number closed by (auto simp: moved_edge_def)
  have "length ids \<le> UINT_MAX"
    using len by (simp add: UINT_MAX_def)
  from DynamicGraph_law [OF srt(1) this range, of contractor_entry] run have g': "dg_ok g'" "dg_number_of_nodes g' = length ids"
    "\<forall>i < length ids. dg_out g' i = map to_entry (filter (\<lambda>e. ie_source e = i) (psort fs))"
    by auto
  have "set (dg_out g' i) = moved_entry new_map ` set (dg_out g (ids ! i))" if i: "i < length ids" for i
  proof -
    have "set (dg_out g' i) = to_entry ` {e \<in> set fs. ie_source e = i}"
      using g'(3) i srt(2) by simp
    also have "{e \<in> set fs. ie_source e = i} = {moved_edge new_map v x | v x. v \<in> set ids \<and> x \<in> set (dg_out g v) \<and> new_map ! v = i}"
      unfolding fs' by (auto simp: source) blast
    also have "\<dots> = {moved_edge new_map (ids ! i) x | x. x \<in> set (dg_out g (ids ! i))}"
      using i N same by (metis (no_types, opaque_lifting) nth_mem)
    also have "to_entry ` \<dots> = moved_entry new_map ` set (dg_out g (ids ! i))"
      by (auto simp: to_entry_moved image_iff) (metis to_entry_moved)
    finally show ?thesis .
  qed
  with g'(1,2) show ?thesis
    by (simp add: moved_graph_def)
qed

lemma moved_dedge:
  assumes M: "moved_graph g ids new_map g'" and num: "numbered ids new_map (dg_number_of_nodes g) (length ids)"
    and ids: "set ids \<subseteq> {..<dg_number_of_nodes g}"
    and closed: "\<forall>v \<in> set ids. \<forall>x \<in> set (dg_out g v). ee_target x \<in> set ids"
  shows "dedge g' dir i k w \<longleftrightarrow> i < length ids \<and> k < length ids \<and> dedge g dir (ids ! i) (ids ! k) w"
proof (cases "i < length ids")
  case True
  then have n: "ids ! i \<in> set ids" "ids ! i < dg_number_of_nodes g"
    using ids nth_mem [OF True] by blast+
  have target: "new_map ! ee_target x = k \<longleftrightarrow> k < length ids \<and> ee_target x = ids ! k" if "x \<in> set (dg_out g (ids ! i))" for x
  proof -
    have "ee_target x \<in> set ids"
      using closed n(1) that by blast
    then obtain j where "j < length ids" "ee_target x = ids ! j"
      by (auto simp: in_set_conv_nth)
    with numberedD(2) [OF num] show ?thesis
      by metis
  qed
  have "dedge g' dir i k w \<longleftrightarrow> (\<exists>x \<in> set (dg_out g (ids ! i)). new_map ! ee_target x = k
     \<and> (if dir then ce_forward (ee_data x) else ce_backward (ee_data x)) \<and> ce_distance (ee_data x) = w)"
    using M True by (simp add: moved_graph_def dedge_def moved_entry_def)
  also have "\<dots> \<longleftrightarrow> k < length ids \<and> dedge g dir (ids ! i) (ids ! k) w"
    using target n(2) by (auto simp: dedge_def)
  finally show ?thesis
    using True by simp
next
  case False
  with M show ?thesis
    by (simp add: moved_graph_def dedge_def)
qed

lemma aside_dedge:
  assumes base: "cg_base g" and nar: "narrow g"
    and es: "set es = {aside_edge v x | v x. v < dg_number_of_nodes g \<and> v \<notin> A \<and> x \<in> set (dg_out g v)}"
  shows "put_aside es dir x y w \<longleftrightarrow> x \<notin> A \<and> dedge g dir x y w"
proof -
  have d: "signed_take_bit 29 (ce_distance (ee_data e)) = ce_distance (ee_data e)"
    if "v < dg_number_of_nodes g" "e \<in> set (dg_out g v)" for v e
  proof -
    have "0 < ce_distance (ee_data e)" "ce_distance (ee_data e) < 2 ^ 29"
      using that base nar by (auto simp: cg_base_def narrow_def)
    then show ?thesis
      by (intro signed_take_bit_int_eq_self) linarith+
  qed
  let ?flag = "\<lambda>e. if dir then qe_forward (ie_data e) else qe_backward (ie_data e)"
  have "put_aside es dir x y w \<longleftrightarrow> (\<exists>v e. v < dg_number_of_nodes g \<and> v \<notin> A \<and> e \<in> set (dg_out g v) \<and> ie_source (aside_edge v e) = x
      \<and> ie_target (aside_edge v e) = y \<and> ?flag (aside_edge v e) \<and> qe_distance (ie_data (aside_edge v e)) = w)"
    unfolding put_aside_def es by blast
  also have "\<dots> \<longleftrightarrow> (\<exists>v e. v < dg_number_of_nodes g \<and> v \<notin> A \<and> e \<in> set (dg_out g v) \<and> v = x \<and> ee_target e = y
      \<and> (if dir then ce_forward (ee_data e) else ce_backward (ee_data e)) \<and> signed_take_bit 29 (ce_distance (ee_data e)) = w)"
    by (simp add: aside_edge_def QueryEdge_EdgeData_def)
  also have "\<dots> \<longleftrightarrow> x \<notin> A \<and> dedge g dir x y w"
    using d by (auto simp: dedge_def)
  finally show ?thesis .
qed

text \<open>Under the original numbers nothing changes.\<close>

lemma moved_stored:
  assumes M: "moved_graph g ids new_map g'" and num: "numbered ids new_map (dg_number_of_nodes g) (length ids)"
    and ids: "set ids \<subseteq> {..<dg_number_of_nodes g}"
    and closed: "\<forall>v \<in> set ids. \<forall>x \<in> set (dg_out g v). ee_target x \<in> set ids"
    and base: "cg_base g" and nar: "narrow g"
    and es: "set es = {aside_edge v x | v x. v < dg_number_of_nodes g \<and> v \<notin> set ids \<and> x \<in> set (dg_out g v)}"
    and f: "\<forall>i < length ids. f i = ids ! i"
  shows "renamed f g' (put_aside es) = dedge g"
proof (intro ext)
  fix dir x y w
  have "renamed f g' (put_aside es) dir x y w \<longleftrightarrow>
      (\<exists>i k. x = f i \<and> y = f k \<and> i < length ids \<and> k < length ids \<and> dedge g dir (ids ! i) (ids ! k) w)
      \<or> x \<notin> set ids \<and> dedge g dir x y w"
    unfolding renamed_def aside_dedge [OF base nar es] moved_dedge [OF M num ids closed] by blast
  also have "\<dots> \<longleftrightarrow> x \<in> set ids \<and> y \<in> set ids \<and> dedge g dir x y w \<or> x \<notin> set ids \<and> dedge g dir x y w"
    using f by (auto simp: in_set_conv_nth)
  also have "\<dots> \<longleftrightarrow> dedge g dir x y w"
    using closed by (auto simp: dedge_def)
  finally show "renamed f g' (put_aside es) dir x y w \<longleftrightarrow> dedge g dir x y w" .
qed

section \<open>The invariant\<close>

lemma run_flush_steps:
  assumes "run_flush psort fh n s = Some s'" and "ct_orig_node_id_from_new_node_id_map (rs_contractor s) = []"
    and "ct_external_edge_list (rs_contractor s) = []"
  obtains om new_map remaining' es fs g' where
    "foldM renumber_node [0..<length (rs_remaining_nodes s)] (replicate (length (rs_remaining_nodes s)) 0,
       replicate n UINT_MAX, rs_remaining_nodes s) = Some (om, new_map, remaining')"
    "foldM (\<lambda>source lists. do {
       edges \<leftarrow> dg_GetAdjacentEdgeRange (graph_of s) source;
       foldM (flush_edge (graph_of s) new_map source) edges lists
     }) [0..<dg_number_of_nodes (graph_of s)] ([], []) = Some (es, fs)"
    "DynamicGraph contractor_entry (length (rs_remaining_nodes s)) (psort fs) = Some g'"
    "graph_of s' = g'" "ct_external_edge_list (rs_contractor s') = es"
    "ct_orig_node_id_from_new_node_id_map (rs_contractor s') = om" "rs_remaining_nodes s' = remaining'"
    "rs_thread s' = ContractorThreadData fh (dg_number_of_nodes g')" "rs_flushed_contractor s'"
    "rs_number_of_contracted_nodes s' = rs_number_of_contracted_nodes s"
    "rs_node_data s' = rs_node_data s"
  using assms unfolding run_flush_def Let_def
  by (auto simp: bind_eq_Some_conv)

lemma moved_base:
  assumes M: "moved_graph g ids new_map g'" and num: "numbered ids new_map (dg_number_of_nodes g) (length ids)"
    and ids: "set ids \<subseteq> {..<dg_number_of_nodes g}" and base: "cg_base g"
    and closed: "\<forall>v \<in> set ids. \<forall>x \<in> set (dg_out g v). ee_target x \<in> set ids"
  shows "cg_base g'"
  unfolding cg_base_def
proof (intro conjI allI impI ballI)
  show "dg_ok g'"
    using M by (simp add: moved_graph_def)
  fix i y
  assume i: "i < dg_number_of_nodes g'" and y: "y \<in> set (dg_out g' i)"
  have il: "i < length ids"
    using i M by (simp add: moved_graph_def)
  then obtain x where x: "x \<in> set (dg_out g (ids ! i))" "y = moved_entry new_map x"
    using y M by (auto simp: moved_graph_def)
  have v: "ids ! i \<in> set ids" "ids ! i < dg_number_of_nodes g"
    using nth_mem [OF il] ids by blast+
  have "ee_target x \<in> set ids"
    using closed v(1) x(1) by blast
  then obtain j where j: "j < length ids" "ee_target x = ids ! j"
    by (auto simp: in_set_conv_nth)
  have "ee_target x \<noteq> ids ! i" "0 < ce_distance (ee_data x)"
    using base v(2) x(1) by (auto simp: cg_base_def)
  with j numberedD(2) [OF num j(1)] x(2) show "ee_target y \<noteq> i" "0 < ce_distance (ee_data y)"
    by (auto simp: moved_entry_def)
qed

lemma moved_mirrored:
  assumes M: "moved_graph g ids new_map g'" and num: "numbered ids new_map (dg_number_of_nodes g) (length ids)"
    and ids: "set ids \<subseteq> {..<dg_number_of_nodes g}" and mir: "mirrored (set ids) g"
  shows "mirrored {..<length ids} g'"
proof -
  have closed: "\<forall>v \<in> set ids. \<forall>x \<in> set (dg_out g v). ee_target x \<in> set ids"
    using mirroredD(2) [OF mir] by blast
  note D = moved_dedge [OF M num ids closed]
  show ?thesis
    unfolding mirrored_def
  proof (intro conjI ballI allI impI)
    show "{..<length ids} \<subseteq> {..<dg_number_of_nodes g'}"
      using M by (simp add: moved_graph_def)
    show "\<exists>w' \<le> w. bedge g' k i w'" if "i \<in> {..<length ids}" "fedge g' i k w" for i k w
      using that(2) mirroredD(4) [OF mir, of "ids ! i" "ids ! k" w] nth_mem [of i ids] D [of True i k w] D [of False k i]
      by (auto simp: dedge_simps)
    show "\<exists>w' \<le> w. fedge g' k i w'" if "i \<in> {..<length ids}" "bedge g' i k w" for i k w
      using that(2) mirroredD(5) [OF mir, of "ids ! i" "ids ! k" w] nth_mem [of i ids] D [of False i k w] D [of True k i]
      by (auto simp: dedge_simps)
    fix i y
    assume i: "i \<in> {..<length ids}" and y: "y \<in> set (dg_out g' i)"
    then obtain x where x: "x \<in> set (dg_out g (ids ! i))" "y = moved_entry new_map x"
      using M by (auto simp: moved_graph_def)
    have v: "ids ! i \<in> set ids"
      using i by simp
    then obtain j where "j < length ids" "ee_target x = ids ! j"
      using closed x(1) by (metis in_set_conv_nth)
    with numberedD(2) [OF num] x(2) show "ee_target y \<in> {..<length ids}"
      by (simp add: moved_entry_def)
    show "ce_forward (ee_data y) \<or> ce_backward (ee_data y)"
      using mirroredD(3) [OF mir v x(1)] x(2) by (simp add: moved_entry_def)
  qed
qed

lemma run_flush_inv:
  assumes inv: "run_inv n E0 s" and unflushed: "\<not> rs_flushed_contractor s" and psort: "sorts psort" and n: "n \<le> 2 ^ 31"
    and nar: "narrow (graph_of s)" and run: "run_flush psort fh n s = Some s'"
  shows "run_inv n E0 s'" and "rs_flushed_contractor s'"
    and "rs_number_of_contracted_nodes s' = rs_number_of_contracted_nodes s"
proof -
  note I = run_invD [OF inv]
  note U = I(9-11) [OF unflushed]
  obtain om new_map remaining' es fs g' where step:
    "foldM renumber_node [0..<length (rs_remaining_nodes s)] (replicate (length (rs_remaining_nodes s)) 0,
       replicate n UINT_MAX, rs_remaining_nodes s) = Some (om, new_map, remaining')"
    "foldM (\<lambda>source lists. do {
       edges \<leftarrow> dg_GetAdjacentEdgeRange (graph_of s) source;
       foldM (flush_edge (graph_of s) new_map source) edges lists
     }) [0..<dg_number_of_nodes (graph_of s)] ([], []) = Some (es, fs)"
    "DynamicGraph contractor_entry (length (rs_remaining_nodes s)) (psort fs) = Some g'"
    "graph_of s' = g'" "ct_external_edge_list (rs_contractor s') = es"
    "ct_orig_node_id_from_new_node_id_map (rs_contractor s') = om" "rs_remaining_nodes s' = remaining'"
    "rs_thread s' = ContractorThreadData fh (dg_number_of_nodes g')" "rs_flushed_contractor s'"
    "rs_number_of_contracted_nodes s' = rs_number_of_contracted_nodes s"
    by (rule run_flush_steps [OF run U(1,2)]) (rule that; assumption)
  define ids where "ids = map rn_id (rs_remaining_nodes s)"
  let ?g = "graph_of s"
  have left: "left s = set ids"
    by (simp add: left_def ids_def)
  have ids: "set ids \<subseteq> {..<dg_number_of_nodes ?g}"
    using mirroredD(1) [OF I(2)] left by auto
  then have "length ids \<le> n"
    using card_mono [OF finite_lessThan ids] distinct_card [of ids] I(3) U(3) by (simp add: ids_def)
  then have len: "length ids \<le> 2 ^ 31"
    using n by simp
  have closed: "\<forall>v \<in> set ids. \<forall>x \<in> set (dg_out ?g v). ee_target x \<in> set ids"
    using mirroredD(2) [OF I(2)] left by blast
  have R: "om = ids" "numbered ids new_map n (length ids)" "map rn_id remaining' = [0..<length ids]"
    using renumber_law [OF I(3), of n] ids len U(3) step(1) unfolding ids_def by auto
  note num = R(2) [folded U(3)] and mark = numbered_marks [OF R(2) [folded U(3)] len]
  have ok: "dg_ok ?g"
    using I(1) by (simp add: cg_base_def)
  have "\<forall>v < dg_number_of_nodes ?g. new_map ! v \<noteq> UINT_MAX \<longrightarrow> (\<forall>x \<in> set (dg_out ?g v). new_map ! ee_target x \<noteq> UINT_MAX)"
    using mark closed ids by (metis lessThan_iff subset_eq)
  from flush_all [OF ok numberedD(1) [OF num] this] step(2)
  have lists: "set es = {aside_edge v x | v x. v < dg_number_of_nodes ?g \<and> new_map ! v = UINT_MAX \<and> x \<in> set (dg_out ?g v)}"
    "set fs = {moved_edge new_map v x | v x. v < dg_number_of_nodes ?g \<and> new_map ! v \<noteq> UINT_MAX \<and> x \<in> set (dg_out ?g v)}"
    by auto
  have es: "set es = {aside_edge v x | v x. v < dg_number_of_nodes ?g \<and> v \<notin> set ids \<and> x \<in> set (dg_out ?g v)}"
    unfolding lists(1) using mark by blast
  have "length ids = length (rs_remaining_nodes s)"
    by (simp add: ids_def)
  note M = moved_graph_law [OF ok num len ids closed psort lists(2) step(3) [folded this]]
  have nodes: "dg_number_of_nodes g' = length ids"
    using M by (simp add: moved_graph_def)
  have f: "\<forall>i < length ids. name_of (rs_contractor s') i = ids ! i"
    by (auto simp: name_of_def step(6) R(1))
  have left': "left s' = {..<length ids}"
    unfolding left_def step(7) set_map [symmetric] R(3) by auto
  have stored: "stored (rs_contractor s') = dedge ?g"
    unfolding stored_def step(4,5) by (rule moved_stored [OF M num ids closed I(1) nar es f])
  have old: "stored (rs_contractor s) = dedge ?g" "name_of (rs_contractor s) ` left s = left s"
    by (auto simp: stored_def renamed_def name_of_def put_aside_def U fun_eq_iff)
  have image: "name_of (rs_contractor s') ` {..<length ids} = set ids"
    using f by (auto simp: set_conv_nth image_iff)
  have "inj_on (name_of (rs_contractor s')) {..<length ids}"
    using f I(3) unfolding inj_on_def ids_def [symmetric] by (metis lessThan_iff nth_eq_iff_index_eq)
  moreover have "0 < w \<and> x \<notin> set ids" if "put_aside es dir x y w" for dir x y w
    using that I(1) unfolding aside_dedge [OF I(1) nar es] by (auto simp: cg_base_def dedge_def)
  ultimately have "names_ok (name_of (rs_contractor s')) g' (put_aside es)"
    unfolding names_ok_def nodes image by blast
  moreover have "cinv (td_hash (rs_thread s')) (td_heap (rs_thread s')) \<and> td_inserted_edges (rs_thread s') = []"
    using worker_new [of fh "dg_number_of_nodes g'"] unfolding step(8) by (simp add: worker_ok_def ContractorThreadData_def)
  moreover have "distinct (map rn_id (rs_remaining_nodes s'))"
    unfolding step(7) R(3) by simp
  ultimately show "run_inv n E0 s'"
    using moved_base [OF M num ids I(1) closed] moved_mirrored [OF M num ids I(2) [unfolded left]] I(5) I(6) [unfolded old, unfolded left] step(9)
    unfolding run_inv_def Let_def step(4,5) left' image stored old by simp
qed (use run run_flush_steps [OF run] run_invD(9,10) [OF inv unflushed] in blast)+

end
