(* ===== verification/Contractor_Loop.thy ===== *)
theory Contractor_Loop
  imports Contractor_Flush
begin

text \<open>
  \<^verbatim>\<open>Contractor::Run\<close> as a whole: runs whose states stay within the limits of the data
  types are the runs of the loop, and they turn the input edges into a contraction hierarchy.
\<close>

section \<open>Runs within limits\<close>

inductive runs ::
  "nat \<Rightarrow> 'p float_ops \<Rightarrow> (contractor_edge list \<Rightarrow> contractor_edge list) \<Rightarrow> xor_fast_hash \<Rightarrow> xor_fast_hash \<Rightarrow> bool
   \<Rightarrow> nat \<Rightarrow> nat \<Rightarrow> nat \<Rightarrow> 'p run_state \<Rightarrow> 'p run_state \<Rightarrow> bool"
  for deg fl psort fh fast_hash cached n core flush where
  runs_stop: "\<not> (n > 2 \<and> rs_number_of_contracted_nodes s < core) \<Longrightarrow>
    runs deg fl psort fh fast_hash cached n core flush s s"
| runs_round: "n > 2 \<Longrightarrow> rs_number_of_contracted_nodes s < core \<Longrightarrow>
    rs_flushed_contractor s \<or> rs_number_of_contracted_nodes s \<le> flush \<Longrightarrow> in_limits deg fl s \<Longrightarrow>
    run_round fl psort fast_hash cached s = Some s1 \<Longrightarrow> cached \<or> small deg (graph_of s1) \<Longrightarrow>
    runs deg fl psort fh fast_hash cached n core flush s1 s' \<Longrightarrow>
    runs deg fl psort fh fast_hash cached n core flush s s'"
| runs_flush: "n > 2 \<Longrightarrow> rs_number_of_contracted_nodes s < core \<Longrightarrow>
    \<not> rs_flushed_contractor s \<Longrightarrow> flush < rs_number_of_contracted_nodes s \<Longrightarrow> narrow (graph_of s) \<Longrightarrow>
    run_flush psort fh n s = Some s1 \<Longrightarrow>
    runs deg fl psort fh fast_hash cached n core flush s1 s' \<Longrightarrow>
    runs deg fl psort fh fast_hash cached n core flush s s'"

lemma run_flush_state:
  assumes "run_flush psort fh n s = Some s'"
  shows "rs_flushed_contractor s'" and "rs_number_of_contracted_nodes s' = rs_number_of_contracted_nodes s"
    and "rs_node_data s' = rs_node_data s"
  using assms unfolding run_flush_def Let_def by (auto simp: bind_eq_Some_conv)

lemma runs_loop:
  assumes "runs deg fl psort fh fast_hash cached n core flush s s'"
  shows "run_loop fl psort fh fast_hash cached n core flush s = Some s'"
  using assms
proof (induction rule: runs.induct)
  case (runs_stop s)
  then show ?case
    by (subst run_loop.simps) (rule if_not_P)
next
  case (runs_round s s1 s')
  then show ?case
    by (subst run_loop.simps) auto
next
  case (runs_flush s s1 s')
  note F = run_flush_state [OF runs_flush.hyps(6)]
  have "run_loop fl psort fh fast_hash cached n core flush s = run_loop fl psort fh fast_hash cached n core flush s1"
    using runs_flush.hyps(1-4,6) F by (subst (1 2) run_loop.simps) simp
  with runs_flush.IH show ?case by simp
qed

lemma runs_inv:
  assumes "runs deg fl psort fh fast_hash cached n core flush s s'" and "run_inv n E0 s" and "search_room deg" and "sorts psort"
    and "n \<le> 2 ^ 31"
  shows "run_inv n E0 s'"
  using assms(1,2)
proof (induction rule: runs.induct)
  case (runs_round s s1 s')
  have "\<forall>es. mset (psort es) = mset es"
    using assms(4) by (simp add: sorts_def)
  from run_round_inv [OF runs_round.prems runs_round.hyps(4) assms(3) this runs_round.hyps(5,6)] runs_round.IH
  show ?case by blast
next
  case (runs_flush s s1 s')
  from run_flush_inv(1) [OF runs_flush.prems runs_flush.hyps(3) assms(4,5) runs_flush.hyps(5,6)] runs_flush.IH
  show ?case by blast
qed

section \<open>The first state\<close>

text \<open>The edges of the input, without loops.\<close>

definition input_way :: "edge_based_edge list \<Rightarrow> NodeID \<Rightarrow> NodeID \<Rightarrow> int \<Rightarrow> bool" where
  "input_way input u v w \<longleftrightarrow> u \<noteq> v \<and> w \<in> usable input u v"

lemma usable_finite: "finite (usable input u v)"
  by (induction input) auto

lemma least_exists:
  assumes "w \<in> usable input u v"
  shows "\<exists>w' \<le> w. w' \<in> least_of (usable input u v)"
proof -
  have "Min (usable input u v) \<in> least_of (usable input u v)" "Min (usable input u v) \<le> w"
    using assms usable_finite [of input u v] by (auto simp: least_of_def intro: Min_in)
  then show ?thesis by blast
qed

lemma usable_ends:
  assumes "\<forall>e \<in> set input. be_source e < n \<and> be_target e < n" and "w \<in> usable input u v"
  shows "u < n" and "v < n" and "0 < w"
  using assms by (auto simp: usable_def)

lemma input_way_walk:
  assumes "walk (input_way input) u v d" and "\<forall>e \<in> set input. be_source e < n \<and> be_target e < n"
    and f: "\<forall>u < n. \<forall>v w. fedge g u v w \<longleftrightarrow> u \<noteq> v \<and> w \<in> least_of (usable input u v)"
  shows "u = v \<and> d = 0 \<or> u < n \<and> v < n \<and> (\<exists>d' \<le> d. walk (fedge g) u v d')"
  using assms(1)
proof (induction rule: walk.induct)
  case (walk_step u v d w c)
  have vw: "v < n" "w < n" "v \<noteq> w"
    using usable_ends [OF assms(2), of c v w] walk_step.hyps(2) by (auto simp: input_way_def)
  obtain c' where c': "c' \<le> c" "fedge g v w c'"
    using least_exists [of c input v w] walk_step.hyps(2) f vw(1) by (auto simp: input_way_def)
  from walk_step.IH show ?case
  proof
    assume "u = v \<and> d = 0"
    with c' vw walk_edge [of "fedge g" v w c'] show ?thesis
      by auto
  next
    assume "u < n \<and> v < n \<and> (\<exists>d' \<le> d. walk (fedge g) u v d')"
    then obtain d' where "u < n" "d' \<le> d" "walk (fedge g) u v d'"
      by blast
    with walk.walk_step [OF this(3) c'(2)] c'(1) vw show ?thesis
      by (intro disjI2 conjI exI [of _ "d' + c'"]) auto
  qed
qed simp

definition fresh_graph :: "edge_based_edge list \<Rightarrow> nat \<Rightarrow> contractor_graph \<Rightarrow> bool" where
  "fresh_graph input n g \<longleftrightarrow> dg_ok g \<and> dg_number_of_nodes g = n \<and> mirrored {..<n} g \<and> (\<forall>u < n. u \<notin> nbrs g u)
     \<and> (\<forall>u < n. \<forall>v w. fedge g u v w \<longleftrightarrow> u \<noteq> v \<and> w \<in> least_of (usable input u v))
     \<and> (\<forall>e \<in> set input. be_source e < n \<and> be_target e < n)"

lemma fresh_graphD:
  assumes "fresh_graph input n g"
  shows "dg_ok g" and "dg_number_of_nodes g = n" and "mirrored {..<n} g" and "u < n \<Longrightarrow> u \<notin> nbrs g u"
    and "u < n \<Longrightarrow> fedge g u v w \<longleftrightarrow> u \<noteq> v \<and> w \<in> least_of (usable input u v)"
    and "\<forall>e \<in> set input. be_source e < n \<and> be_target e < n"
  using assms unfolding fresh_graph_def by blast+

lemma fresh_way:
  assumes F: "fresh_graph input n g" and e: "fedge g u v w"
  shows "input_way input u v w"
proof -
  have "u < n"
    using e fresh_graphD(2) [OF F] by (simp add: fedge_def)
  with fresh_graphD(5) [OF F this] e show ?thesis
    by (simp add: input_way_def least_of_def)
qed

lemma fresh_base:
  assumes F: "fresh_graph input n g"
  shows "cg_base g"
  unfolding cg_base_def
proof (intro conjI allI impI ballI)
  note m = fresh_graphD(3) [OF F]
  show "dg_ok g"
    by (rule fresh_graphD(1) [OF F])
  fix v x
  assume v: "v < dg_number_of_nodes g" and x: "x \<in> set (dg_out g v)"
  then have vn: "v < n" "v \<in> {..<n}"
    by (simp_all add: fresh_graphD(2) [OF F])
  have positive: "0 < w" if "fedge g a b w" for a b w
    using fresh_way [OF F that] usable_ends(3) [OF fresh_graphD(6) [OF F]] unfolding input_way_def by blast
  show "ee_target x \<noteq> v"
    using fresh_graphD(4) [OF F vn(1)] x by (auto simp: nbrs_def)
  from mirroredD(3) [OF m vn(2) x] show "0 < ce_distance (ee_data x)"
  proof
    assume "ce_forward (ee_data x)"
    with v x show ?thesis
      by (intro positive [of v "ee_target x"]) (auto simp: fedge_def)
  next
    assume "ce_backward (ee_data x)"
    with v x have "bedge g v (ee_target x) (ce_distance (ee_data x))"
      by (auto simp: bedge_def)
    from mirroredD(5) [OF m vn(2) this] obtain w' where "w' \<le> ce_distance (ee_data x)" "fedge g (ee_target x) v w'"
      by blast
    with positive [OF this(2)] show ?thesis by linarith
  qed
qed

lemma fresh_hierarchy:
  assumes F: "fresh_graph input n g"
  shows "sound (input_way input) (dedge g)" and "complete (input_way input) {..<n} (dedge g)"
proof -
  have up: "\<exists>d \<le> w. walk (input_way input) u v d" if "fedge g u v w" for u v w
    using walk_edge [of "input_way input", OF fresh_way [OF F that]] by blast
  have "\<exists>d \<le> w. walk (input_way input) v u d" if e: "bedge g u v w" for u v w
  proof -
    have "u \<in> {..<n}"
      using e fresh_graphD(2) [OF F] by (simp add: bedge_def)
    from mirroredD(5) [OF fresh_graphD(3) [OF F] this e] obtain w' where w': "w' \<le> w" "fedge g v u w'"
      by blast
    with up [OF w'(2)] show ?thesis
      by (meson order_trans)
  qed
  with up show "sound (input_way input) (dedge g)"
    unfolding sound_def dedge_simps by blast
  show "complete (input_way input) {..<n} (dedge g)"
    unfolding complete_def
  proof (intro allI impI)
    fix u v d
    assume w: "walk (input_way input) u v d"
    have "u = v \<and> d = 0 \<or> u < n \<and> v < n \<and> (\<exists>d' \<le> d. walk (fedge g) u v d')"
      by (rule input_way_walk [OF w fresh_graphD(6) [OF F]]) (use fresh_graphD(5) [OF F] in blast)
    then show "meets {..<n} (dedge g) u v d"
    proof (elim disjE conjE exE)
      assume "u = v" "d = 0"
      then show ?thesis
        by (intro meetsI [of _ _ u u 0 v u 0 0]) (simp_all add: joins_def)
    next
      fix d'
      assume "u < n" "v < n" "d' \<le> d" "walk (fedge g) u v d'"
      then show ?thesis
        by (intro meetsI [of _ _ u u 0 v v 0 d']) (simp_all add: joins_def dedge_simps)
    qed
  qed
qed

lemma worker_fresh:
  assumes "c + 1 < UINT_MAX"
  shows "worker_ok (ContractorThreadData fh k) c (ContractorThreadData fh k)"
  using xor_new_heap(1) [of fh k] assms
  by (simp add: worker_ok_def ContractorThreadData_def clears_left_def BinaryHeap_def Clear_def XORFastHashStorage_def
      xor_Clear_def xor_storage_new_def UINT_MAX_def)

lemma run_init_inv:
  assumes F: "fresh_graph input n (ct_contractor_graph c)" and c: "ct_orig_node_id_from_new_node_id_map c = []" "ct_external_edge_list c = []"
    and n: "n \<le> 2 ^ 31" and sr: "search_room deg"
    and lim: "ct_node_levels c \<noteq> [] \<or> small deg (ct_contractor_graph c) \<and> n * deg + 1 < UINT_MAX"
    and run: "run_init fl fh c = Some s"
  shows "run_inv n (input_way input) s"
proof -
  let ?g = "ct_contractor_graph c" and ?d = "ContractorThreadData fh n"
  note nodes = fresh_graphD(2) [OF F]
  define d' where "d' = rs_thread s"
  note init = run [unfolded run_init_def Let_def nodes]
  have ct: "graph_of s = ?g" "ct_orig_node_id_from_new_node_id_map (rs_contractor s) = []" "ct_external_edge_list (rs_contractor s) = []"
    using init c by (auto simp: bind_eq_Some_conv)
  have rem: "rs_remaining_nodes s = map (\<lambda>x. \<lparr>rn_id = x mod 2 ^ 31, rn_is_independent = False\<rparr>) [0..<n]"
    and flushed: "\<not> rs_flushed_contractor s"
    using init by (auto simp: bind_eq_Some_conv)
  have eval: "d' = ?d \<or> ct_node_levels c = [] \<and> (\<exists>ps ps' nd. evaluate_all fl ?g nd [0..<n] (ps, ?d) = Some (ps', d'))"
    using init unfolding d'_def by (cases "ct_node_levels c = []") (auto simp: bind_eq_Some_conv)
  have thread: "rs_thread s = d'"
    by (simp add: d'_def)
  have "cinv (td_hash d') (td_heap d') \<and> td_inserted_edges d' = []"
    using eval
  proof (elim disjE exE conjE)
    assume "d' = ?d"
    then show ?thesis
      using worker_fresh [of 0 fh n] by (simp add: worker_ok_def ContractorThreadData_def UINT_MAX_def)
  next
    fix ps ps' nd
    assume e: "ct_node_levels c = []" "evaluate_all fl ?g nd [0..<n] (ps, ?d) = Some (ps', d')"
    then have lim': "small deg ?g" "n * deg + 1 < UINT_MAX"
      using lim by auto
    then have cg: "cg_ok deg ?g"
      using fresh_base [OF F] by (simp add: cg_ok_split)
    have w: "worker_ok ?d (0 + length [0..<n] * deg) ?d"
      using worker_fresh [of "n * deg"] lim'(2) by simp
    have "set [0..<n] \<subseteq> {..<dg_number_of_nodes ?g}"
      using nodes by auto
    from evaluate_list_worker [OF cg sr this w e(2) [unfolded evaluate_all_def]] show ?thesis
      by (simp add: worker_ok_def ContractorThreadData_def)
  qed
  moreover have ids: "map rn_id (rs_remaining_nodes s) = [0..<n]"
    unfolding rem using n by (auto intro!: map_idI simp: o_def)
  then have left: "left s = {..<n}"
    unfolding left_def set_map [symmetric] by auto
  have name: "name_of (rs_contractor s) = id" and aside: "put_aside (ct_external_edge_list (rs_contractor s)) = (\<lambda>dir x y w. False)"
    by (simp_all add: fun_eq_iff name_of_def put_aside_def ct)
  have stored: "stored (rs_contractor s) = dedge ?g"
    unfolding stored_def name aside by (simp add: fun_eq_iff renamed_def ct)
  ultimately show ?thesis
    using fresh_base [OF F] fresh_graphD(3) [OF F] fresh_hierarchy [OF F] nodes flushed
    unfolding run_inv_def Let_def name aside stored left ids thread by (simp add: ct names_ok_def)
qed

section \<open>The steps succeed\<close>

text \<open>A round with cached priorities that are in order contracts at least one node.\<close>

lemma cached_round:
  assumes inv: "run_inv n E0 s" and lim: "in_limits deg fl s" and sr: "search_room deg" and psort: "sorts psort"
    and ex: "exact_order val fl (rs_node_priorities s) (left s)" and ne: "rs_remaining_nodes s \<noteq> []"
  obtains s' where "run_round fl psort fast_hash True s = Some s'"
    "length (rs_remaining_nodes s') < length (rs_remaining_nodes s)"
    "rs_number_of_contracted_nodes s' + length (rs_remaining_nodes s')
      = rs_number_of_contracted_nodes s + length (rs_remaining_nodes s)"
proof -
  note I = run_invD [OF inv]
  let ?g = "graph_of s" and ?P = "\<lambda>a. IsNodeIndependent fl fast_hash (graph_of s) (rs_node_priorities s) a = Some True"
  let ?r = "map (\<lambda>node. node\<lparr>rn_is_independent := ?P (rn_id node)\<rparr>) (rs_remaining_nodes s)"
  have ok: "dg_ok ?g" and p: "priorities_ok fl ?g (rs_node_priorities s)"
    using I(1) lim by (simp_all add: cg_base_def in_limits_def)
  have "\<forall>node \<in> set (rs_remaining_nodes s). rn_id node < dg_number_of_nodes ?g"
    using mirroredD(1) [OF I(2)] by (auto simp: left_def)
  note mark = mark_independent_law [OF ok p this, of fast_hash]
  have "left s \<noteq> {}"
    using ne by (simp add: left_def)
  from some_node_independent [OF ok p I(2) this ex, of fast_hash]
  obtain node where node: "node \<in> set (rs_remaining_nodes s)" "?P (rn_id node)"
    by (auto simp: left_def)
  then have "node\<lparr>rn_is_independent := True\<rparr> \<in> set ?r"
    by (force simp: image_iff)
  then have "\<exists>x \<in> set ?r. rn_is_independent x"
    by (rule bexI [rotated]) simp
  then have some: "filter rn_is_independent ?r \<noteq> []"
    by (simp only: filter_empty_conv) blast
  have cl: "clears_left (td_heap (rs_thread s)) (0 + length (rs_remaining_nodes s) * (deg + deg * deg))"
    and ms: "\<forall>es. mset (psort es) = mset es"
    using lim psort by (simp_all add: in_limits_def sorts_def)
  from run_round_contracts [OF inv lim sr ms mark cl] obtain d1 g'
    where "contract_graph psort (map rn_id (filter rn_is_independent ?r)) (rs_thread s, ?g) = Some (d1, g')"
    by blast
  then have run: "run_round fl psort fast_hash True s \<noteq> None"
    by (simp add: run_round_def Let_def mark)
  then obtain s' where s': "run_round fl psort fast_hash True s = Some s'"
    by blast
  obtain r where r: "mark_independent fl fast_hash ?g (rs_node_priorities s) (rs_remaining_nodes s) = Some r"
    "rs_remaining_nodes s' = filter (\<lambda>node. \<not> rn_is_independent node) r"
    "rs_number_of_contracted_nodes s' = rs_number_of_contracted_nodes s + length (filter rn_is_independent r)"
    by (rule run_round_steps [OF s']) (rule that; assumption)
  have "r = ?r"
    using r(1) unfolding mark by (rule option.inject [THEN iffD1, symmetric])
  note kept = r(2,3) [unfolded this]
  have "length (filter rn_is_independent ?r) + length (rs_remaining_nodes s') = length (rs_remaining_nodes s)"
    unfolding kept(1) using sum_length_filter_compl [of rn_is_independent ?r] by simp
  with some kept(2) show thesis
    by (intro that [OF s']) (use length_greater_0_conv [of "filter rn_is_independent ?r"] in linarith)+
qed

lemma flush_succeeds:
  assumes inv: "run_inv n E0 s" and lim: "in_limits deg fl s" and psort: "sorts psort" and n: "n \<le> 2 ^ 31"
    and unflushed: "\<not> rs_flushed_contractor s"
  obtains s' where "run_flush psort fh n s = Some s'" "map rn_id (rs_remaining_nodes s') = [0..<length (rs_remaining_nodes s)]"
    "ct_orig_node_id_from_new_node_id_map (rs_contractor s') = map rn_id (rs_remaining_nodes s)"
    "ct_is_core_node (rs_contractor s') = ct_is_core_node (rs_contractor s)"
proof -
  note I = run_invD [OF inv]
  note U = I(9-11) [OF unflushed]
  define ids where "ids = map rn_id (rs_remaining_nodes s)"
  let ?g = "graph_of s" and ?count = "length (rs_remaining_nodes s)"
  have left: "left s = set ids" and l: "length ids = ?count"
    by (simp_all add: left_def ids_def)
  have ids: "set ids \<subseteq> {..<dg_number_of_nodes ?g}"
    using mirroredD(1) [OF I(2)] left by auto
  then have "length ids \<le> n"
    using card_mono [OF finite_lessThan ids] distinct_card [of ids] I(3) U(3) by (simp add: ids_def)
  then have len: "length ids \<le> 2 ^ 31"
    using n by simp
  have range: "\<forall>node \<in> set (rs_remaining_nodes s). rn_id node < n"
    using ids U(3) by (auto simp: ids_def)
  have closed: "\<forall>v \<in> set ids. \<forall>x \<in> set (dg_out ?g v). ee_target x \<in> set ids"
    using mirroredD(2) [OF I(2)] left by blast
  have ok: "dg_ok ?g"
    using I(1) by (simp add: cg_base_def)
  from renumber_law [OF I(3) range] len l obtain new_map remaining' where
    R: "foldM renumber_node [0..<?count] (replicate ?count 0, replicate n UINT_MAX, rs_remaining_nodes s) = Some (ids, new_map, remaining')"
    "numbered ids new_map n (length ids)" "map rn_id remaining' = [0..<?count]"
    unfolding ids_def by auto
  note num = R(2) [folded U(3)] and mark = numbered_marks [OF R(2) [folded U(3)] len]
  have "\<forall>v < dg_number_of_nodes ?g. new_map ! v \<noteq> UINT_MAX \<longrightarrow> (\<forall>x \<in> set (dg_out ?g v). new_map ! ee_target x \<noteq> UINT_MAX)"
    using mark closed ids by (metis lessThan_iff subset_eq)
  from flush_all [OF ok numberedD(1) [OF num] this] obtain es fs where
    F: "foldM (\<lambda>source lists. do {
       edges \<leftarrow> dg_GetAdjacentEdgeRange ?g source;
       foldM (flush_edge ?g new_map source) edges lists
     }) [0..<dg_number_of_nodes ?g] ([], []) = Some (es, fs)"
    "set fs = {moved_edge new_map v x | v x. v < dg_number_of_nodes ?g \<and> new_map ! v \<noteq> UINT_MAX \<and> x \<in> set (dg_out ?g v)}"
    by blast
  have N: "new_map ! v < length ids" if "v \<in> set ids" for v
    using that numberedD(2) [OF num] by (auto simp: in_set_conv_nth)
  have "\<forall>e \<in> set (psort fs). ie_source e < length ids \<and> ie_target e < length ids"
    unfolding sortsD(1) [OF psort] F(2) using N mark closed ids by (auto simp: moved_edge_def)
  moreover have "is_sorted dg_input_edge_less (psort fs)" "length ids \<le> UINT_MAX"
    using psort len by (simp_all add: sorts_def UINT_MAX_def)
  ultimately obtain g' where g': "DynamicGraph contractor_entry ?count (psort fs) = Some g'"
    using DynamicGraph_law [of "psort fs" "length ids" contractor_entry] l by auto
  have "dg_number_of_nodes ?g \<le> length (rs_node_priorities s)"
    using lim by (simp add: in_limits_def priorities_ok_def)
  then have prio: "rn_id (rs_remaining_nodes s ! i) < length (rs_node_priorities s)" if "i < ?count" for i
    using range that U(3) nth_mem [OF that] by fastforce
  have "\<exists>ps. foldM (\<lambda>i prios. do {
       node \<leftarrow> nth_opt (rs_remaining_nodes s) i;
       p \<leftarrow> nth_opt (rs_node_priorities s) (rn_id node);
       Some (prios @ [p])
     }) [0..<?count] [] = Some ps \<and> True"
    by (rule foldM_upt_invariant [where I = "\<lambda>_ _. True"]) (use prio in \<open>auto simp: nth_opt_in\<close>)
  then obtain ps where "foldM (\<lambda>i prios. do {
       node \<leftarrow> nth_opt (rs_remaining_nodes s) i;
       p \<leftarrow> nth_opt (rs_node_priorities s) (rn_id node);
       Some (prios @ [p])
     }) [0..<?count] [] = Some ps"
    by blast
  with R(1) F(1) g' U obtain s' where "run_flush psort fh n s = Some s'" "rs_remaining_nodes s' = remaining'"
    "ct_orig_node_id_from_new_node_id_map (rs_contractor s') = ids"
    "ct_is_core_node (rs_contractor s') = ct_is_core_node (rs_contractor s)"
    by (simp add: run_flush_def Let_def)
  with R(3) that show thesis
    by (simp add: ids_def)
qed

section \<open>Runs with cached priorities\<close>

text \<open>The states that the loop comes to, from a first one.\<close>

inductive reaches ::
  "'p float_ops \<Rightarrow> (contractor_edge list \<Rightarrow> contractor_edge list) \<Rightarrow> xor_fast_hash \<Rightarrow> xor_fast_hash \<Rightarrow> bool
   \<Rightarrow> nat \<Rightarrow> nat \<Rightarrow> nat \<Rightarrow> 'p run_state \<Rightarrow> 'p run_state \<Rightarrow> bool"
  for fl psort fh fast_hash cached n core flush where
  reaches_start: "reaches fl psort fh fast_hash cached n core flush s s"
| reaches_round: "n > 2 \<Longrightarrow> rs_number_of_contracted_nodes s < core \<Longrightarrow>
    rs_flushed_contractor s \<or> rs_number_of_contracted_nodes s \<le> flush \<Longrightarrow>
    run_round fl psort fast_hash cached s = Some s1 \<Longrightarrow>
    reaches fl psort fh fast_hash cached n core flush s1 s' \<Longrightarrow>
    reaches fl psort fh fast_hash cached n core flush s s'"
| reaches_flush: "n > 2 \<Longrightarrow> rs_number_of_contracted_nodes s < core \<Longrightarrow>
    \<not> rs_flushed_contractor s \<Longrightarrow> flush < rs_number_of_contracted_nodes s \<Longrightarrow>
    run_flush psort fh n s = Some s1 \<Longrightarrow>
    reaches fl psort fh fast_hash cached n core flush s1 s' \<Longrightarrow>
    reaches fl psort fh fast_hash cached n core flush s s'"

text \<open>Whatever is left to contract is within the limits, with priorities in order.\<close>

definition bounded_run ::
  "('p \<Rightarrow> 'k::linorder) \<Rightarrow> nat \<Rightarrow> 'p float_ops \<Rightarrow> (contractor_edge list \<Rightarrow> contractor_edge list) \<Rightarrow> xor_fast_hash
   \<Rightarrow> xor_fast_hash \<Rightarrow> nat \<Rightarrow> nat \<Rightarrow> nat \<Rightarrow> 'p run_state \<Rightarrow> bool" where
  "bounded_run val deg fl psort fh fast_hash n core flush s \<longleftrightarrow>
     (\<forall>s'. reaches fl psort fh fast_hash True n core flush s s' \<longrightarrow> n > 2 \<longrightarrow> rs_number_of_contracted_nodes s' < core \<longrightarrow>
        in_limits deg fl s' \<and> narrow (graph_of s') \<and> exact_order val fl (rs_node_priorities s') (left s'))"

lemma bounded_runD:
  assumes "bounded_run val deg fl psort fh fast_hash n core flush s" and "n > 2" and "rs_number_of_contracted_nodes s < core"
  shows "in_limits deg fl s" and "narrow (graph_of s)" and "exact_order val fl (rs_node_priorities s) (left s)"
    and "rs_flushed_contractor s \<or> rs_number_of_contracted_nodes s \<le> flush \<Longrightarrow> run_round fl psort fast_hash True s = Some s1 \<Longrightarrow>
      bounded_run val deg fl psort fh fast_hash n core flush s1"
    and "\<not> rs_flushed_contractor s \<Longrightarrow> flush < rs_number_of_contracted_nodes s \<Longrightarrow> run_flush psort fh n s = Some s1 \<Longrightarrow>
      bounded_run val deg fl psort fh fast_hash n core flush s1"
  using assms reaches_start [of fl psort fh fast_hash True n core flush s] unfolding bounded_run_def
  by (blast intro: reaches_round reaches_flush)+

text \<open>What the marking of the core needs: room for the names of the nodes that are left.\<close>

definition core_ok :: "nat \<Rightarrow> 'p run_state \<Rightarrow> bool" where
  "core_ok n s \<longleftrightarrow> length (ct_is_core_node (rs_contractor s)) = n
     \<and> rs_number_of_contracted_nodes s + length (rs_remaining_nodes s) = n
     \<and> (\<forall>x \<in> left s. let om = ct_orig_node_id_from_new_node_id_map (rs_contractor s) in
          if om = [] then x < n else x < length om \<and> om ! x < n)"

lemma core_okD:
  assumes "core_ok n s" and "x \<in> left s"
  shows "ct_orig_node_id_from_new_node_id_map (rs_contractor s) = [] \<Longrightarrow> x < n"
    and "ct_orig_node_id_from_new_node_id_map (rs_contractor s) \<noteq> [] \<Longrightarrow>
      x < length (ct_orig_node_id_from_new_node_id_map (rs_contractor s))
      \<and> ct_orig_node_id_from_new_node_id_map (rs_contractor s) ! x < n"
  using assms by (simp_all add: core_ok_def Let_def)

lemma core_markers:
  assumes "core_ok n s"
  shows "\<exists>b. run_core_markers s = Some ((rs_contractor s)\<lparr>ct_is_core_node := b\<rparr>)"
proof -
  let ?om = "ct_orig_node_id_from_new_node_id_map (rs_contractor s)"
  let ?step = "\<lambda>node is_core_node. do {
     x \<leftarrow> (if length ?om > 0 then nth_opt ?om (rn_id node) else Some (rn_id node));
     upd_opt is_core_node x True
   }"
  have "\<exists>b. foldM ?step nodes bs = Some b" if "length bs = n" "set nodes \<subseteq> set (rs_remaining_nodes s)" for nodes bs
    using that
  proof (induction nodes arbitrary: bs)
    case (Cons node nodes)
    have "rn_id node \<in> left s"
      using Cons.prems(2) by (simp add: left_def)
    from core_okD [OF assms this] Cons.prems(1) obtain x where "x < n" "?step node bs = Some (bs[x := True])"
      by (cases "?om = []") auto
    with Cons.IH [of "bs[x := True]"] Cons.prems show ?case by simp
  qed simp
  moreover have "length (ct_is_core_node (rs_contractor s)) = n"
    using assms by (simp add: core_ok_def)
  ultimately obtain b where "foldM ?step (rs_remaining_nodes s) (ct_is_core_node (rs_contractor s)) = Some b"
    by blast
  then have "run_core_markers s = Some ((rs_contractor s)\<lparr>ct_is_core_node := if length (rs_remaining_nodes s) > 2 then b else []\<rparr>)"
    by (simp add: run_core_markers_def Let_def)
  then show ?thesis by blast
qed

lemma core_round:
  assumes C: "core_ok n s" and inv: "run_inv n E0 s" and lim: "in_limits deg fl s"
    and run: "run_round fl psort fast_hash cached s = Some s'"
    and sum: "rs_number_of_contracted_nodes s' + length (rs_remaining_nodes s') = rs_number_of_contracted_nodes s + length (rs_remaining_nodes s)"
  shows "core_ok n s'"
proof -
  obtain r where r: "mark_independent fl fast_hash (graph_of s) (rs_node_priorities s) (rs_remaining_nodes s) = Some r"
    "rs_remaining_nodes s' = filter (\<lambda>node. \<not> rn_is_independent node) r"
    "ct_orig_node_id_from_new_node_id_map (rs_contractor s') = ct_orig_node_id_from_new_node_id_map (rs_contractor s)"
    by (rule run_round_steps [OF run]) (rule that; assumption)
  have "left s' \<subseteq> left s"
    unfolding left_def r(2) using run_round_marked(3) [OF inv lim r(1)] by (auto simp: left_def)
  moreover have "ct_is_core_node (rs_contractor s') = ct_is_core_node (rs_contractor s)"
    using run unfolding run_round_def Let_def by (auto simp: bind_eq_Some_conv)
  ultimately show ?thesis
    using C unfolding core_ok_def r(3) sum by (metis subset_eq)
qed

lemma core_flush:
  assumes C: "core_ok n s" and "map rn_id (rs_remaining_nodes s') = [0..<length (rs_remaining_nodes s)]"
    and om: "ct_orig_node_id_from_new_node_id_map (rs_contractor s') = map rn_id (rs_remaining_nodes s)"
    and "ct_is_core_node (rs_contractor s') = ct_is_core_node (rs_contractor s)"
    and "rs_number_of_contracted_nodes s' = rs_number_of_contracted_nodes s"
    and "ct_orig_node_id_from_new_node_id_map (rs_contractor s) = []"
  shows "core_ok n s'"
proof -
  have "left s' = {..<length (rs_remaining_nodes s)}"
    unfolding left_def set_map [symmetric] assms(2) by auto
  moreover have "rn_id (rs_remaining_nodes s ! x) < n" if "x < length (rs_remaining_nodes s)" for x
    using core_okD(1) [OF C _ assms(6)] nth_mem [OF that] by (simp add: left_def)
  moreover have "length (rs_remaining_nodes s') = length (rs_remaining_nodes s)"
    using arg_cong [OF assms(2), of length] by simp
  ultimately show ?thesis
    using C by (auto simp: core_ok_def Let_def om assms(4,5))
qed

lemma cached_runs:
  assumes "run_inv n E0 s" and "core_ok n s" and "bounded_run val deg fl psort fh fast_hash n core flush s"
    and sr: "search_room deg" and psort: "sorts psort" and n: "n \<le> 2 ^ 31" and core: "core \<le> n"
  shows "\<exists>s'. runs deg fl psort fh fast_hash True n core flush s s' \<and> core_ok n s'"
  using assms(1-3)
proof (induction "2 * length (rs_remaining_nodes s) + (if rs_flushed_contractor s then 0 else 1)" arbitrary: s rule: less_induct)
  case (less s)
  show ?case
  proof (cases "n > 2 \<and> rs_number_of_contracted_nodes s < core")
    case False
    with less.prems(2) show ?thesis
      by (blast intro: runs_stop)
  next
    case True
    then have go: "n > 2" "rs_number_of_contracted_nodes s < core"
      by simp_all
    note B = bounded_runD [OF less.prems(3) go]
    show ?thesis
    proof (cases "rs_flushed_contractor s \<or> rs_number_of_contracted_nodes s \<le> flush")
      case round: True
      have "rs_remaining_nodes s \<noteq> []"
        using less.prems(2) go(2) core by (auto simp: core_ok_def)
      from cached_round [OF less.prems(1) B(1) sr psort B(3) this] obtain s1 where
        s1: "run_round fl psort fast_hash True s = Some s1" "length (rs_remaining_nodes s1) < length (rs_remaining_nodes s)"
        "rs_number_of_contracted_nodes s1 + length (rs_remaining_nodes s1)
          = rs_number_of_contracted_nodes s + length (rs_remaining_nodes s)" .
      have "\<forall>es. mset (psort es) = mset es"
        using psort by (simp add: sorts_def)
      note inv1 = run_round_inv [OF less.prems(1) B(1) sr this s1(1) disjI1 [OF TrueI]]
      note core1 = core_round [OF less.prems(2,1) B(1) s1(1,3)]
      have "2 * length (rs_remaining_nodes s1) + (if rs_flushed_contractor s1 then 0 else 1)
          < 2 * length (rs_remaining_nodes s) + (if rs_flushed_contractor s then 0 else 1)"
        using s1(2) by simp
      from less.hyps [OF this inv1 core1 B(4) [OF round s1(1)]] show ?thesis
        using runs_round [OF go round B(1) s1(1)] by auto
    next
      case flush: False
      then have f: "\<not> rs_flushed_contractor s" "flush < rs_number_of_contracted_nodes s"
        by simp_all
      from flush_succeeds [OF less.prems(1) B(1) psort n f(1), of fh] obtain s1 where
        s1: "run_flush psort fh n s = Some s1" "map rn_id (rs_remaining_nodes s1) = [0..<length (rs_remaining_nodes s)]"
        "ct_orig_node_id_from_new_node_id_map (rs_contractor s1) = map rn_id (rs_remaining_nodes s)"
        "ct_is_core_node (rs_contractor s1) = ct_is_core_node (rs_contractor s)" .
      note F = run_flush_inv [OF less.prems(1) f(1) psort n B(2) s1(1)]
      note core1 = core_flush [OF less.prems(2) s1(2-4) F(3) run_invD(9) [OF less.prems(1) f(1)]]
      have "length (rs_remaining_nodes s1) = length (rs_remaining_nodes s)"
        using arg_cong [OF s1(2), of length] by simp
      then have "2 * length (rs_remaining_nodes s1) + (if rs_flushed_contractor s1 then 0 else 1)
          < 2 * length (rs_remaining_nodes s) + (if rs_flushed_contractor s then 0 else 1)"
        using F(2) f(1) by simp
      from less.hyps [OF this F(1) core1 B(5) [OF f s1(1)]] show ?thesis
        using runs_flush [OF go f B(2) s1(1)] by blast
    qed
  qed
qed

section \<open>Run\<close>

lemma Contractor_fresh:
  assumes "sorts psort" and "n \<le> 2 ^ 31"
    and "\<forall>e \<in> set input. be_source e < n \<and> be_target e < n \<and> be_weight e < INT_MAX"
    and "Contractor psort n input levels = Some c"
  shows "fresh_graph input n (ct_contractor_graph c)" and "ct_node_levels c = levels"
    and "ct_orig_node_id_from_new_node_id_map c = []" and "ct_external_edge_list c = []"
proof -
  have "n \<le> UINT_MAX"
    using assms(2) by (simp add: UINT_MAX_def)
  from Contractor_law [OF assms(1) this assms(3), of levels] assms(3,4)
  show "fresh_graph input n (ct_contractor_graph c)" "ct_node_levels c = levels"
    by (auto simp: fresh_graph_def)
  show "ct_orig_node_id_from_new_node_id_map c = []" "ct_external_edge_list c = []"
    using assms(4) unfolding Contractor_def Let_def by (auto simp: bind_eq_Some_conv)
qed

lemma hierarchy_meets:
  assumes "run_inv n E0 s"
  shows "(\<exists>d' \<le> d. walk E0 u v d') \<longleftrightarrow> meets (name_of (rs_contractor s) ` left s) (stored (rs_contractor s)) u v d"
proof
  note I = run_invD(5,6) [OF assms]
  show "meets (name_of (rs_contractor s) ` left s) (stored (rs_contractor s)) u v d" if "\<exists>d' \<le> d. walk E0 u v d'"
    using that I(2) unfolding complete_def meets_def by (meson order_trans)
qed (rule sound_meets [OF run_invD(5) [OF assms]])

lemma meets_entries:
  assumes "meets R E u v d"
  shows "\<exists>a p r. walk (E True) u a p \<and> walk (E False) v a r \<and> p + r \<le> d"
proof -
  obtain a b p q r where m: "walk (climbing R E True) u a p" "walk (climbing R E False) v b r" "joins R E a b q" "p + q + r \<le> d"
    using assms unfolding meets_def by blast
  have "walk (E True) u a p" "walk (E False) v b r"
    using m(1,2) by (auto elim!: walk_mono simp: climbing_def)
  moreover have "walk (E True) a b q"
    using m(3) by (auto simp: joins_def)
  ultimately have "walk (E True) u b (p + q)" "walk (E False) v b r"
    by (auto intro: walk_trans)
  with m(4) show ?thesis by blast
qed

lemma hierarchy_entries:
  assumes "run_inv n E0 s"
  shows "(\<exists>d' \<le> d. walk E0 u v d') \<longleftrightarrow> (\<exists>a p r. walk (stored (rs_contractor s) True) u a p
    \<and> walk (stored (rs_contractor s) False) v a r \<and> p + r \<le> d)"
proof
  assume "\<exists>d' \<le> d. walk E0 u v d'"
  then show "\<exists>a p r. walk (stored (rs_contractor s) True) u a p \<and> walk (stored (rs_contractor s) False) v a r \<and> p + r \<le> d"
    unfolding hierarchy_meets [OF assms] by (rule meets_entries)
next
  note S = run_invD(5) [OF assms]
  assume "\<exists>a p r. walk (stored (rs_contractor s) True) u a p \<and> walk (stored (rs_contractor s) False) v a r \<and> p + r \<le> d"
  then obtain a p r where "walk (stored (rs_contractor s) True) u a p" "walk (stored (rs_contractor s) False) v a r" "p + r \<le> d"
    by blast
  moreover from sound_up [OF S this(1)] sound_down [OF S this(2)] obtain p' r'
    where "p' \<le> p" "walk E0 u a p'" "r' \<le> r" "walk E0 a v r'"
    by blast
  ultimately show "\<exists>d' \<le> d. walk E0 u v d'"
    by (intro exI [of _ "p' + r'"] conjI) (auto intro: walk_trans)
qed

text \<open>
  C38: \<^verbatim>\<open>Run\<close> builds a contraction hierarchy of the edges it was given. On a new
  contractor, with cached priorities or without, and whether or not the nodes were renumbered
  in between: as long as its states stay within the limits, the loop ends, and there is a way
  from \<open>u\<close> to \<open>v\<close> of length at most \<open>d\<close> in the input exactly if two climbs meet within that
  length, one from \<open>u\<close> along the stored edges and one from \<open>v\<close> along the reversed ones, both
  outside of the core, joined by stored edges inside of it.
\<close>

theorem Run_hierarchy:
  assumes "sorts psort" and "search_room deg" and "n \<le> 2 ^ 31"
    and "\<forall>e \<in> set input. be_source e < n \<and> be_target e < n \<and> be_weight e < INT_MAX"
    and "Contractor psort n input levels = Some c" and "run_init fl fh1 c = Some s0"
    and "levels \<noteq> [] \<or> small deg (ct_contractor_graph c) \<and> n * deg + 1 < UINT_MAX"
    and "runs deg fl psort fh2 fast_hash (levels \<noteq> []) n core flush s0 s1"
  shows "Run fl psort fh1 fh2 fast_hash (\<lambda>_. core) (\<lambda>_. flush) c = run_core_markers s1
    \<and> (\<forall>u v d. (\<exists>d' \<le> d. walk (input_way input) u v d')
         \<longleftrightarrow> meets (name_of (rs_contractor s1) ` left s1) (stored (rs_contractor s1)) u v d)"
proof -
  note C = Contractor_fresh [OF assms(1,3-5)]
  have "run_inv n (input_way input) s0"
    using assms(7) by (intro run_init_inv [OF C(1,3,4) assms(3,2) _ assms(6)]) (simp add: C(2))
  from hierarchy_meets [OF runs_inv [OF assms(8) this assms(2,1,3)]] runs_loop [OF assms(8)] assms(6)
  show ?thesis
    by (simp add: Run_def Let_def C(2) fresh_graphD(2) [OF C(1)])
qed

lemma run_init_cached:
  assumes "levels \<noteq> []" and "length levels = n" and "ct_node_levels c = levels" and "dg_number_of_nodes (ct_contractor_graph c) = n"
    and "ct_orig_node_id_from_new_node_id_map c = []"
  shows "\<exists>s. run_init fl fh c = Some s \<and> core_ok n s"
proof -
  have "rn_id ` set (map (\<lambda>x. \<lparr>rn_id = x mod 2 ^ 31, rn_is_independent = False\<rparr>) [0..<n]) \<subseteq> {..<n}"
    by (auto intro: le_less_trans [OF mod_less_eq_dividend])
  then show ?thesis
    using assms by (auto simp: run_init_def Let_def core_ok_def left_def)
qed

lemma Run_cached:
  assumes "sorts psort" and "search_room deg" and "n \<le> 2 ^ 31"
    and "\<forall>e \<in> set input. be_source e < n \<and> be_target e < n \<and> be_weight e < INT_MAX"
    and "levels \<noteq> []" and "length levels = n" and "core \<le> n"
    and c: "Contractor psort n input levels = Some c"
    and "\<forall>s. run_init fl fh1 c = Some s \<longrightarrow> bounded_run val deg fl psort fh2 fast_hash n core flush s"
  shows "\<exists>s0 s1 b. run_init fl fh1 c = Some s0 \<and> runs deg fl psort fh2 fast_hash True n core flush s0 s1
    \<and> run_core_markers s1 = Some ((rs_contractor s1)\<lparr>ct_is_core_node := b\<rparr>)
    \<and> Run fl psort fh1 fh2 fast_hash (\<lambda>_. core) (\<lambda>_. flush) c = Some ((rs_contractor s1)\<lparr>ct_is_core_node := b\<rparr>)
    \<and> run_inv n (input_way input) s1"
proof -
  note C = Contractor_fresh [OF assms(1,3,4) c]
  note nodes = fresh_graphD(2) [OF C(1)]
  from run_init_cached [OF assms(5,6) C(2) nodes C(3)] obtain s0 where s0: "run_init fl fh1 c = Some s0" "core_ok n s0"
    by blast
  have inv: "run_inv n (input_way input) s0"
    using assms(5) by (intro run_init_inv [OF C(1,3,4) assms(3,2) _ s0(1)]) (simp add: C(2))
  from cached_runs [OF inv s0(2) assms(9) [rule_format, OF s0(1)] assms(2,1,3,7)] obtain s1
    where s1: "runs deg fl psort fh2 fast_hash True n core flush s0 s1" "core_ok n s1"
    by blast
  from core_markers [OF s1(2)] obtain b where b: "run_core_markers s1 = Some ((rs_contractor s1)\<lparr>ct_is_core_node := b\<rparr>)"
    by blast
  then have "Run fl psort fh1 fh2 fast_hash (\<lambda>_. core) (\<lambda>_. flush) c = Some ((rs_contractor s1)\<lparr>ct_is_core_node := b\<rparr>)"
    using s0(1) runs_loop [OF s1(1)] assms(5) by (simp add: Run_def Let_def C(2) nodes)
  with s0(1) s1(1) b runs_inv [OF s1(1) inv assms(2,1,3)] show ?thesis
    by blast
qed

lemma stored_core: "stored (c\<lparr>ct_is_core_node := b\<rparr>) = stored c"
proof -
  have "name_of (c\<lparr>ct_is_core_node := b\<rparr>) = name_of c"
    by (simp add: fun_eq_iff name_of_def)
  then show ?thesis
    by (simp add: stored_def)
qed

text \<open>
  C39: with cached priorities \<^verbatim>\<open>Run\<close> returns. Given one level per node, and as long as
  the comparison of levels is exact and the graphs stay within the limits, every round
  contracts at least one node, the renumbering succeeds, and the loop ends with a contractor
  in which climbs along the stored edges from both ends give exactly the distances of the
  input.
\<close>

theorem Run_returns:
  assumes "sorts psort" and "search_room deg" and "n \<le> 2 ^ 31"
    and "\<forall>e \<in> set input. be_source e < n \<and> be_target e < n \<and> be_weight e < INT_MAX"
    and "levels \<noteq> []" and "length levels = n" and "core \<le> n"
    and "Contractor psort n input levels = Some c"
    and "\<forall>s. run_init fl fh1 c = Some s \<longrightarrow> bounded_run val deg fl psort fh2 fast_hash n core flush s"
  shows "\<exists>c'. Run fl psort fh1 fh2 fast_hash (\<lambda>_. core) (\<lambda>_. flush) c = Some c'
    \<and> (\<forall>u v d. (\<exists>d' \<le> d. walk (input_way input) u v d')
         \<longleftrightarrow> (\<exists>a p r. walk (stored c' True) u a p \<and> walk (stored c' False) v a r \<and> p + r \<le> d))"
proof -
  from Run_cached [OF assms] obtain s1 b where
    "Run fl psort fh1 fh2 fast_hash (\<lambda>_. core) (\<lambda>_. flush) c = Some ((rs_contractor s1)\<lparr>ct_is_core_node := b\<rparr>)"
    "run_inv n (input_way input) s1"
    by blast
  then show ?thesis
    by (intro exI [of _ "(rs_contractor s1)\<lparr>ct_is_core_node := b\<rparr>"]) (simp add: stored_core hierarchy_entries)
qed

text \<open>Three nodes in a row, to be contracted in their order.\<close>

definition sample_input :: "edge_based_edge list" where
  "sample_input = [\<lparr>be_source = 0, be_target = 1, be_edge_id = 0, be_weight = 2, be_forward = True, be_backward = True\<rparr>,
     \<lparr>be_source = 1, be_target = 2, be_edge_id = 0, be_weight = 3, be_forward = True, be_backward = True\<rparr>]"

definition sample_contractor :: "nat contractor" where
  "sample_contractor = \<lparr>ct_contractor_graph = sample_contractor_graph, ct_external_edge_list = [],
     ct_orig_node_id_from_new_node_id_map = [], ct_node_levels = [0, 1, 2], ct_is_core_node = []\<rparr>"

lemma sample_Contractor: "Contractor (sort_key pair) 3 sample_input [0, 1, 2] = Some sample_contractor"
proof -
  let ?e = "\<lambda>u v w. \<lparr>ie_source = u, ie_target = v, ie_data = ContractorEdgeData w 1 0 False True True\<rparr>"
  let ?es = "[?e 0 1 2, ?e 1 0 2, ?e 1 2 3, ?e 2 1 3]"
  note merge = merge_parallel.simps emit_merged_def put_edge_def merged_edge_def ContractorEdgeData_def INT_MAX_def to_int32_def
  have "sort_key pair (concat (map import_edge sample_input)) = ?es"
    by (simp add: sample_input_def import_edge_def pair_def)
  moreover have "merge_edges ?es 0 0 = Some (?es, 4)"
    by (subst merge_edges.simps, simp add: merge)+
  moreover have "DynamicGraph contractor_entry 3 ?es = Some sample_contractor_graph"
    by (simp add: DynamicGraph_def dg_input_edge_less_def upt_rec dg_offsets_step_def skip_edges.simps dg_fill_step_def dg_copy_edge_def
      sample_contractor_graph_def two_way_def eval_nat_numeral)
  ultimately show ?thesis
    by (simp add: Contractor_def sample_contractor_def)
qed

lemma reaches_stop:
  assumes "reaches fl psort fh fast_hash cached n core flush s s'" and "core \<le> rs_number_of_contracted_nodes s"
  shows "s' = s"
  using assms by (cases rule: reaches.cases) auto

lemma sample_hypotheses:
  "sorts (sort_key pair)" "search_room 2" "(3 :: nat) \<le> 2 ^ 31"
  "\<forall>e \<in> set sample_input. be_source e < 3 \<and> be_target e < 3 \<and> be_weight e < INT_MAX"
  by (simp_all add: sorts_def sorted_pairs search_room_def sample_input_def INT_MAX_def)

lemma sample_bounded:
  assumes "run_init (number_ops 0) (XORFastHash id id) sample_contractor = Some s"
  shows "bounded_run id 2 (number_ops 0) (sort_key pair) (XORFastHash id id) (XORFastHash id id) 3 1 3 s"
proof -
  let ?fh = "XORFastHash id id" and ?fl = "number_ops 0"
  have s: "graph_of s = sample_contractor_graph" "rs_node_priorities s = [0, 1, 2]" "map rn_id (rs_remaining_nodes s) = [0, 1, 2]"
    "rs_thread s = ContractorThreadData ?fh 3" "rs_number_of_contracted_nodes s = 0"
    using assms by (auto simp: run_init_def Let_def sample_contractor_def sample_contractor_out upt_rec)
  have "length (map rn_id (rs_remaining_nodes s)) = 3" "set (map rn_id (rs_remaining_nodes s)) = {0, 1, 2}"
    unfolding s(3) by simp_all
  then have left: "left s = {0, 1, 2}" and len: "length (rs_remaining_nodes s) = 3"
    by (simp_all add: left_def)
  have lim: "in_limits 2 ?fl s" and ord: "exact_order id ?fl (rs_node_priorities s) (left s)" and nar: "narrow (graph_of s)"
  proof -
    have "small 2 (graph_of s)"
      using sample_contractor_ok unfolding s by (simp add: cg_ok_split)
    moreover have "list_room 2 (length (rs_remaining_nodes s)) (graph_of s)"
      by (simp add: s len list_room_def sample_contractor_graph_def SPECIAL_EDGEID_def UINT_MAX_def)
    moreover have "clears_left (td_heap (rs_thread s)) (length (rs_remaining_nodes s) * (2 + 2 * 2))"
      using worker_new [of ?fh 3] unfolding s len by (auto simp: worker_ok_def elim!: clears_left_le)
    ultimately show "in_limits 2 ?fl s"
      using sample_priorities_ok [of "[0, 1, 2]" 0] unfolding in_limits_def s left
      by (auto simp: comparable_def number_ops_def)
    show "exact_order id ?fl (rs_node_priorities s) (left s)"
      unfolding s left by (auto simp: exact_order_def number_ops_def)
    show "narrow (graph_of s)"
      unfolding s by (auto simp: narrow_def sample_contractor_out less_3_cases two_way_def ContractorEdgeData_def)
  qed
  note sorts = sample_hypotheses(1) and sr = sample_hypotheses(2) and n = sample_hypotheses(3)
  note C = Contractor_fresh [OF sorts n sample_hypotheses(4) sample_Contractor]
  have inv: "run_inv 3 (input_way sample_input) s"
    by (rule run_init_inv [OF C(1,3,4) n sr _ assms]) (simp add: C(2))
  have "rs_remaining_nodes s \<noteq> []"
    using len by auto
  from cached_round [OF inv lim sr sorts ord this, of ?fh] obtain s1 where
    s1: "run_round ?fl (sort_key pair) ?fh True s = Some s1" "length (rs_remaining_nodes s1) < length (rs_remaining_nodes s)"
    "rs_number_of_contracted_nodes s1 + length (rs_remaining_nodes s1)
      = rs_number_of_contracted_nodes s + length (rs_remaining_nodes s)" .
  then have one: "1 \<le> rs_number_of_contracted_nodes s1"
    using s(5) by linarith
  have "s' = s" if r: "reaches ?fl (sort_key pair) ?fh ?fh True 3 1 3 s s'" and "rs_number_of_contracted_nodes s' < 1" for s'
    using r
  proof (cases rule: reaches.cases)
    case (reaches_round s2)
    then have "s2 = s1"
      using s1(1) by simp
    with reaches_stop [OF reaches_round(5)] one that(2) show ?thesis
      by simp
  qed (use s(5) in simp_all)
  with lim ord nar show ?thesis
    unfolding bounded_run_def by blast
qed

lemma sample_way: "walk (input_way sample_input) 0 2 5"
proof -
  have "input_way sample_input 0 1 2" "input_way sample_input 1 2 3"
    by (simp_all add: input_way_def sample_input_def)
  then have "walk (input_way sample_input) 0 2 (0 + 2 + 3)"
    by (intro walk.walk_step [where v = 1] walk.walk_step [where v = 0]) auto
  then show ?thesis by simp
qed

theorem Run_hierarchy_witness:
  "\<exists>s1. Run (number_ops 0) (sort_key pair) (XORFastHash id id) (XORFastHash id id) (XORFastHash id id) (\<lambda>_. 1) (\<lambda>_. 3) sample_contractor
      = run_core_markers s1
    \<and> meets (name_of (rs_contractor s1) ` left s1) (stored (rs_contractor s1)) 0 2 5"
proof -
  have levels: "[0, 1, 2 :: nat] \<noteq> []" "length [0, 1, 2 :: nat] = 3" "(1 :: nat) \<le> 3"
    by simp_all
  have "\<forall>s. run_init (number_ops 0) (XORFastHash id id) sample_contractor = Some s \<longrightarrow>
      bounded_run id 2 (number_ops 0) (sort_key pair) (XORFastHash id id) (XORFastHash id id) 3 1 3 s"
    by (blast intro: sample_bounded)
  from Run_cached [OF sample_hypotheses levels sample_Contractor this] obtain s0 s1 where
    s0: "run_init (number_ops 0) (XORFastHash id id) sample_contractor = Some s0" and
    "runs 2 (number_ops 0) (sort_key pair) (XORFastHash id id) (XORFastHash id id) True 3 1 3 s0 s1"
    by blast
  then have s1: "runs 2 (number_ops 0) (sort_key pair) (XORFastHash id id) (XORFastHash id id) ([0, 1, 2 :: nat] \<noteq> []) 3 1 3 s0 s1"
    by simp
  from Run_hierarchy [OF sample_hypotheses sample_Contractor s0 disjI1 [OF levels(1)] s1] sample_way show ?thesis
    by blast
qed

theorem Run_returns_witness:
  "\<exists>c'. Run (number_ops 0) (sort_key pair) (XORFastHash id id) (XORFastHash id id) (XORFastHash id id) (\<lambda>_. 1) (\<lambda>_. 3) sample_contractor
      = Some c'
    \<and> (\<exists>a p r. walk (stored c' True) 0 a p \<and> walk (stored c' False) 2 a r \<and> p + r \<le> 5)"
proof -
  have levels: "[0, 1, 2 :: nat] \<noteq> []" "length [0, 1, 2 :: nat] = 3" "(1 :: nat) \<le> 3"
    by simp_all
  have "\<forall>s. run_init (number_ops 0) (XORFastHash id id) sample_contractor = Some s \<longrightarrow>
      bounded_run id 2 (number_ops 0) (sort_key pair) (XORFastHash id id) (XORFastHash id id) 3 1 3 s"
    by (blast intro: sample_bounded)
  from Run_returns [OF sample_hypotheses levels sample_Contractor this] sample_way show ?thesis
    by blast
qed

end
