(* ===== verification/Spec2Isabelle.thy ===== *)
theory Spec2Isabelle
  imports Dynamic_Graph_Laws Routing_Search Http_Parser Json_Renderer Range_Table Trip_Plugin
    Contractor_Loop
begin

text \<open>
  A verification of the routing engine under \<^verbatim>\<open>src/osrm-backend\<close>.
\<close>

end
